(* ===== verification/NB_Prelude.thy ===== *)
theory NB_Prelude
  imports Main "HOL-Library.Sublist" "HOL-Library.Word"
begin

text \<open>
  Shared vocabulary of the development: machine integers, the result type of operations that may throw, C's
  truncating division, the named collections of simplification rules, and facts about lists
  that several components use.
\<close>

named_theorems ustring_simps \<open>characterisations of the string primitives by list functions\<close>

section \<open>Machine integers\<close>

type_synonym u8 = "8 word"
type_synonym u16 = "16 word"
type_synonym u32 = "32 word"
type_synonym s64 = "64 word"

section \<open>Results of operations that may throw\<close>

text \<open>
  Every exception the modelled code throws or lets through is a constructor; the texts of the
  messages are resources and are not modelled.
\<close>

datatype nb_error =
    ERangeError                 \<comment> \<open>\<open>UnicodeString::ThrowIfOutOfRange\<close>\<close>
  | EInvalidArgument            \<comment> \<open>\<open>std::invalid_argument\<close>, e.g. \<open>StrToInt\<close>\<close>
  | ERightsFormat               \<comment> \<open>\<open>TRights\<close>: malformed permissions\<close>
  | EInvalidSettings            \<comment> \<open>malformed stored data\<close>
  | EPacketTooSmall             \<comment> \<open>\<open>SFTP_PACKET_ERROR\<close>: reading behind the end of a packet\<close>
  | EPacketTooBig               \<comment> \<open>\<open>SFTP_PACKET_TOO_BIG\<close>\<close>
  | EUnknownFileType            \<comment> \<open>\<open>SFTP_UNKNOWN_FILE_TYPE\<close>\<close>
  | EConnectionClosed           \<comment> \<open>the connection ends while data is expected\<close>
  | EUndefinedBehaviour         \<comment> \<open>memory access out of bounds, shift by a bad amount\<close>
  | EPacketOffset               \<comment> \<open>\<open>SFTP_PACKET_OFFSET_ERROR\<close>\<close>
  | EMessageNumber              \<comment> \<open>\<open>SFTP_MESSAGE_NUMBER\<close>\<close>
  | EInvalidType                \<comment> \<open>\<open>SFTP_INVALID_TYPE\<close>\<close>
  | EStatus nat                 \<comment> \<open>an SFTP status answer that is thrown\<close>
  | EMaskError int int          \<comment> \<open>\<open>EFileMasksException\<close> with its error range\<close>
  | ECommandError               \<comment> \<open>custom command pattern errors\<close>
  | EShellCommand               \<comment> \<open>\<open>INVALID_SHELL_COMMAND\<close>\<close>
  | EReadError                  \<comment> \<open>\<open>TStream::ReadBuffer\<close>: fewer bytes than asked for\<close>
  | EWriteError                 \<comment> \<open>\<open>TStream::WriteBuffer\<close>\<close>
  | EListError                  \<comment> \<open>\<open>TList::Error\<close>: index, duplicate, or change of a sorted list\<close>
  | EOther

type_synonym 'a res = "nb_error + 'a"

definition rbind :: "'a res \<Rightarrow> ('a \<Rightarrow> 'b res) \<Rightarrow> 'b res" where
  "rbind r f = (case r of Inl e \<Rightarrow> Inl e | Inr x \<Rightarrow> f x)"

lemma rbind_simps [simp]:
  "rbind (Inl e) f = Inl e"
  "rbind (Inr x) f = f x"
  by (simp_all add: rbind_def)

lemma rbind_assoc: "rbind (rbind r f) g = rbind r (\<lambda>x. rbind (f x) g)"
  by (cases r) simp_all

lemma rbind_eq_Inr_iff: "rbind r f = Inr y \<longleftrightarrow> (\<exists>x. r = Inr x \<and> f x = Inr y)"
  by (cases r) auto

lemma rbind_split:
  "P (rbind r f) \<longleftrightarrow> (\<forall>e. r = Inl e \<longrightarrow> P (Inl e)) \<and> (\<forall>x. r = Inr x \<longrightarrow> P (f x))"
  by (cases r) auto

lemma rbind_cong [fundef_cong]:
  "r = r' \<Longrightarrow> (\<And>x. r' = Inr x \<Longrightarrow> f x = f' x) \<Longrightarrow> rbind r f = rbind r' f'"
  by (cases r') auto

definition is_ok :: "'a res \<Rightarrow> bool" where
  "is_ok r \<longleftrightarrow> (case r of Inl _ \<Rightarrow> False | Inr _ \<Rightarrow> True)"

lemma is_ok_simps [simp]: "is_ok (Inr x)" "\<not> is_ok (Inl e)"
  by (simp_all add: is_ok_def)

section \<open>Division and remainder of C\<close>

text \<open>C truncates towards zero; \<open>div\<close> and \<open>mod\<close> on \<open>int\<close> round down.\<close>

definition cdiv :: "int \<Rightarrow> int \<Rightarrow> int" where
  "cdiv a b = sgn a * sgn b * (\<bar>a\<bar> div \<bar>b\<bar>)"

definition cmod :: "int \<Rightarrow> int \<Rightarrow> int" where
  "cmod a b = a - b * cdiv a b"

lemma cdiv_nonneg [simp]: "0 \<le> a \<Longrightarrow> 0 < b \<Longrightarrow> cdiv a b = a div b"
  by (cases "a = 0") (simp_all add: cdiv_def sgn_if)

lemma cmod_nonneg [simp]: "0 \<le> a \<Longrightarrow> 0 < b \<Longrightarrow> cmod a b = a mod b"
  by (simp add: cmod_def minus_mult_div_eq_mod)

section \<open>Lists\<close>

lemma takeWhile_dropWhile_split:
  assumes "\<exists>x \<in> set xs. \<not> P x"
  shows "xs = takeWhile P xs @ hd (dropWhile P xs) # tl (dropWhile P xs)"
    and "\<not> P (hd (dropWhile P xs))"
proof -
  from assms have ne: "dropWhile P xs \<noteq> []" by (auto simp: dropWhile_eq_Nil_conv)
  then show "\<not> P (hd (dropWhile P xs))" by (rule hd_dropWhile)
  from ne show "xs = takeWhile P xs @ hd (dropWhile P xs) # tl (dropWhile P xs)"
    by (simp add: takeWhile_dropWhile_id)
qed

lemma split_list_last_prop':
  assumes "\<exists>x \<in> set xs. P x"
  obtains ys x zs where "xs = ys @ x # zs" "P x" "\<forall>z \<in> set zs. \<not> P z"
  using split_list_last_prop [OF assms] by blast

lemma last_butlast_conv: "xs \<noteq> [] \<Longrightarrow> xs = butlast xs @ [last xs]"
  by simp

end
