(* ===== verification/UString.thy ===== *)
theory UString
  imports NB_Prelude
begin

text \<open>
  The string layer every component works on: \<open>CMStringT\<close> (src/src/include/nbstring.inl),
  \<open>UnicodeString\<close> (src/src/base/UnicodeString.cpp) and the search, trimming and cutting functions
  of src/src/base/Sysutils.cpp and src/src/base/StrUtils.cpp.

  A \<open>UnicodeString\<close> is modelled by its characters without the terminating zero. Positions are
  1-based and have type \<open>int\<close>, with 0 for "not found"; \<open>CMStringT\<close> indices are 0-based.
  Reading \<open>S[i]\<close> outside of the string throws in the source; \<open>char_at\<close> returns \<open>None\<close> there.
  Lengths stay far below \<open>2 ^ 31\<close>, so index arithmetic is on \<open>int\<close>.
\<close>

type_synonym ustring = string

section \<open>Primitives of the string class\<close>

definition Length :: "ustring \<Rightarrow> int" where
  "Length s = int (length s)"

text \<open>\<open>CMStringT::Mid(iFirst, nCount)\<close>, with its clamping.\<close>

definition Mid :: "ustring \<Rightarrow> int \<Rightarrow> int \<Rightarrow> ustring" where
  "Mid s iFirst nCount =
     (let iFirst = (if iFirst < 0 then 0 else iFirst);
          nCount = (if nCount < 0 then 0 else nCount);
          nCount = (if iFirst + nCount > Length s then Length s - iFirst else nCount);
          nCount = (if iFirst > Length s then 0 else nCount)
      in take (nat nCount) (drop (nat iFirst) s))"

text \<open>\<open>CMStringT::Delete(iIndex, nCount)\<close>, with its clamping.\<close>

definition Delete_at :: "ustring \<Rightarrow> int \<Rightarrow> int \<Rightarrow> ustring" where
  "Delete_at s iIndex nCount =
     (let iIndex = (if iIndex < 0 then 0 else iIndex);
          nCount = (if nCount < 0 then 0 else nCount);
          nCount = (if nCount + iIndex > Length s then Length s - iIndex else nCount)
      in if nCount > 0 then take (nat iIndex) s @ drop (nat iIndex + nat nCount) s else s)"

text \<open>\<open>CMStringT::Insert(iIndex, psz)\<close>, with its clamping.\<close>

definition Insert_at :: "ustring \<Rightarrow> int \<Rightarrow> ustring \<Rightarrow> ustring" where
  "Insert_at s iIndex psz =
     (let iIndex = (if iIndex < 0 then 0 else iIndex);
          iIndex = (if iIndex > Length s then Length s else iIndex)
      in if psz = [] then s else take (nat iIndex) s @ psz @ drop (nat iIndex) s)"

text \<open>\<open>CMStringT::Find\<close> for a character and for a string: \<open>-1\<close> when there is no match.\<close>

fun find_from :: "('a list \<Rightarrow> bool) \<Rightarrow> 'a list \<Rightarrow> nat option" where
  "find_from p [] = (if p [] then Some 0 else None)"
| "find_from p (x # xs) = (if p (x # xs) then Some 0 else map_option Suc (find_from p xs))"

definition Find_char :: "ustring \<Rightarrow> char \<Rightarrow> int" where
  "Find_char s c =
     (case find_from (\<lambda>t. t \<noteq> [] \<and> hd t = c) s of None \<Rightarrow> -1 | Some n \<Rightarrow> int n)"

definition Find_str :: "ustring \<Rightarrow> ustring \<Rightarrow> int" where
  "Find_str s sub = (case find_from (prefix sub) s of None \<Rightarrow> -1 | Some n \<Rightarrow> int n)"

text \<open>The \<open>UnicodeString\<close> members.\<close>

definition SubString :: "ustring \<Rightarrow> int \<Rightarrow> int \<Rightarrow> ustring" where
  "SubString s pos len = Mid s (pos - 1) len"

definition SubString_from :: "ustring \<Rightarrow> int \<Rightarrow> ustring" where
  "SubString_from s pos = Mid s (pos - 1) (Length s - (pos - 1))"

definition Delete :: "ustring \<Rightarrow> int \<Rightarrow> int \<Rightarrow> ustring" where
  "Delete s index count = Delete_at s (index - 1) count"

definition Insert :: "ustring \<Rightarrow> ustring \<Rightarrow> int \<Rightarrow> ustring" where
  "Insert s str pos = Insert_at s (pos - 1) str"

definition Replace :: "ustring \<Rightarrow> int \<Rightarrow> int \<Rightarrow> ustring \<Rightarrow> ustring" where
  "Replace s pos len str = Insert_at (Delete_at s (pos - 1) len) (pos - 1) str"

definition Pos_char :: "ustring \<Rightarrow> char \<Rightarrow> int" where
  "Pos_char s c = Find_char s c + 1"

definition Pos_str :: "ustring \<Rightarrow> ustring \<Rightarrow> int" where
  "Pos_str s sub = Find_str s sub + 1"

definition char_at :: "ustring \<Rightarrow> int \<Rightarrow> char option" where
  "char_at s i = (if i < 1 \<or> i > Length s then None else Some (s ! nat (i - 1)))"

text \<open>\<open>SetLength\<close> to a smaller or equal length keeps the front of the string.\<close>

definition SetLength :: "ustring \<Rightarrow> int \<Rightarrow> ustring" where
  "SetLength s n = take (nat n) s"

section \<open>Searching for delimiters\<close>

text \<open>
  \<open>IsDelimiter\<close> of Sysutils.cpp. Every caller passes an index of at least 1 (an index below 1 would
  throw when the character is read).
\<close>

definition IsDelimiter :: "ustring \<Rightarrow> ustring \<Rightarrow> int \<Rightarrow> bool" where
  "IsDelimiter delimiters str index =
     (if index \<le> Length str then
        (case char_at str index of None \<Rightarrow> False | Some ch \<Rightarrow> ch \<in> set delimiters)
      else False)"

text \<open>The loops of \<open>FirstDelimiter\<close> (upwards) and \<open>LastDelimiter\<close> (downwards).\<close>

fun first_delimiter_loop :: "ustring \<Rightarrow> ustring \<Rightarrow> nat \<Rightarrow> nat \<Rightarrow> int" where
  "first_delimiter_loop ds s index 0 = 0"
| "first_delimiter_loop ds s index (Suc n) =
     (if IsDelimiter ds s (int index) then int index
      else first_delimiter_loop ds s (Suc index) n)"

definition FirstDelimiter :: "ustring \<Rightarrow> ustring \<Rightarrow> int" where
  "FirstDelimiter ds s = first_delimiter_loop ds s 1 (length s)"

fun last_delimiter_loop :: "ustring \<Rightarrow> ustring \<Rightarrow> nat \<Rightarrow> int" where
  "last_delimiter_loop ds s 0 = 0"
| "last_delimiter_loop ds s (Suc n) =
     (if IsDelimiter ds s (int (Suc n)) then int (Suc n) else last_delimiter_loop ds s n)"

definition LastDelimiter :: "ustring \<Rightarrow> ustring \<Rightarrow> int" where
  "LastDelimiter ds s = last_delimiter_loop ds s (length s)"

text \<open>\<open>UnicodeString::RPos\<close>: the last position of a character, 0 when there is none.\<close>

definition RPos :: "ustring \<Rightarrow> char \<Rightarrow> int" where
  "RPos s c = (case find_from (\<lambda>t. t \<noteq> [] \<and> hd t = c) (rev s) of
                 None \<Rightarrow> 0 | Some n \<Rightarrow> Length s - int n)"

section \<open>Facts about the primitives\<close>

lemma Length_simps [simp]:
  "Length [] = 0" "Length (x # xs) = Length xs + 1" "Length (xs @ ys) = Length xs + Length ys"
  "0 \<le> Length s" "\<not> Length s < 0" "\<not> Length s + 1 \<le> 0" "nat (Length s) = length s"
  by (simp_all add: Length_def)

lemma Length_eq_0 [simp]: "Length s = 0 \<longleftrightarrow> s = []"
  by (simp add: Length_def)

lemma Length_pos_iff [simp]: "0 < Length s \<longleftrightarrow> s \<noteq> []"
  by (simp add: Length_def)

lemma Mid_conv [ustring_simps]: "Mid s i n = take (nat n) (drop (nat i) s)"
  by (auto simp: Mid_def Length_def Let_def nat_diff_distrib)

lemma Delete_at_conv [ustring_simps]:
  "Delete_at s i n = take (nat i) s @ drop (nat i + nat n) s"
  by (auto simp: Delete_at_def Length_def Let_def nat_diff_distrib)

lemma Insert_at_conv [ustring_simps]:
  "Insert_at s i t = take (nat i) s @ t @ drop (nat i) s"
  by (auto simp: Insert_at_def Length_def Let_def)

lemma SubString_conv [ustring_simps]:
  "SubString s p n = take (nat n) (drop (nat (p - 1)) s)"
  by (simp add: SubString_def Mid_conv)

lemma SubString_from_conv [ustring_simps]: "SubString_from s p = drop (nat (p - 1)) s"
  by (auto simp: SubString_from_def Mid_conv Length_def)

lemma Delete_conv [ustring_simps]:
  "Delete s p n = take (nat (p - 1)) s @ drop (nat (p - 1) + nat n) s"
  by (simp add: Delete_def Delete_at_conv)

lemma SubString_prefix [simp]: "SubString s 1 n = take (nat n) s"
  by (simp add: SubString_conv)

lemma find_from_None_iff: "find_from p s = None \<longleftrightarrow> (\<forall>n \<le> length s. \<not> p (drop n s))"
proof (induction s)
  case (Cons x s)
  have "(\<forall>n \<le> length (x # s). \<not> p (drop n (x # s))) \<longleftrightarrow>
        \<not> p (x # s) \<and> (\<forall>n \<le> length s. \<not> p (drop n s))"
    by (metis (no_types, opaque_lifting) Suc_le_mono drop0 drop_Suc_Cons le0 length_Cons
        not0_implies_Suc)
  with Cons show ?case by simp
qed simp

lemma find_from_Some_iff:
  "find_from p s = Some k \<longleftrightarrow> k \<le> length s \<and> p (drop k s) \<and> (\<forall>n < k. \<not> p (drop n s))"
proof (induction s arbitrary: k)
  case (Cons x s)
  show ?case
  proof (cases k)
    case (Suc m)
    have "(\<forall>n < Suc m. \<not> p (drop n (x # s))) \<longleftrightarrow> \<not> p (x # s) \<and> (\<forall>n < m. \<not> p (drop n s))"
      by (metis Suc_less_eq drop0 drop_Suc_Cons not0_implies_Suc zero_less_Suc)
    with Suc Cons show ?thesis by auto
  qed auto
qed auto

lemma find_char_eq:
  "find_from (\<lambda>t. t \<noteq> [] \<and> hd t = c) s =
     (if c \<in> set s then Some (length (takeWhile (\<lambda>x. x \<noteq> c) s)) else None)"
  by (induction s) auto

lemma Pos_char_conv [ustring_simps]:
  "Pos_char s c = (if c \<in> set s then int (length (takeWhile (\<lambda>x. x \<noteq> c) s)) + 1 else 0)"
  by (simp add: Pos_char_def Find_char_def find_char_eq)

lemma Pos_char_pos_iff [simp]: "0 < Pos_char s c \<longleftrightarrow> c \<in> set s"
  by (simp add: Pos_char_conv)

lemma Pos_char_eq_0_iff [simp]: "Pos_char s c = 0 \<longleftrightarrow> c \<notin> set s"
  by (simp add: Pos_char_conv)

lemma sublist_iff_drop: "sublist sub s \<longleftrightarrow> (\<exists>n \<le> length s. prefix sub (drop n s))"
proof
  assume "sublist sub s"
  then obtain ps ss where "s = ps @ sub @ ss" by (auto simp: sublist_def)
  then have "length ps \<le> length s" "prefix sub (drop (length ps) s)" by simp_all
  then show "\<exists>n \<le> length s. prefix sub (drop n s)" by blast
next
  assume "\<exists>n \<le> length s. prefix sub (drop n s)"
  then obtain n ss where "drop n s = sub @ ss" by (auto simp: prefix_def)
  then have "s = take n s @ sub @ ss" by (metis append_take_drop_id)
  then show "sublist sub s" by (auto simp: sublist_def)
qed

lemma Pos_str_eq_0_iff: "Pos_str s sub = 0 \<longleftrightarrow> \<not> sublist sub s"
proof -
  have "Pos_str s sub = 0 \<longleftrightarrow> find_from (prefix sub) s = None"
    by (auto simp: Pos_str_def Find_str_def split: option.splits)
  then show ?thesis by (simp add: find_from_None_iff sublist_iff_drop)
qed

lemma Pos_str_nonneg [simp]: "0 \<le> Pos_str s sub"
  by (auto simp: Pos_str_def Find_str_def split: option.splits)

lemma Pos_str_pos_iff: "0 < Pos_str s sub \<longleftrightarrow> sublist sub s"
  using Pos_str_eq_0_iff [of s sub] Pos_str_nonneg [of s sub] by linarith

text \<open>A match found at a position splits the string there, with no match that starts earlier.\<close>

lemma Pos_strE:
  assumes "0 < Pos_str s sub"
  obtains a b where "s = a @ sub @ b" "Pos_str s sub = int (length a) + 1"
    "\<forall>n < length a. \<not> prefix sub (drop n s)"
proof -
  from assms obtain n where n: "find_from (prefix sub) s = Some n"
    and p: "Pos_str s sub = int n + 1"
    by (auto simp: Pos_str_def Find_str_def split: option.splits)
  from n have le: "n \<le> length s" and pre: "prefix sub (drop n s)"
    and none: "\<forall>m < n. \<not> prefix sub (drop m s)"
    by (auto simp: find_from_Some_iff)
  from pre obtain b where "drop n s = sub @ b" by (auto simp: prefix_def)
  then have "s = take n s @ sub @ b" by (metis append_take_drop_id)
  moreover from le have "length (take n s) = n" by simp
  ultimately show ?thesis using that p none by metis
qed

lemma char_at_conv: "1 \<le> i \<Longrightarrow> i \<le> Length s \<Longrightarrow> char_at s i = Some (s ! nat (i - 1))"
  by (simp add: char_at_def)

lemma IsDelimiter_Suc [ustring_simps]:
  "IsDelimiter ds s (int (Suc n)) \<longleftrightarrow> n < length s \<and> s ! n \<in> set ds"
  by (auto simp: IsDelimiter_def char_at_def Length_def)

lemma IsDelimiter_last [simp]:
  "s \<noteq> [] \<Longrightarrow> IsDelimiter ds s (Length s) \<longleftrightarrow> last s \<in> set ds"
  by (cases s rule: rev_cases) (auto simp: IsDelimiter_def char_at_def nth_append Length_def)

lemma last_delimiter_loop_append:
  "n \<le> length s \<Longrightarrow> last_delimiter_loop ds (s @ t) n = last_delimiter_loop ds s n"
  by (induction n) (auto simp: IsDelimiter_def char_at_def Length_def nth_append nat_add_distrib)

text \<open>The three shapes of \<open>LastDelimiter\<close>, by the last character of the string.\<close>

lemma LastDelimiter_simps:
  "LastDelimiter ds [] = 0"
  "LastDelimiter ds (s @ [c]) = (if c \<in> set ds then Length s + 1 else LastDelimiter ds s)"
proof -
  show "LastDelimiter ds [] = 0" by (simp add: LastDelimiter_def)
  have "last_delimiter_loop ds (s @ [c]) (Suc (length s)) =
      (if c \<in> set ds then int (Suc (length s)) else last_delimiter_loop ds (s @ [c]) (length s))"
    by (simp add: IsDelimiter_Suc del: of_nat_Suc)
  then show "LastDelimiter ds (s @ [c]) = (if c \<in> set ds then Length s + 1 else LastDelimiter ds s)"
    by (simp add: LastDelimiter_def last_delimiter_loop_append Length_def)
qed

lemma LastDelimiter_append_none:
  "set t \<inter> set ds = {} \<Longrightarrow> LastDelimiter ds (s @ t) = LastDelimiter ds s"
proof (induction t rule: rev_induct)
  case (snoc c t)
  have "LastDelimiter ds ((s @ t) @ [c]) = LastDelimiter ds (s @ t)"
    using snoc.prems by (simp only: LastDelimiter_simps) auto
  with snoc show ?case by auto
qed simp

lemma LastDelimiter_split:
  "c \<in> set ds \<Longrightarrow> set t \<inter> set ds = {} \<Longrightarrow> LastDelimiter ds (s @ c # t) = Length s + 1"
  using LastDelimiter_append_none [of t ds "s @ [c]"] by (simp add: LastDelimiter_simps)

lemma LastDelimiter_none: "set s \<inter> set ds = {} \<Longrightarrow> LastDelimiter ds s = 0"
  using LastDelimiter_append_none [of s ds "[]"] by (simp add: LastDelimiter_simps)

lemma LastDelimiter_cases:
  obtains (none) "set s \<inter> set ds = {}" "LastDelimiter ds s = 0"
  | (some) a c b where "s = a @ c # b" "c \<in> set ds" "set b \<inter> set ds = {}"
      "LastDelimiter ds s = Length a + 1"
proof (cases "\<exists>x \<in> set s. x \<in> set ds")
  case True
  then obtain a c b where "s = a @ c # b" "c \<in> set ds" "\<forall>z \<in> set b. z \<notin> set ds"
    by (rule split_list_last_prop')
  with some show thesis using LastDelimiter_split [of c ds b a] by blast
next
  case False
  with none show thesis using LastDelimiter_none [of s ds] by blast
qed

lemma LastDelimiter_nonneg [simp]: "0 \<le> LastDelimiter ds s"
  by (cases rule: LastDelimiter_cases [of s ds]) auto

lemma LastDelimiter_le: "LastDelimiter ds s \<le> Length s"
  by (cases rule: LastDelimiter_cases [of s ds]) auto

end
