(* ===== verification/UnixPath.thy ===== *)
theory UnixPath
  imports UString
begin

text \<open>
  Remote (Unix) and local path functions: namespace \<open>base\<close> of src/src/base/Common.cpp and the path
  helpers of src/src/base/Sysutils.cpp. (The copies in src/src/core/RemoteFiles.cpp are compiled by
  the Borland compiler only.) The functions are used by every file system, by the directory
  caches and by the queue.
\<close>

section \<open>Constants and character classes\<close>

abbreviation Slash :: char where "Slash \<equiv> CHR ''/''"
abbreviation Backslash :: char where "Backslash \<equiv> CHR 0x5C"
abbreviation SLASH :: ustring where "SLASH \<equiv> ''/''"
abbreviation BACKSLASH :: ustring where "BACKSLASH \<equiv> [Backslash]"
abbreviation ROOTDIRECTORY :: ustring where "ROOTDIRECTORY \<equiv> ''/''"
abbreviation PARENTDIRECTORY :: ustring where "PARENTDIRECTORY \<equiv> ''..''"
abbreviation THISDIRECTORY :: ustring where "THISDIRECTORY \<equiv> ''.''"
abbreviation Ellipsis :: ustring where "Ellipsis \<equiv> ''...''"

definition IsLowerCaseLetter :: "char \<Rightarrow> bool" where
  "IsLowerCaseLetter ch \<longleftrightarrow> of_char ch \<ge> (97 :: nat) \<and> of_char ch \<le> (122 :: nat)"

definition IsUpperCaseLetter :: "char \<Rightarrow> bool" where
  "IsUpperCaseLetter ch \<longleftrightarrow> of_char ch \<ge> (65 :: nat) \<and> of_char ch \<le> (90 :: nat)"

definition IsLetter :: "char \<Rightarrow> bool" where
  "IsLetter ch \<longleftrightarrow> IsLowerCaseLetter ch \<or> IsUpperCaseLetter ch"

definition IsDigit :: "char \<Rightarrow> bool" where
  "IsDigit ch \<longleftrightarrow> of_char ch \<ge> (48 :: nat) \<and> of_char ch \<le> (57 :: nat)"

definition IsNumber :: "ustring \<Rightarrow> bool" where
  "IsNumber str \<longleftrightarrow> Length str > 0 \<and> list_all IsDigit str"

definition IsRealFile :: "ustring \<Rightarrow> bool" where
  "IsRealFile fileName \<longleftrightarrow> fileName \<noteq> THISDIRECTORY \<and> fileName \<noteq> PARENTDIRECTORY"

section \<open>Remote paths\<close>

definition IsUnixStyleWindowsPath :: "ustring \<Rightarrow> bool" where
  "IsUnixStyleWindowsPath path \<longleftrightarrow>
     Length path \<ge> 3 \<and> IsLetter (path ! 0) \<and> path ! 1 = CHR '':'' \<and> path ! 2 = Slash"

definition UnixIsAbsolutePath :: "ustring \<Rightarrow> bool" where
  "UnixIsAbsolutePath path \<longleftrightarrow>
     (Length path \<ge> 1 \<and> path ! 0 = Slash) \<or> IsUnixStyleWindowsPath path"

definition UnixIncludeTrailingBackslash :: "ustring \<Rightarrow> ustring" where
  "UnixIncludeTrailingBackslash path =
     (if path \<noteq> [] \<and> \<not> IsDelimiter SLASH path (Length path) then path @ SLASH else path)"

definition UnixExcludeTrailingBackslash :: "ustring \<Rightarrow> bool \<Rightarrow> ustring" where
  "UnixExcludeTrailingBackslash path simple =
     (let result =
        (if path = [] \<or> path = ROOTDIRECTORY \<or> \<not> IsDelimiter SLASH path (Length path) \<or>
            (\<not> simple \<and> Length path = 3 \<and> IsUnixStyleWindowsPath path)
         then path else SubString path 1 (Length path - 1))
      in if result = [] then ROOTDIRECTORY else result)"

definition SimpleUnixExcludeTrailingBackslash :: "ustring \<Rightarrow> ustring" where
  "SimpleUnixExcludeTrailingBackslash path = UnixExcludeTrailingBackslash path True"

definition UnixPath_Join :: "ustring \<Rightarrow> ustring \<Rightarrow> ustring" where
  "UnixPath_Join path fileName = UnixIncludeTrailingBackslash path @ fileName"

definition UnixCombinePaths :: "ustring \<Rightarrow> ustring \<Rightarrow> ustring" where
  "UnixCombinePaths path1 path2 = UnixPath_Join path1 path2"

definition UnixSamePath :: "ustring \<Rightarrow> ustring \<Rightarrow> bool" where
  "UnixSamePath path1 path2 \<longleftrightarrow>
     UnixIncludeTrailingBackslash path1 = UnixIncludeTrailingBackslash path2"

definition UnixIsChildPath :: "ustring \<Rightarrow> ustring \<Rightarrow> bool" where
  "UnixIsChildPath aParent aChild \<longleftrightarrow>
     (let parent = UnixIncludeTrailingBackslash aParent;
          child = UnixIncludeTrailingBackslash aChild
      in SubString child 1 (Length parent) = parent)"

definition UnixExtractFileDir :: "ustring \<Rightarrow> ustring" where
  "UnixExtractFileDir path =
     (let pos = LastDelimiter SLASH path
      in if pos > 1 then SubString path 1 (pos - 1)
         else if pos = 1 then ROOTDIRECTORY else [])"

definition UnixExtractFilePath :: "ustring \<Rightarrow> ustring" where
  "UnixExtractFilePath path =
     (let pos = LastDelimiter SLASH path
      in if pos > 0 then SubString path 1 pos else [])"

definition UnixExtractFileName :: "ustring \<Rightarrow> ustring" where
  "UnixExtractFileName path =
     (let pos = LastDelimiter SLASH path
      in if pos > 0 then SubString path (pos + 1) (Length path - pos) else path)"

definition UnixExtractFileExt :: "ustring \<Rightarrow> ustring" where
  "UnixExtractFileExt path =
     (let fileName = UnixExtractFileName path; pos = LastDelimiter ''.'' fileName
      in if pos > 0 then SubString path pos (Length path - pos + 1) else [])"

text \<open>\<open>Sysutils::ExtractFilename\<close> and \<open>base::ExtractFileName\<close>.\<close>

definition Sysutils_ExtractFilename :: "ustring \<Rightarrow> char \<Rightarrow> ustring" where
  "Sysutils_ExtractFilename path delimiter = SubString_from path (RPos path delimiter + 1)"

definition ExtractFileName :: "ustring \<Rightarrow> bool \<Rightarrow> ustring" where
  "ExtractFileName path unix =
     (if unix then UnixExtractFileName path else Sysutils_ExtractFilename path Backslash)"

definition ExtractShortName :: "ustring \<Rightarrow> bool \<Rightarrow> ustring" where
  "ExtractShortName path unix =
     (let result = ExtractFileName path unix in if result = [] then path else result)"

definition IsUnixRootPath :: "ustring \<Rightarrow> bool" where
  "IsUnixRootPath path \<longleftrightarrow> path = [] \<or> path = ROOTDIRECTORY"

definition IsUnixHiddenFile :: "ustring \<Rightarrow> bool" where
  "IsUnixHiddenFile fileName \<longleftrightarrow> IsRealFile fileName \<and> fileName \<noteq> [] \<and> fileName ! 0 = CHR ''.''"

section \<open>Local paths\<close>

definition ExcludeTrailingBackslash :: "ustring \<Rightarrow> ustring" where
  "ExcludeTrailingBackslash str =
     (if Length str > 0 \<and> (last str = Slash \<or> last str = Backslash)
      then SetLength str (Length str - 1) else str)"

definition IncludeTrailingBackslash :: "ustring \<Rightarrow> ustring" where
  "IncludeTrailingBackslash str =
     (if Length str = 0 \<or> (last str \<noteq> Slash \<and> last str \<noteq> Backslash)
      then str @ [Backslash] else str)"

definition ExtractFileDir :: "ustring \<Rightarrow> ustring" where
  "ExtractFileDir str =
     (let pos = LastDelimiter [Slash, Backslash] str
      in if pos > 1 then SubString str 1 pos
         else if pos = 1 then ROOTDIRECTORY else [])"

definition ExtractFilePath :: "ustring \<Rightarrow> ustring" where
  "ExtractFilePath str = ExtractFileDir str"

section \<open>Common path of a list of files\<close>

text \<open>
  An entry of a file list: its string, and the full name of the attached remote file, if one is
  attached (\<open>GetFileListItemPath\<close>).
\<close>

type_synonym file_item = "ustring \<times> ustring option"

definition GetFileListItemPath :: "file_item \<Rightarrow> ustring" where
  "GetFileListItemPath item = (case snd item of Some fullFileName \<Rightarrow> fullFileName | None \<Rightarrow> fst item)"

lemma UnixExclude_length: "p \<noteq> [] \<Longrightarrow> length (UnixExcludeTrailingBackslash p b) \<le> length p"
  by (cases p) (auto simp: UnixExcludeTrailingBackslash_def Let_def ustring_simps)

lemma UnixExtractFilePath_length: "length (UnixExtractFilePath p) \<le> length p"
  by (auto simp: UnixExtractFilePath_def Let_def)

lemma UnixExtractFilePath_Exclude_length:
  "p \<noteq> [] \<Longrightarrow> length (UnixExtractFilePath (UnixExcludeTrailingBackslash p b)) \<le> length p"
  using UnixExclude_length UnixExtractFilePath_length le_trans by blast

text \<open>The inner \<open>while\<close> of \<open>UnixExtractCommonPath\<close> for one file.\<close>

function unix_common_step :: "ustring \<Rightarrow> ustring \<Rightarrow> bool \<Rightarrow> ustring \<times> bool" where
  "unix_common_step fname path result =
     (if path \<noteq> [] \<and> SubString fname 1 (Length path) \<noteq> path then
        (let path' = UnixExtractFilePath (UnixExcludeTrailingBackslash path False)
         in if length path' = length path then unix_common_step fname [] False
            else unix_common_step fname path' result)
      else (path, result))"
  by pat_completeness auto
termination
proof (relation "measure (\<lambda>(fname, path, result). length path)")
  fix fname path :: ustring and result path'
  assume "path \<noteq> [] \<and> SubString fname 1 (Length path) \<noteq> path"
    and p: "path' = UnixExtractFilePath (UnixExcludeTrailingBackslash path False)"
    and "length path' \<noteq> length path"
  moreover from this have "length path' \<le> length path"
    using UnixExtractFilePath_Exclude_length by blast
  ultimately show "((fname, path', result), (fname, path, result))
      \<in> measure (\<lambda>(fname, path, result). length path)"
    by simp
qed auto

declare unix_common_step.simps [simp del]

fun unix_common_loop :: "file_item list \<Rightarrow> ustring \<times> bool \<Rightarrow> ustring \<times> bool" where
  "unix_common_loop [] pr = pr"
| "unix_common_loop (f # fs) (path, result) =
     unix_common_loop fs (unix_common_step (GetFileListItemPath f) path result)"

text \<open>
  \<open>UnixExtractCommonPath\<close>: the returned flag and the path parameter. Reading the first entry of
  an empty list throws.
\<close>

fun UnixExtractCommonPath :: "file_item list \<Rightarrow> (bool \<times> ustring) res" where
  "UnixExtractCommonPath [] = Inl ERangeError"
| "UnixExtractCommonPath (f # fs) =
     (let path = UnixExtractFilePath (GetFileListItemPath f); result = (path \<noteq> [])
      in if result then
           (case unix_common_loop fs (path, result) of (path', result') \<Rightarrow> Inr (result', path'))
         else Inr (result, path))"

lemma ExcludeTrailingBackslash_length: "length (ExcludeTrailingBackslash p) \<le> length p"
  by (auto simp: ExcludeTrailingBackslash_def SetLength_def)

lemma ExtractFilePath_length: "length (ExtractFilePath p) \<le> length p"
proof (cases rule: LastDelimiter_cases [of p "[Slash, Backslash]"])
  case none
  then show ?thesis by (simp add: ExtractFilePath_def ExtractFileDir_def)
next
  case (some a c b)
  then show ?thesis
    by (cases a) (auto simp: ExtractFilePath_def ExtractFileDir_def Let_def Length_def)
qed

function common_step :: "ustring \<Rightarrow> ustring \<Rightarrow> bool \<Rightarrow> ustring \<times> bool" where
  "common_step fname path result =
     (if path \<noteq> [] \<and> SubString fname 1 (Length path) \<noteq> path then
        (let path' = ExtractFilePath (ExcludeTrailingBackslash path)
         in if length path' = length path then common_step fname [] False
            else common_step fname path' result)
      else (path, result))"
  by pat_completeness auto
termination
proof (relation "measure (\<lambda>(fname, path, result). length path)")
  fix fname path :: ustring and result path'
  assume "path \<noteq> [] \<and> SubString fname 1 (Length path) \<noteq> path"
    and p: "path' = ExtractFilePath (ExcludeTrailingBackslash path)"
    and "length path' \<noteq> length path"
  moreover from p have "length path' \<le> length path"
    using ExcludeTrailingBackslash_length ExtractFilePath_length le_trans by blast
  ultimately show "((fname, path', result), (fname, path, result))
      \<in> measure (\<lambda>(fname, path, result). length path)"
    by simp
qed auto

declare common_step.simps [simp del]

fun common_loop :: "ustring list \<Rightarrow> ustring \<times> bool \<Rightarrow> ustring \<times> bool" where
  "common_loop [] pr = pr"
| "common_loop (f # fs) (path, result) = common_loop fs (common_step f path result)"

fun ExtractCommonPath :: "ustring list \<Rightarrow> (bool \<times> ustring) res" where
  "ExtractCommonPath [] = Inl ERangeError"
| "ExtractCommonPath (f # fs) =
     (let path = ExtractFilePath f; result = (path \<noteq> [])
      in if result then
           (case common_loop fs (path, result) of (path', result') \<Rightarrow> Inr (result', path'))
         else Inr (result, path))"

section \<open>Resolving a relative path\<close>

text \<open>The loop of \<open>AbsolutePath\<close> that removes \<open>/../\<close>, and the one that removes \<open>/./\<close>.\<close>

lemma Pos_str_length: "0 < Pos_str s sub \<Longrightarrow> nat (Pos_str s sub) + length sub \<le> length s + 1"
  by (erule Pos_strE) auto

function remove_parents :: "ustring \<Rightarrow> ustring" where
  "remove_parents result =
     (let p = Pos_str result ''/../''
      in if p > 0 then
           (if p = 1 then remove_parents ROOTDIRECTORY
            else let p2 = LastDelimiter SLASH (SubString result 1 (p - 1))
                 in remove_parents (Delete result p2 (p - p2 + 3)))
         else result)"
  by pat_completeness auto
termination
proof (relation "measure length")
  fix result p
  assume p: "p = Pos_str result ''/../''" and pos: "0 < p"
  then have len: "nat p + 4 \<le> length result + 1" using Pos_str_length by fastforce
  { assume "p = 1"
    with len show "(ROOTDIRECTORY, result) \<in> measure length" by simp }
  { fix p2 assume "p \<noteq> 1" and p2: "p2 = LastDelimiter SLASH (SubString result 1 (p - 1))"
    then have "0 \<le> p2" "p2 \<le> p - 1"
      using LastDelimiter_le [of SLASH "SubString result 1 (p - 1)"] pos
      by (auto simp: Length_def)
    with len pos show "(Delete result p2 (p - p2 + 3), result) \<in> measure length"
      by (auto simp: ustring_simps) }
qed auto

declare remove_parents.simps [simp del]

function remove_this :: "ustring \<Rightarrow> ustring" where
  "remove_this result =
     (let p = Pos_str result ''/./''
      in if p > 0 then remove_this (Delete result p 2) else result)"
  by pat_completeness auto
termination
proof (relation "measure length")
  fix result p
  assume p: "p = Pos_str result ''/./''" and pos: "0 < p"
  then have "nat p + 3 \<le> length result + 1" using Pos_str_length by fastforce
  with pos show "(Delete result p 2, result) \<in> measure length"
    by (auto simp: ustring_simps)
qed auto

declare remove_this.simps [simp del]

definition AbsolutePath :: "ustring \<Rightarrow> ustring \<Rightarrow> ustring" where
  "AbsolutePath base path =
     (if path = [] then base
      else if path ! 0 = Slash then UnixExcludeTrailingBackslash path False
      else UnixExcludeTrailingBackslash
             (remove_this (remove_parents
                (UnixIncludeTrailingBackslash (UnixPath_Join base path)))) False)"

section \<open>Partial files and shortened names\<close>

text \<open>\<open>StartsStr\<close>, \<open>EndsStr\<close> and \<open>EndsText\<close> of StrUtils.cpp, \<open>MidStr\<close> of Common.cpp.\<close>

definition StartsStr :: "ustring \<Rightarrow> ustring \<Rightarrow> bool" where
  "StartsStr subStr str \<longleftrightarrow> Pos_str str subStr = 1"

definition EndsStr :: "ustring \<Rightarrow> ustring \<Rightarrow> bool" where
  "EndsStr subStr str \<longleftrightarrow>
     (if Length subStr > Length str then False
      else SubString str (Length str - Length subStr + 1) (Length subStr) = subStr)"

definition EndsText :: "ustring \<Rightarrow> ustring \<Rightarrow> bool" where
  "EndsText subStr str \<longleftrightarrow> EndsStr subStr str"

definition MidStr :: "ustring \<Rightarrow> int \<Rightarrow> ustring" where
  "MidStr txt start = SubString txt start (Length txt - start + 1)"

abbreviation PartialExt :: ustring where "PartialExt \<equiv> ''.filepart''"

definition GetPartialFileExtLen :: "ustring \<Rightarrow> int" where
  "GetPartialFileExtLen fileName =
     (if EndsText PartialExt fileName then Length PartialExt
      else let p = LastDelimiter ''.'' fileName
           in if p > 0 \<and> p < Length fileName \<and> IsNumber (MidStr fileName (p + 1)) \<and>
                 EndsText PartialExt (SubString fileName 1 (p - 1))
              then Length PartialExt + (Length fileName - p + 1)
              else 0)"

text \<open>
  \<open>CutFirstDirectory\<close> reads \<open>S[1]\<close>, which throws for an empty string; \<open>MinimizeName\<close> never
  calls it with one, as shown below.
\<close>

definition CutFirstDirectory :: "ustring \<Rightarrow> bool \<Rightarrow> ustring res" where
  "CutFirstDirectory s unix =
     (let sep = (if unix then Slash else Backslash)
      in if s = [sep] then Inr []
         else (case char_at s 1 of None \<Rightarrow> Inl ERangeError | Some c \<Rightarrow>
           (let root = (c = sep);
                s = (if root then Delete s 1 1 else s)
            in (case char_at s 1 of None \<Rightarrow> Inl ERangeError | Some c \<Rightarrow>
              (let s = (if c = CHR ''.'' then Delete s 1 4 else s);
                   p = Pos_char s sep;
                   s = (if p \<noteq> 0 then Ellipsis @ [sep] @ Delete s 1 p else [])
               in Inr (if root then [sep] @ s else s))))))"

text \<open>What the loop of \<open>MinimizeName\<close> decreases.\<close>

definition strip_root :: "char \<Rightarrow> ustring \<Rightarrow> ustring" where
  "strip_root sep s = (if s \<noteq> [] \<and> hd s = sep then tl s else s)"

definition cut_measure :: "char \<Rightarrow> ustring \<Rightarrow> nat" where
  "cut_measure sep s =
     2 * count_list s sep + (if prefix (Ellipsis @ [sep]) (strip_root sep s) then 0 else 1)"

lemma count_list_drop_le: "count_list (drop n s) c \<le> count_list s c"
  by (metis append_take_drop_id count_list_append le_add2)

lemma count_list_dropWhile_tl:
  "c \<in> set s \<Longrightarrow> Suc (count_list (drop (Suc (length (takeWhile (\<lambda>x. x \<noteq> c) s))) s) c) = count_list s c"
  by (induction s) auto

lemma strip_root_simps [simp]:
  "strip_root sep (sep # s) = s" "strip_root sep [] = []"
  "c \<noteq> sep \<Longrightarrow> strip_root sep (c # s) = c # s"
  by (simp_all add: strip_root_def)

text \<open>One cut of a body, that is a directory without its leading separator.\<close>

definition cut_body :: "char \<Rightarrow> ustring \<Rightarrow> ustring" where
  "cut_body sep s =
     (let s = (if hd s = CHR ''.'' then drop 4 s else s)
      in if sep \<in> set s
         then Ellipsis @ [sep] @ drop (Suc (length (takeWhile (\<lambda>x. x \<noteq> sep) s))) s else [])"

lemma CutFirstDirectory_eq:
  assumes "s \<noteq> []" and sep: "sep = (if unix then Slash else Backslash)"
  shows "CutFirstDirectory s unix =
    Inr (if s = [sep] then [] else if hd s = sep then sep # cut_body sep (tl s) else cut_body sep s)"
proof -
  have c1: "char_at t 1 = (if t = [] then None else Some (hd t))" for t
    by (cases t) (auto simp: char_at_def)
  show ?thesis
  proof (cases "s = [sep]")
    case True
    with sep show ?thesis by (simp add: CutFirstDirectory_def)
  next
    case False
    with assms(1) have "hd s = sep \<Longrightarrow> tl s \<noteq> []" by (cases s) auto
    with False assms show ?thesis
      by (cases s) (auto simp: CutFirstDirectory_def cut_body_def c1 Let_def ustring_simps
          nat_add_distrib drop_Suc eval_nat_numeral)
  qed
qed

lemma cut_body_length_measure:
  assumes "s \<noteq> []" "sep \<noteq> CHR ''.''"
  shows "cut_body sep s = [] \<or>
    (prefix (Ellipsis @ [sep]) (cut_body sep s) \<and>
     (count_list (cut_body sep s) sep < count_list s sep \<or>
      (count_list (cut_body sep s) sep = count_list s sep \<and> \<not> prefix (Ellipsis @ [sep]) s)))"
proof (cases "cut_body sep s = []")
  case False
  define t where "t = (if hd s = CHR ''.'' then drop 4 s else s)"
  from False have mem: "sep \<in> set t"
    and eq: "cut_body sep s = Ellipsis @ [sep] @ drop (Suc (length (takeWhile (\<lambda>x. x \<noteq> sep) t))) t"
    by (auto simp: cut_body_def t_def Let_def split: if_splits)
  have cnt: "count_list (cut_body sep s) sep = count_list t sep"
    using count_list_dropWhile_tl [OF mem] assms(2) by (simp add: eq)
  have le: "count_list t sep \<le> count_list s sep"
    by (simp add: t_def count_list_drop_le)
  have "count_list t sep < count_list s sep" if "prefix (Ellipsis @ [sep]) s"
  proof -
    from that obtain r where "s = Ellipsis @ [sep] @ r" by (auto simp: prefix_def)
    with assms(2) show ?thesis by (simp add: t_def)
  qed
  with eq cnt le show ?thesis by fastforce
qed simp

lemma CutFirstDirectory_decreases:
  assumes "CutFirstDirectory s unix = Inr s'" "s \<noteq> []"
    and sep: "sep = (if unix then Slash else Backslash)"
  shows "cut_measure sep s' < cut_measure sep s \<or>
         (cut_measure sep s' = cut_measure sep s \<and> length s' < length s)"
proof -
  have dot: "sep \<noteq> CHR ''.''" using sep by simp
  have s': "s' = (if s = [sep] then [] else if hd s = sep then sep # cut_body sep (tl s)
                  else cut_body sep s)"
    using assms(1) CutFirstDirectory_eq [OF assms(2) sep] by simp
  have nil: "cut_measure sep [] = 1" by (simp add: cut_measure_def)
  consider (single) "s = [sep]" | (root) b where "s = sep # b" "b \<noteq> []"
    | (body) "hd s \<noteq> sep"
    using assms(2) by (cases s) auto
  then show ?thesis
  proof cases
    case single
    with s' show ?thesis by (simp add: cut_measure_def)
  next
    case root
    with s' have s': "s' = sep # cut_body sep b" by simp
    have "1 \<le> count_list b sep" if "prefix (Ellipsis @ [sep]) b"
      using that by (auto simp: prefix_def)
    with cut_body_length_measure [OF root(2) dot] root s' show ?thesis
      by (auto simp: cut_measure_def)
  next
    case body
    with s' assms(2) have s': "s' = cut_body sep s" by auto
    have sr: "strip_root sep s = s" using body by (simp add: strip_root_def)
    show ?thesis
    proof (cases "cut_body sep s = []")
      case True
      with s' assms(2) nil sr show ?thesis
        by (auto simp: cut_measure_def prefix_def)
    next
      case False
      then have "strip_root sep (cut_body sep s) = cut_body sep s"
        using dot by (auto simp: cut_body_def Let_def strip_root_def)
      with cut_body_length_measure [OF assms(2) dot] False s' sr show ?thesis
        by (auto simp: cut_measure_def)
    qed
  qed
qed

function minimize_loop ::
  "bool \<Rightarrow> int \<Rightarrow> ustring \<Rightarrow> ustring \<Rightarrow> ustring \<Rightarrow> ustring \<Rightarrow> ustring res" where
  "minimize_loop unix maxLen name drive dir result =
     (let sep = (if unix then Slash else Backslash)
      in if (dir \<noteq> [] \<or> drive \<noteq> []) \<and> Length result > maxLen then
           (if dir = [sep] @ Ellipsis @ [sep] then
              (let dir' = Ellipsis @ [sep]
               in minimize_loop unix maxLen name drive dir' (drive @ dir' @ name))
            else if dir = [] then
              minimize_loop unix maxLen name [] dir ([] @ dir @ name)
            else
              (case CutFirstDirectory dir unix of
                 Inl e \<Rightarrow> Inl e
               | Inr dir' \<Rightarrow> minimize_loop unix maxLen name drive dir' (drive @ dir' @ name)))
         else Inr result)"
  by pat_completeness auto
termination
proof (relation "measures [\<lambda>(unix, maxLen, name, drive, dir, result).
      cut_measure (if unix then Slash else Backslash) dir,
    \<lambda>(unix, maxLen, name, drive, dir, result). length dir + length drive]", goal_cases)
  case (2 unix maxLen name drive dir result sep dir')
  then show ?case by (cases unix) (auto simp: cut_measure_def)
next
  case (4 unix maxLen name drive dir result sep dir')
  then show ?case using CutFirstDirectory_decreases [of dir unix dir' sep] by auto
qed auto

declare minimize_loop.simps [simp del]

definition MinimizeName :: "ustring \<Rightarrow> int \<Rightarrow> bool \<Rightarrow> ustring res" where
  "MinimizeName fileName maxLen unix =
     (let (drive, dir, name) =
        (if unix then
           (let p = LastDelimiter SLASH fileName
            in if p \<noteq> 0 then ([], SubString fileName 1 p, SubString fileName (p + 1) (Length fileName - p))
               else ([], [], fileName))
         else
           (let dir = ExtractFilePath fileName; name = ExtractFileName fileName False
            in if Length dir \<ge> 2 \<and> char_at dir 2 = Some (CHR '':'')
               then (SubString dir 1 2, Delete dir 1 2, name) else ([], dir, name)))
      in rbind (minimize_loop unix maxLen name drive dir fileName)
           (\<lambda>result. Inr (if Length result > maxLen then SubString result 1 maxLen else result)))"

section \<open>Terminated paths\<close>

text \<open>
  What the comparisons of paths rely on: a function that completes a path with its separator.
  Comparing completed paths is an equivalence, and "is a completed prefix of" is a preorder whose
  kernel is that equivalence.
\<close>

locale terminated_path =
  fixes incl :: "ustring \<Rightarrow> ustring"
  assumes incl_idem: "incl (incl p) = incl p"
    and incl_prefix: "prefix p (incl p)"
begin

lemma incl_mono_same: "incl p = incl q \<Longrightarrow> prefix p (incl q)"
  using incl_prefix by metis

lemma child_refl: "prefix (incl p) (incl p)"
  by simp

lemma child_trans: "prefix (incl p) (incl q) \<Longrightarrow> prefix (incl q) (incl r) \<Longrightarrow> prefix (incl p) (incl r)"
  by (rule prefix_order.trans)

lemma child_antisym: "prefix (incl p) (incl q) \<Longrightarrow> prefix (incl q) (incl p) \<Longrightarrow> incl p = incl q"
  by (rule prefix_order.antisym)

lemma same_child: "incl p = incl q \<Longrightarrow> prefix (incl p) (incl r) = prefix (incl q) (incl r)"
  by simp

end

lemma UnixInclude_conv:
  "UnixIncludeTrailingBackslash p = (if p = [] \<or> last p = Slash then p else p @ [Slash])"
  by (auto simp: UnixIncludeTrailingBackslash_def)

lemma UnixInclude_terminated:
  "UnixIncludeTrailingBackslash p = [] \<or> last (UnixIncludeTrailingBackslash p) = Slash"
  by (simp add: UnixInclude_conv)

lemma IncludeTrailingBackslash_conv:
  "IncludeTrailingBackslash p =
     (if p \<noteq> [] \<and> (last p = Slash \<or> last p = Backslash) then p else p @ [Backslash])"
  by (auto simp: IncludeTrailingBackslash_def)

interpretation unix_terminated: terminated_path UnixIncludeTrailingBackslash
  by unfold_locales (auto simp: UnixInclude_conv)

interpretation local_terminated: terminated_path IncludeTrailingBackslash
  by unfold_locales (auto simp: IncludeTrailingBackslash_conv)

lemma UnixIsChildPath_iff:
  "UnixIsChildPath p q \<longleftrightarrow> prefix (UnixIncludeTrailingBackslash p) (UnixIncludeTrailingBackslash q)"
  by (auto simp: UnixIsChildPath_def Let_def prefix_def Length_def)
     (metis append_take_drop_id)

section \<open>Splitting and joining\<close>

lemma unix_split_cases:
  obtains (plain) "Slash \<notin> set p" "UnixExtractFilePath p = []" "UnixExtractFileName p = p"
      "UnixExtractFileDir p = []"
  | (dir) a b where "p = a @ [Slash] @ b" "Slash \<notin> set b" "UnixExtractFilePath p = a @ [Slash]"
      "UnixExtractFileName p = b" "UnixExtractFileDir p = (if a = [] then ROOTDIRECTORY else a)"
proof (cases rule: LastDelimiter_cases [of p SLASH])
  case none
  then show thesis
    by (intro plain) (auto simp: UnixExtractFilePath_def UnixExtractFileName_def UnixExtractFileDir_def)
next
  case (some a c b)
  then have c: "c = Slash" and b: "Slash \<notin> set b" by auto
  have l: "nat (Length a + 1) = Suc (length a)" "nat (Length b) = length b"
    by (simp_all add: Length_def)
  show thesis
  proof (rule dir [of a b])
    show "UnixExtractFilePath p = a @ [Slash]"
      using some(4) c by (simp add: UnixExtractFilePath_def Let_def some(1) l)
    show "UnixExtractFileName p = b"
      using some(4) c
      by (simp add: UnixExtractFileName_def Let_def some(1) ustring_simps Length_def nat_add_distrib)
    show "UnixExtractFileDir p = (if a = [] then ROOTDIRECTORY else a)"
      using some(4) c by (simp add: UnixExtractFileDir_def Let_def some(1))
  qed (use some c b in auto)
qed

lemma UnixExtractFilePath_terminated:
  "UnixExtractFilePath p = [] \<or> last (UnixExtractFilePath p) = Slash"
  by (cases rule: unix_split_cases [of p]) auto

lemma UnixExtractFilePath_prefix: "prefix (UnixExtractFilePath p) p"
  by (cases rule: unix_split_cases [of p]) (auto simp: prefix_def)

lemma UnixExtractFilePath_greatest:
  assumes "prefix q p" "q \<noteq> []" "last q = Slash"
  shows "prefix q (UnixExtractFilePath p)"
proof (cases rule: unix_split_cases [of p])
  case plain
  have "last q \<in> set p" using assms(1,2) by (auto simp: prefix_def)
  with plain assms show ?thesis by simp
next
  case (dir a b)
  from assms(1) obtain r where r: "p = q @ r" by (auto simp: prefix_def)
  show ?thesis
  proof (cases "length q \<le> length (a @ [Slash])")
    case True
    with r dir(1) have "prefix q (a @ [Slash])"
      by (metis append.assoc prefixI prefix_length_prefix)
    with dir show ?thesis by simp
  next
    case False
    from r dir(1) have eq: "q @ r = (a @ [Slash]) @ b" by simp
    then obtain u where u: "q = (a @ [Slash]) @ u \<and> u @ r = b \<or> q @ u = a @ [Slash] \<and> r = u @ b"
      unfolding append_eq_append_conv2 by blast
    then have u: "q = (a @ [Slash]) @ u" "b = u @ r"
      using False by (metis length_append le_add1)+
    with False have "u \<noteq> []" by auto
    with u assms(3) have "Slash \<in> set u" by (metis last_append last_in_set)
    with u dir(2) show ?thesis by simp
  qed
qed

section \<open>The common path is the greatest common directory\<close>

definition terminated :: "ustring \<Rightarrow> bool" where
  "terminated p \<longleftrightarrow> p = [] \<or> last p = Slash"

lemma take_eq_iff_prefix [simp]: "take (length p) s = p \<longleftrightarrow> prefix p s"
  by (metis append_eq_conv_conj append_take_drop_id prefix_def)

lemma UnixExclude_snoc:
  "d \<noteq> [] \<Longrightarrow> \<not> (length d = 2 \<and> IsUnixStyleWindowsPath (d @ [Slash])) \<Longrightarrow>
   UnixExcludeTrailingBackslash (d @ [Slash]) b = d"
  using IsDelimiter_last [of "d @ [Slash]" SLASH]
  by (auto simp: UnixExcludeTrailingBackslash_def Let_def) (auto simp: Length_def)

lemma IsLetter_ne_Slash: "IsLetter c \<Longrightarrow> c \<noteq> Slash"
  by (auto simp: IsLetter_def IsLowerCaseLetter_def IsUpperCaseLetter_def)

lemma takeWhile_no_sep: "c \<notin> set s \<Longrightarrow> takeWhile (\<lambda>x. x \<noteq> c) (s @ c # r) = s"
  by (induction s) auto

lemma last_split_unique:
  assumes "a @ c # b = e @ c # n" "c \<notin> set b" "c \<notin> set n"
  shows "a = e \<and> b = n"
proof -
  have "rev b @ c # rev a = rev n @ c # rev e"
    using arg_cong [OF assms(1), of rev] by simp
  then have "rev b = rev n"
    using assms(2,3) takeWhile_no_sep by (metis set_rev)
  with assms(1) show ?thesis by simp
qed

lemma unix_parent_step:
  assumes "path \<noteq> []" "last path = Slash"
    and p': "p' = UnixExtractFilePath (UnixExcludeTrailingBackslash path False)"
  shows "terminated p' \<and>
    (if length p' = length path
     then \<forall>q. q \<noteq> [] \<and> last q = Slash \<and> prefix q path \<longrightarrow> q = path
     else prefix p' path \<and>
       (\<forall>q. q \<noteq> [] \<and> last q = Slash \<and> prefix q path \<and> q \<noteq> path \<longrightarrow> prefix q p'))"
proof -
  have t: "terminated p'" using UnixExtractFilePath_terminated p' by (simp add: terminated_def)
  obtain d where d: "path = d @ [Slash]" using assms(1,2) by (metis append_butlast_last_id)
  consider (root) "d = []" | (drive) "length d = 2" "IsUnixStyleWindowsPath path"
    | (other) "d \<noteq> []" "\<not> (length d = 2 \<and> IsUnixStyleWindowsPath (d @ [Slash]))"
    using d by auto
  then show ?thesis
  proof cases
    case root
    then have "p' = path"
      by (simp add: p' d UnixExcludeTrailingBackslash_def UnixExtractFilePath_def
          LastDelimiter_split [of _ _ "[]" "[]", simplified])
    then show ?thesis using d root t by (auto simp: prefix_Cons)
  next
    case drive
    then obtain x y where xy: "d = [x, y]" "x \<noteq> Slash" "y \<noteq> Slash"
      using IsLetter_ne_Slash
      by (auto simp: d IsUnixStyleWindowsPath_def length_Suc_conv numeral_2_eq_2)
    have "UnixExcludeTrailingBackslash path False = path"
      using drive d by (simp add: UnixExcludeTrailingBackslash_def Length_def)
    then have "p' = path"
      using p' UnixExtractFilePath_greatest [of path path] UnixExtractFilePath_prefix [of path] assms
      by (metis prefix_order.antisym prefix_order.refl)
    then show ?thesis using d xy t by (auto simp: prefix_Cons split: if_splits)
  next
    case other
    then have p'd: "p' = UnixExtractFilePath d" using UnixExclude_snoc p' d by simp
    then have len: "length p' < length path"
      using UnixExtractFilePath_length [of d] d by simp
    have "prefix q p'" if "q \<noteq> []" "last q = Slash" "prefix q path" "q \<noteq> path" for q
    proof -
      from that(3,4) d have "prefix q d" by auto
      with that p'd show ?thesis by (simp add: UnixExtractFilePath_greatest)
    qed
    moreover have "prefix p' path" using p'd d UnixExtractFilePath_prefix [of d] by auto
    ultimately show ?thesis using len t by auto
  qed
qed

lemma unix_common_step_spec:
  assumes "terminated path" "unix_common_step fname path result = (p', r')"
  shows "terminated p' \<and> prefix p' path \<and> prefix p' fname \<and>
    (\<forall>q. q \<noteq> [] \<and> last q = Slash \<and> prefix q path \<and> prefix q fname \<longrightarrow> prefix q p')"
  using assms
proof (induction fname path result rule: unix_common_step.induct)
  case (1 fname path result)
  show ?case
  proof (cases "path \<noteq> [] \<and> \<not> prefix path fname")
    case False
    with "1.prems" have "p' = path" "path = [] \<or> prefix path fname"
      by (auto simp: unix_common_step.simps [of fname path])
    with "1.prems" show ?thesis by auto
  next
    case True
    define n where "n = UnixExtractFilePath (UnixExcludeTrailingBackslash path False)"
    from True "1.prems"(1) have ne: "path \<noteq> []" "last path = Slash" by (auto simp: terminated_def)
    note st = unix_parent_step [OF ne n_def]
    show ?thesis
    proof (cases "length n = length path")
      case eq: True
      with True "1.prems"(2) have "unix_common_step fname [] False = (p', r')"
        by (simp add: unix_common_step.simps [of fname path] n_def)
      then have "p' = []" by (simp add: unix_common_step.simps)
      with st eq True show ?thesis by (auto simp: terminated_def)
    next
      case ne': False
      with True "1.prems"(2) have c: "unix_common_step fname n result = (p', r')"
        by (simp add: unix_common_step.simps [of fname path] n_def)
      have "terminated p' \<and> prefix p' n \<and> prefix p' fname \<and>
        (\<forall>q. q \<noteq> [] \<and> last q = Slash \<and> prefix q n \<and> prefix q fname \<longrightarrow> prefix q p')"
        using "1.IH"(2) [OF _ n_def ne' _ c] st True by simp
      with st ne' True show ?thesis by (auto intro: prefix_order.trans)
    qed
  qed
qed

lemma unix_common_loop_spec:
  assumes "terminated path" "unix_common_loop fs (path, result) = (p', r')"
  shows "terminated p' \<and> prefix p' path \<and> (\<forall>f \<in> set fs. prefix p' (GetFileListItemPath f)) \<and>
    (\<forall>q. q \<noteq> [] \<and> last q = Slash \<and> prefix q path \<and>
       (\<forall>f \<in> set fs. prefix q (GetFileListItemPath f)) \<longrightarrow> prefix q p')"
  using assms
proof (induction fs arbitrary: path result)
  case (Cons f fs)
  obtain p1 r1 where s: "unix_common_step (GetFileListItemPath f) path result = (p1, r1)"
    by fastforce
  note st = unix_common_step_spec [OF Cons.prems(1) s]
  from Cons.prems(2) s have "unix_common_loop fs (p1, r1) = (p', r')" by simp
  from Cons.IH [OF _ this] st show ?case by (auto intro: prefix_order.trans)
qed (simp add: terminated_def)

section \<open>Resolving against the segments of a path\<close>

text \<open>
  The specification of \<open>AbsolutePath\<close>: a path is a list of segments, and \<open>..\<close> drops the segment
  before it. \<open>climbs\<close> says that some \<open>..\<close> finds no segment to drop.
\<close>

primrec front :: "ustring list \<Rightarrow> ustring" where
  "front [] = []"
| "front (s # segs) = Slash # s @ front segs"

definition render :: "ustring list \<Rightarrow> ustring" where
  "render segs = front segs @ SLASH"

fun resolve :: "ustring list \<Rightarrow> ustring list \<Rightarrow> ustring list" where
  "resolve st [] = st"
| "resolve st (p # ps) = (if p = PARENTDIRECTORY then resolve (butlast st) ps else resolve (st @ [p]) ps)"

fun climbs :: "ustring list \<Rightarrow> ustring list \<Rightarrow> bool" where
  "climbs st [] = False"
| "climbs st (p # ps) =
     (if p = PARENTDIRECTORY then st = [] \<or> climbs (butlast st) ps else climbs (st @ [p]) ps)"

definition proper_segment :: "ustring \<Rightarrow> bool" where
  "proper_segment s \<longleftrightarrow> s \<noteq> [] \<and> Slash \<notin> set s \<and> s \<noteq> THISDIRECTORY"

lemma render_Cons: "render (s # segs) = Slash # s @ render segs"
  by (simp add: render_def)

lemma front_append [simp]: "front (as @ bs) = front as @ front bs"
  by (induction as) simp_all

lemma render_ne [simp]: "render segs \<noteq> []" "last (render segs) = Slash"
  by (simp_all add: render_def)

lemma find_from_skip:
  "Slash \<notin> set t \<Longrightarrow>
   find_from (prefix (Slash # xs)) (t @ r) = map_option ((+) (length t)) (find_from (prefix (Slash # xs)) r)"
proof (induction t)
  case Nil
  then show ?case by (cases "find_from (prefix (Slash # xs)) r") simp_all
next
  case (Cons a t)
  then show ?case by (cases "find_from (prefix (Slash # xs)) r") simp_all
qed

lemma find_from_segment:
  assumes "Slash \<notin> set s" "Slash \<notin> set w" "s \<noteq> w"
  shows "find_from (prefix (Slash # w @ [Slash])) (Slash # s @ render segs) =
    map_option ((+) (Suc (length s))) (find_from (prefix (Slash # w @ [Slash])) (render segs))"
proof -
  have "\<not> prefix (w @ [Slash]) (s @ render segs)"
  proof
    assume "prefix (w @ [Slash]) (s @ render segs)"
    then obtain r where e: "s @ render segs = w @ Slash # r" by (auto simp: prefix_def)
    obtain r' where "render segs = Slash # r'" by (cases segs) (auto simp: render_def)
    with e assms have "s = w" using takeWhile_no_sep by metis
    with assms show False by simp
  qed
  then show ?thesis
    using find_from_skip [OF assms(1), of "w @ [Slash]" "render segs"]
    by (cases "find_from (prefix (Slash # w @ [Slash])) (render segs)") simp_all
qed

lemma render_front: "render (as @ bs) = front as @ render bs"
  by (simp add: render_def)

lemma find_render_none:
  "\<forall>s \<in> set segs. Slash \<notin> set s \<Longrightarrow> w \<notin> set segs \<Longrightarrow> Slash \<notin> set w \<Longrightarrow>
   find_from (prefix (Slash # w @ [Slash])) (render segs) = None"
proof (induction segs)
  case Nil
  then show ?case by (auto simp: render_def)
next
  case (Cons s segs)
  then show ?case using find_from_segment [of s w segs]
    by (auto simp: render_Cons simp del: find_from.simps)
qed

lemma find_render_first:
  "\<forall>s \<in> set as. Slash \<notin> set s \<Longrightarrow> w \<notin> set as \<Longrightarrow> Slash \<notin> set w \<Longrightarrow>
   find_from (prefix (Slash # w @ [Slash])) (render (as @ w # bs)) = Some (length (front as))"
proof (induction as)
  case Nil
  have "prefix (w @ [Slash]) (w @ render bs)" by (cases bs) (simp_all add: render_def)
  then show ?case by (simp add: render_Cons)
next
  case (Cons s as)
  then show ?case using find_from_segment [of s w "as @ w # bs"]
    by (auto simp: render_Cons simp del: find_from.simps)
qed

lemma Pos_render_none:
  "\<forall>s \<in> set segs. Slash \<notin> set s \<Longrightarrow> w \<notin> set segs \<Longrightarrow> Slash \<notin> set w \<Longrightarrow>
   Pos_str (render segs) (Slash # w @ [Slash]) = 0"
  by (simp add: Pos_str_def Find_str_def find_render_none)

lemma remove_parents_unfold:
  assumes "Pos_str r ''/../'' = p" "1 < p" "LastDelimiter SLASH (SubString r 1 (p - 1)) = p2"
  shows "remove_parents r = remove_parents (Delete r p2 (p - p2 + 3))"
  using assms by (subst remove_parents.simps) (simp add: Let_def del: SubString_prefix)

lemma remove_parents_step:
  assumes "\<forall>s \<in> set cs \<union> {c}. Slash \<notin> set s" "PARENTDIRECTORY \<notin> set cs \<union> {c}"
  shows "remove_parents (render (cs @ c # PARENTDIRECTORY # bs)) = remove_parents (render (cs @ bs))"
proof -
  let ?r = "render (cs @ c # PARENTDIRECTORY # bs)"
  let ?p = "int (length (front cs)) + 1 + int (length c) + 1"
  have p: "Pos_str ?r ''/../'' = ?p"
    using find_render_first [of "cs @ [c]" PARENTDIRECTORY bs] assms
    by (simp add: Pos_str_def Find_str_def)
  have r: "?r = (front cs @ Slash # c) @ ''/..'' @ render bs"
    by (simp add: render_def)
  have p2: "LastDelimiter SLASH (SubString ?r 1 (?p - 1)) = int (length (front cs)) + 1"
    unfolding r using assms LastDelimiter_split [of Slash SLASH c "front cs"]
    by (simp add: nat_add_distrib Length_def)
  have "Delete ?r (int (length (front cs)) + 1) (?p - (int (length (front cs)) + 1) + 3) =
      front cs @ render bs"
    unfolding r by (simp add: ustring_simps nat_add_distrib numeral_eq_Suc)
  with remove_parents_unfold [OF p _ p2] show ?thesis
    unfolding render_front [of cs bs] by simp
qed

lemma remove_parents_resolve:
  assumes "\<forall>s \<in> set st \<union> set ps. Slash \<notin> set s" "PARENTDIRECTORY \<notin> set st" "\<not> climbs st ps"
  shows "remove_parents (render (st @ ps)) = render (resolve st ps)"
  using assms
proof (induction ps arbitrary: st)
  case Nil
  then have "Pos_str (render st) ''/../'' = 0" using Pos_render_none [of st PARENTDIRECTORY] by simp
  then show ?case by (simp add: remove_parents.simps [of "render st"])
next
  case (Cons p ps)
  show ?case
  proof (cases "p = PARENTDIRECTORY")
    case True
    with Cons.prems(3) obtain cs c where st: "st = cs @ [c]" by (cases st rule: rev_cases) auto
    have "remove_parents (render (st @ p # ps)) = remove_parents (render (cs @ ps))"
      using remove_parents_step [of cs c ps] Cons.prems True st by auto
    also have "\<dots> = render (resolve cs ps)"
      using Cons.IH [of cs] Cons.prems True st by auto
    finally show ?thesis using True st by simp
  next
    case False
    then show ?thesis using Cons.IH [of "st @ [p]"] Cons.prems by auto
  qed
qed

lemma resolve_set: "set (resolve st ps) \<subseteq> set st \<union> set ps"
proof (induction ps arbitrary: st)
  case (Cons p ps)
  show ?case using Cons.IH [of "butlast st"] Cons.IH [of "st @ [p]"]
    by (auto dest: in_set_butlastD)
qed simp

lemma remove_this_render:
  assumes "\<forall>s \<in> set segs. Slash \<notin> set s" "THISDIRECTORY \<notin> set segs"
  shows "remove_this (render segs) = render segs"
proof -
  have "Pos_str (render segs) ''/./'' = 0" using Pos_render_none [of segs THISDIRECTORY] assms by simp
  then show ?thesis by (simp add: remove_this.simps [of "render segs"])
qed

section \<open>The loop of \<open>MinimizeName\<close>\<close>

lemma minimize_loop_spec:
  assumes "suffix name result"
  shows "\<exists>r. minimize_loop unix maxLen name drive dir result = Inr r \<and> suffix name r \<and>
    (Length result \<le> maxLen \<longrightarrow> r = result) \<and>
    (Length r > maxLen \<longrightarrow> r = result \<and> dir = [] \<and> drive = [] \<or> r = name)"
  using assms
proof (induction unix maxLen name drive dir result rule: minimize_loop.induct)
  case (1 unix maxLen name drive dir result)
  let ?sep = "if unix then Slash else Backslash"
  note unfold = minimize_loop.simps [of unix maxLen name drive dir result]
  show ?case
  proof (cases "(dir \<noteq> [] \<or> drive \<noteq> []) \<and> Length result > maxLen")
    case False
    then show ?thesis using "1.prems" by (auto simp: unfold Let_def)
  next
    case True
    consider (ell) "dir = [?sep] @ Ellipsis @ [?sep]"
      | (nil) "dir = []" | (cut) "dir \<noteq> [?sep] @ Ellipsis @ [?sep]" "dir \<noteq> []"
      by blast
    then show ?thesis
    proof cases
      case ell
      then have "minimize_loop unix maxLen name drive dir result =
          minimize_loop unix maxLen name drive (Ellipsis @ [?sep]) (drive @ (Ellipsis @ [?sep]) @ name)"
        unfolding unfold using True ell by (simp add: Let_def)
      with "1.IH"(1) [OF refl True ell refl] True show ?thesis
        by (auto simp: suffix_def)
    next
      case nil
      then have "minimize_loop unix maxLen name drive dir result =
          minimize_loop unix maxLen name [] dir ([] @ dir @ name)"
        unfolding unfold using True nil by (simp add: Let_def)
      with "1.IH"(2) [OF refl True _ nil] True nil show ?thesis by auto
    next
      case cut
      obtain d where d: "CutFirstDirectory dir unix = Inr d"
        using CutFirstDirectory_eq [OF cut(2) refl, of unix] by simp
      then have "minimize_loop unix maxLen name drive dir result =
          minimize_loop unix maxLen name drive d (drive @ d @ name)"
        unfolding unfold using True cut by (simp add: Let_def)
      with "1.IH"(3) [OF refl True cut d] True show ?thesis
        by (auto simp: suffix_def)
    qed
  qed
qed

lemma suffix_Sysutils_ExtractFilename: "suffix (Sysutils_ExtractFilename f c) f"
  by (simp add: Sysutils_ExtractFilename_def SubString_from_conv suffix_drop)

lemma suffix_UnixExtractFileName: "suffix (UnixExtractFileName f) f"
  by (cases rule: unix_split_cases [of f]) (auto simp: suffix_def)

lemma suffix_ExtractFileName: "suffix (ExtractFileName f u) f"
  by (simp add: ExtractFileName_def suffix_Sysutils_ExtractFilename suffix_UnixExtractFileName)

lemma ExtractFilePath_Nil: "ExtractFilePath f = [] \<Longrightarrow> ExtractFileName f False = f"
proof (cases rule: LastDelimiter_cases [of f "[Slash, Backslash]"])
  case none
  then have "Backslash \<notin> set (rev f)" by auto
  then show ?thesis
    by (simp add: ExtractFileName_def Sysutils_ExtractFilename_def RPos_def find_char_eq
        SubString_from_conv)
next
  case (some a c b)
  moreover assume "ExtractFilePath f = []"
  ultimately show ?thesis
    by (auto simp: ExtractFilePath_def ExtractFileDir_def Let_def split: if_splits)
qed

text \<open>The drive, directory and name that \<open>MinimizeName\<close> starts with.\<close>

lemma MinimizeName_start:
  obtains drive dir where
    "MinimizeName f n u = rbind (minimize_loop u n (ExtractFileName f u) drive dir f)
       (\<lambda>result. Inr (if Length result > n then SubString result 1 n else result))"
    "dir = [] \<and> drive = [] \<Longrightarrow> ExtractFileName f u = f"
proof (cases u)
  case True
  show thesis
  proof (cases rule: unix_split_cases [of f])
    case plain
    then have "LastDelimiter SLASH f = 0" by (auto simp: LastDelimiter_none)
    with that [of "[]" "[]"] True plain show thesis
      by (simp add: MinimizeName_def ExtractFileName_def)
  next
    case (dir a b)
    then have l: "LastDelimiter SLASH f = Length a + 1" "Length a + 1 \<noteq> 0"
      using LastDelimiter_split [of Slash SLASH b a] Length_simps(4) [of a]
      by (auto simp del: Length_simps)
    show thesis
    proof (rule that [of "[]" "SubString f 1 (Length a + 1)"])
      show "MinimizeName f n u = rbind (minimize_loop u n (ExtractFileName f u) []
            (SubString f 1 (Length a + 1)) f)
          (\<lambda>result. Inr (if Length result > n then SubString result 1 n else result))"
        using True l by (simp add: MinimizeName_def ExtractFileName_def UnixExtractFileName_def Let_def
            del: SubString_prefix)
      assume "SubString f 1 (Length a + 1) = [] \<and> [] = ([] :: ustring)"
      then show "ExtractFileName f u = f" by (simp add: dir(1) nat_add_distrib)
    qed
  qed
next
  case False
  let ?d = "ExtractFilePath f"
  show thesis
  proof (cases "Length ?d \<ge> 2 \<and> char_at ?d 2 = Some (CHR '':'')")
    case True
    then show thesis using False
      by (intro that [of "SubString ?d 1 2" "Delete ?d 1 2"])
         (auto simp: MinimizeName_def Let_def Length_def)
  next
    case no: False
    then show thesis using False ExtractFilePath_Nil [of f]
      by (intro that [of "[]" ?d]) (auto simp: MinimizeName_def Let_def)
  qed
qed

section \<open>Correctness of the path functions\<close>



text \<open>C9: \<open>UnixExtractCommonPath\<close> always returns for a non-empty list of files, and the path it
  returns is the greatest directory (a string that ends with a slash) that is a prefix of the path
  of every file, or empty when there is none.\<close>

theorem UnixExtractCommonPath_greatest:
  "\<exists>r p. UnixExtractCommonPath (f # fs) = Inr (r, p) \<and> terminated p \<and>
     (\<forall>g \<in> set (f # fs). prefix p (GetFileListItemPath g)) \<and>
     (\<forall>q. q \<noteq> [] \<and> last q = Slash \<and> (\<forall>g \<in> set (f # fs). prefix q (GetFileListItemPath g))
        \<longrightarrow> prefix q p)"
proof -
  let ?p = "UnixExtractFilePath (GetFileListItemPath f)"
  have t: "terminated ?p" using UnixExtractFilePath_terminated by (simp add: terminated_def)
  obtain p' r' where l: "unix_common_loop fs (?p, ?p \<noteq> []) = (p', r')" by fastforce
  note sp = unix_common_loop_spec [OF t l]
  have g: "prefix q ?p" if "prefix q (GetFileListItemPath f)" "q \<noteq> []" "last q = Slash" for q
    using UnixExtractFilePath_greatest that by blast
  show ?thesis
  proof (cases "?p = []")
    case True
    then show ?thesis using g t by auto
  next
    case False
    with l have "UnixExtractCommonPath (f # fs) = Inr (r', p')" by simp
    moreover have "prefix p' (GetFileListItemPath f)"
      using sp UnixExtractFilePath_prefix prefix_order.trans by blast
    ultimately show ?thesis using sp g by auto
  qed
qed

theorem UnixExtractCommonPath_greatest_witness:
  "\<exists>r p. UnixExtractCommonPath [(''/srv/www/a.txt'', None), (''b'', Some ''/srv/ftp/b'')] = Inr (r, p) \<and>
     prefix ''/srv/'' p"
  using UnixExtractCommonPath_greatest
    [of "(''/srv/www/a.txt'', None)" "[(''b'', Some ''/srv/ftp/b'')]"]
  by (force simp: GetFileListItemPath_def)

text \<open>C12: \<open>MinimizeName\<close> terminates without throwing for every file name, separator style and
  limit. Its result fits into the limit, is the name itself when that already fits, and still ends
  with the whole file name whenever the file name alone fits.\<close>

theorem MinimizeName_fits:
  "\<exists>r. MinimizeName f n u = Inr r \<and> Length r \<le> max 0 n \<and> (Length f \<le> n \<longrightarrow> r = f) \<and>
     (Length (ExtractFileName f u) \<le> n \<longrightarrow> suffix (ExtractFileName f u) r)"
proof -
  obtain drive dir where m: "MinimizeName f n u =
      rbind (minimize_loop u n (ExtractFileName f u) drive dir f)
       (\<lambda>result. Inr (if Length result > n then SubString result 1 n else result))"
    and d: "dir = [] \<and> drive = [] \<Longrightarrow> ExtractFileName f u = f"
    using MinimizeName_start by blast
  obtain r where r: "minimize_loop u n (ExtractFileName f u) drive dir f = Inr r"
    "suffix (ExtractFileName f u) r" "Length f \<le> n \<longrightarrow> r = f"
    "Length r > n \<longrightarrow> r = f \<and> dir = [] \<and> drive = [] \<or> r = ExtractFileName f u"
    using minimize_loop_spec [OF suffix_ExtractFileName] by blast
  show ?thesis
  proof (cases "Length r > n")
    case True
    with r d have "r = ExtractFileName f u" by auto
    with m r True show ?thesis by (auto simp: Length_def)
  next
    case False
    with m r show ?thesis by auto
  qed
qed

theorem MinimizeName_fits_witness:
  "\<exists>r. MinimizeName ''/home/user/pub/readme.txt'' 16 True = Inr r \<and> Length r \<le> 16 \<and>
     suffix ''readme.txt'' r"
proof -
  have "ExtractFileName ''/home/user/pub/readme.txt'' True = ''readme.txt''"
    by (simp add: ExtractFileName_def UnixExtractFileName_def LastDelimiter_def IsDelimiter_def
        char_at_def Length_def SubString_conv Let_def)
  with MinimizeName_fits [of "''/home/user/pub/readme.txt''" 16 True] show ?thesis
    by (auto simp: Length_def)
qed



text \<open>C14: Splitting a remote path into directory and name loses nothing, and joining a directory
  with a name that has no slash is undone by the splitting functions.\<close>

theorem unix_path_split_join:
  "UnixExtractFilePath p @ UnixExtractFileName p = p \<and> Slash \<notin> set (UnixExtractFileName p) \<and>
   (Slash \<notin> set n \<and> d \<noteq> [] \<longrightarrow>
      UnixExtractFileName (UnixCombinePaths d n) = n \<and>
      UnixExtractFilePath (UnixCombinePaths d n) = UnixIncludeTrailingBackslash d \<and>
      (\<not> suffix ''//'' d \<longrightarrow> UnixSamePath (UnixExtractFileDir (UnixCombinePaths d n)) d))"
proof -
  have "UnixExtractFilePath p @ UnixExtractFileName p = p \<and> Slash \<notin> set (UnixExtractFileName p)"
    by (cases rule: unix_split_cases [of p]) auto
  moreover have "UnixExtractFileName (UnixCombinePaths d n) = n \<and>
      UnixExtractFilePath (UnixCombinePaths d n) = UnixIncludeTrailingBackslash d \<and>
      (\<not> suffix ''//'' d \<longrightarrow> UnixSamePath (UnixExtractFileDir (UnixCombinePaths d n)) d)"
    if n: "Slash \<notin> set n" and d: "d \<noteq> []"
  proof -
    define e where "e = (if last d = Slash then butlast d else d)"
    have inc: "UnixIncludeTrailingBackslash d = e @ [Slash]"
      using d by (cases d rule: rev_cases) (auto simp: UnixInclude_conv e_def)
    then have j: "UnixCombinePaths d n = e @ [Slash] @ n"
      by (simp add: UnixCombinePaths_def UnixPath_Join_def)
    show ?thesis
    proof (cases rule: unix_split_cases [of "UnixCombinePaths d n"])
      case plain
      with j show ?thesis by simp
    next
      case (dir a b)
      with j n have "a = e" "b = n"
        using last_split_unique [of a Slash b e n] by simp_all
      moreover have "last e \<noteq> Slash" if "\<not> suffix ''//'' d" "e \<noteq> []"
        using that d by (cases e rule: rev_cases; cases d rule: rev_cases)
          (auto simp: e_def suffix_def split: if_splits)
      ultimately show ?thesis
        using dir inc by (auto simp: UnixSamePath_def) (auto simp: UnixInclude_conv)
    qed
  qed
  ultimately show ?thesis by blast
qed

theorem unix_path_split_join_witness:
  "UnixExtractFileName (UnixCombinePaths ''/srv'' ''f'') = ''f'' \<and>
   UnixExtractFilePath (UnixCombinePaths ''/srv'' ''f'') = ''/srv/''"
  using unix_path_split_join [of "''f''" "''f''" "''/srv''"] by (simp add: UnixInclude_conv)

text \<open>A relative path that starts with \<open>..\<close> resolved against the root loses everything after
  the \<open>..\<close>: the special case meant to turn \<open>/../\<close> into \<open>/\<close> replaces the whole path.\<close>

lemma AbsolutePath_above_root: "AbsolutePath ROOTDIRECTORY (''../'' @ rest) = ROOTDIRECTORY"
proof -
  obtain t where t: "UnixIncludeTrailingBackslash (UnixPath_Join ROOTDIRECTORY (''../'' @ rest)) = ''/../'' @ t"
    by (rule that [of "if rest = [] \<or> last rest = Slash then rest else rest @ SLASH"])
       (simp add: UnixPath_Join_def UnixInclude_conv)
  have p: "Pos_str (''/../'' @ t) ''/../'' = 1" by (simp add: Pos_str_def Find_str_def)
  have z: "Pos_str ROOTDIRECTORY ''/../'' = 0" "Pos_str ROOTDIRECTORY ''/./'' = 0"
    by (simp_all add: Pos_str_def Find_str_def)
  have "remove_parents (''/../'' @ t) = ROOTDIRECTORY"
    using p z by (subst remove_parents.simps) (simp add: remove_parents.simps [of ROOTDIRECTORY])
  moreover have "remove_this ROOTDIRECTORY = ROOTDIRECTORY"
    using z by (simp add: remove_this.simps [of ROOTDIRECTORY])
  ultimately show ?thesis
    using t by (simp add: AbsolutePath_def UnixExcludeTrailingBackslash_def)
qed

text \<open>\<open>UnixExtractFileExt\<close> applies the position of the dot in the file name to the whole path:
  for a file in a directory the result is never the extension, but the path with as many leading
  characters removed as the base name has.\<close>

lemma UnixExtractFileExt_of_file_in_directory:
  assumes "Slash \<notin> set a" "Slash \<notin> set e" "CHR ''.'' \<notin> set e"
  shows "UnixExtractFileExt (d @ ''/'' @ a @ ''.'' @ e) = drop (length a) (d @ ''/'' @ a @ ''.'' @ e) \<and>
         UnixExtractFileExt (d @ ''/'' @ a @ ''.'' @ e) \<noteq> ''.'' @ e"
proof -
  let ?p = "d @ ''/'' @ a @ ''.'' @ e"
  have "UnixExtractFileName ?p = a @ ''.'' @ e"
    using LastDelimiter_split [of Slash SLASH "a @ ''.'' @ e" d] assms
    by (simp add: UnixExtractFileName_def Let_def ustring_simps Length_def nat_add_distrib)
  moreover have "LastDelimiter ''.'' (a @ ''.'' @ e) = Length a + 1"
    using LastDelimiter_split [of "CHR ''.''" "''.''" e a] assms by simp
  ultimately have "UnixExtractFileExt ?p = drop (length a) ?p"
    by (simp add: UnixExtractFileExt_def Let_def ustring_simps Length_def nat_add_distrib)
  moreover have "length (drop (length a) ?p) \<noteq> length (''.'' @ e)" by simp
  ultimately show ?thesis by metis
qed

lemma UnixExtractFileExt_of_file_in_directory_witness:
  "UnixExtractFileExt ''/pub/a.txt'' = ''pub/a.txt''"
  using UnixExtractFileExt_of_file_in_directory [of "''a''" "''txt''" "''/pub''"] by simp

end
