(* ===== verification/RemoteToken.thy ===== *)
theory RemoteToken
  imports UString
begin

text \<open>
  Owners and groups of remote files: the classes \<open>TRemoteToken\<close> and \<open>TRemoteTokenList\<close> of
  \<open>src/core/RemoteFiles.cpp\<close>. A token has a name, an ID, or both; a list of tokens is indexed by
  both. The case insensitive comparison of two names is a service of the operating system and a
  parameter of \<open>Compare\<close>.
\<close>

section \<open>Tokens\<close>

record TRemoteToken =
  FName :: ustring
  FID :: int
  FIDValid :: bool

definition new_TRemoteToken :: TRemoteToken where
  "new_TRemoteToken = \<lparr>FName = [], FID = 0, FIDValid = False\<rparr>"

definition new_TRemoteToken_name :: "ustring \<Rightarrow> TRemoteToken" where
  "new_TRemoteToken_name name = \<lparr>FName = name, FID = 0, FIDValid = False\<rparr>"

definition Token_Clear :: "TRemoteToken \<Rightarrow> TRemoteToken" where
  "Token_Clear t = t\<lparr>FID := 0, FIDValid := False\<rparr>"

definition token_eq :: "TRemoteToken \<Rightarrow> TRemoteToken \<Rightarrow> bool" where
  "token_eq t rhs \<longleftrightarrow>
     FName t = FName rhs \<and> FIDValid t = FIDValid rhs \<and> (\<not> FIDValid t \<or> FID t = FID rhs)"

definition Compare :: "(ustring \<Rightarrow> ustring \<Rightarrow> int) \<Rightarrow> TRemoteToken \<Rightarrow> TRemoteToken \<Rightarrow> int" where
  "Compare AnsiCompareText t rhs =
     (if FName t \<noteq> [] then
        (if FName rhs \<noteq> [] then AnsiCompareText (FName t) (FName rhs) else -1)
      else if FName rhs \<noteq> [] then 1
      else if FIDValid t then
        (if FIDValid rhs then (if FID t < FID rhs then -1 else if FID t > FID rhs then 1 else 0) else -1)
      else if FIDValid rhs then 1 else 0)"

definition SetID :: "int \<Rightarrow> TRemoteToken \<Rightarrow> TRemoteToken" where
  "SetID v t = t\<lparr>FID := v, FIDValid := True\<rparr>"

definition SetName :: "ustring \<Rightarrow> TRemoteToken \<Rightarrow> TRemoteToken" where
  "SetName v t = t\<lparr>FName := v\<rparr>"

definition GetNameValid :: "TRemoteToken \<Rightarrow> bool" where
  "GetNameValid t \<longleftrightarrow> FName t \<noteq> []"

definition GetIsSet :: "TRemoteToken \<Rightarrow> bool" where
  "GetIsSet t \<longleftrightarrow> FName t \<noteq> [] \<or> FIDValid t"

text \<open>\<open>IntToStr\<close> of the platform is the decimal rendering, a parameter here.\<close>

definition GetDisplayText :: "(int \<Rightarrow> ustring) \<Rightarrow> TRemoteToken \<Rightarrow> ustring" where
  "GetDisplayText IntToStr t =
     (if FName t \<noteq> [] then FName t else if FIDValid t then IntToStr (FID t) else [])"

section \<open>Lists of tokens\<close>

text \<open>\<open>std::map::insert\<close> leaves an entry that is already there.\<close>

definition map_insert :: "'k \<Rightarrow> 'v \<Rightarrow> ('k \<rightharpoonup> 'v) \<Rightarrow> ('k \<rightharpoonup> 'v)" where
  "map_insert k v m = (if m k = None then m(k \<mapsto> v) else m)"

record TRemoteTokenList =
  FTokens :: "TRemoteToken list"
  FNameMap :: "ustring \<rightharpoonup> nat"
  FIDMap :: "int \<rightharpoonup> nat"

definition TokenList_Clear :: "TRemoteTokenList \<Rightarrow> TRemoteTokenList" where
  "TokenList_Clear l = l\<lparr>FTokens := [], FNameMap := Map.empty, FIDMap := Map.empty\<rparr>"

definition new_TRemoteTokenList :: TRemoteTokenList where
  "new_TRemoteTokenList = \<lparr>FTokens = [], FNameMap = Map.empty, FIDMap = Map.empty\<rparr>"

definition TokenList_Add :: "TRemoteToken \<Rightarrow> TRemoteTokenList \<Rightarrow> TRemoteTokenList" where
  "TokenList_Add t l =
     (let l = l\<lparr>FTokens := FTokens l @ [t]\<rparr>;
          l = (if FIDValid t then l\<lparr>FIDMap := map_insert (FID t) (length (FTokens l) - 1) (FIDMap l)\<rparr> else l)
      in if GetNameValid t then l\<lparr>FNameMap := map_insert (FName t) (length (FTokens l) - 1) (FNameMap l)\<rparr>
         else l)"

definition AddUnique :: "TRemoteToken \<Rightarrow> TRemoteTokenList \<Rightarrow> TRemoteTokenList" where
  "AddUnique t l =
     (if FIDValid t then (if FIDMap l (FID t) \<noteq> None then l else TokenList_Add t l)
      else if GetNameValid t then (if FNameMap l (FName t) \<noteq> None then l else TokenList_Add t l)
      else l)"

definition Exists :: "ustring \<Rightarrow> TRemoteTokenList \<Rightarrow> bool" where
  "Exists name l \<longleftrightarrow> FNameMap l name \<noteq> None"

definition Find_id :: "int \<Rightarrow> TRemoteTokenList \<Rightarrow> TRemoteToken option" where
  "Find_id i l = map_option (\<lambda>k. FTokens l ! k) (FIDMap l i)"

definition Find_name :: "ustring \<Rightarrow> TRemoteTokenList \<Rightarrow> TRemoteToken option" where
  "Find_name name l = map_option (\<lambda>k. FTokens l ! k) (FNameMap l name)"

definition GetCount :: "TRemoteTokenList \<Rightarrow> int" where
  "GetCount l = int (length (FTokens l))"

definition Token_at :: "int \<Rightarrow> TRemoteTokenList \<Rightarrow> TRemoteToken" where
  "Token_at i l = FTokens l ! nat i"

definition Duplicate :: "TRemoteTokenList \<Rightarrow> TRemoteTokenList" where
  "Duplicate l = fold TokenList_Add (FTokens l) new_TRemoteTokenList"

section \<open>The indexes\<close>

text \<open>
  An index of a list of tokens finds the first token with a key. The two indexes of the class are
  instances of one contract.
\<close>

locale token_index =
  fixes key :: "TRemoteToken \<Rightarrow> 'k" and has_key :: "TRemoteToken \<Rightarrow> bool"
    and idx :: "TRemoteTokenList \<Rightarrow> 'k \<rightharpoonup> nat"
  assumes idx_new: "idx new_TRemoteTokenList = Map.empty"
    and idx_add: "idx (TokenList_Add t l) =
      (if has_key t then map_insert (key t) (length (FTokens l)) (idx l) else idx l)"
begin

definition first_index :: "TRemoteTokenList \<Rightarrow> bool" where
  "first_index l \<longleftrightarrow> (\<forall>k. map_option (\<lambda>i. FTokens l ! i) (idx l k) = find (\<lambda>t. has_key t \<and> key t = k) (FTokens l) \<and>
     (\<forall>i. idx l k = Some i \<longrightarrow> i < length (FTokens l)))"

lemma tokens_add [simp]: "FTokens (TokenList_Add t l) = FTokens l @ [t]"
  by (simp add: TokenList_Add_def Let_def)

lemma find_append:
  "find P (xs @ ys) = (case find P xs of None \<Rightarrow> find P ys | Some x \<Rightarrow> Some x)"
  by (induction xs) auto

lemma first_index_new: "first_index new_TRemoteTokenList"
  by (simp add: first_index_def idx_new) (simp add: new_TRemoteTokenList_def)

lemma first_index_add:
  assumes "first_index l"
  shows "first_index (TokenList_Add t l)"
  unfolding first_index_def
proof (intro allI conjI impI)
  fix k
  let ?P = "\<lambda>k t. has_key t \<and> key t = k"
  have f: "map_option (\<lambda>i. FTokens l ! i) (idx l k) = find (?P k) (FTokens l)"
    and b: "\<And>i. idx l k = Some i \<Longrightarrow> i < length (FTokens l)"
    using assms unfolding first_index_def by blast+
  show "map_option (\<lambda>i. FTokens (TokenList_Add t l) ! i) (idx (TokenList_Add t l) k) =
      find (?P k) (FTokens (TokenList_Add t l))"
  proof (cases "idx l k")
    case None
    then have "find (?P k) (FTokens l) = None" using f by simp
    then show ?thesis using None by (auto simp: idx_add map_insert_def find_append)
  next
    case (Some i)
    then have "find (?P k) (FTokens l) = Some (FTokens l ! i)" "i < length (FTokens l)" using f b by auto
    then show ?thesis using Some by (cases "k = key t") (simp_all add: idx_add map_insert_def find_append nth_append)
  qed
  show "i < length (FTokens (TokenList_Add t l))" if "idx (TokenList_Add t l) k = Some i" for i
    using that b by (auto simp: idx_add map_insert_def less_Suc_eq split: if_splits)
qed

lemma first_index_fold: "first_index l \<Longrightarrow> first_index (fold TokenList_Add ts l)"
  by (induction ts arbitrary: l) (simp_all add: first_index_add)

lemma first_index_lookup:
  "first_index l \<Longrightarrow>
    map_option (\<lambda>i. FTokens l ! i) (idx l k) = find (\<lambda>t. has_key t \<and> key t = k) (FTokens l)"
  by (simp add: first_index_def)

lemma first_index_None:
  "first_index l \<Longrightarrow> idx l k = None \<longleftrightarrow> (\<forall>t \<in> set (FTokens l). \<not> (has_key t \<and> key t = k))"
proof -
  assume "first_index l"
  then have "idx l k = None \<longleftrightarrow> find (\<lambda>t. has_key t \<and> key t = k) (FTokens l) = None"
    by (simp flip: first_index_lookup)
  then show ?thesis by (auto simp: find_None_iff)
qed

lemma first_index_keep:
  assumes "first_index l" "map_option (\<lambda>i. FTokens l ! i) (idx l k) = Some tok"
  shows "map_option (\<lambda>i. FTokens (TokenList_Add t l) ! i) (idx (TokenList_Add t l) k) = Some tok"
  using assms(2) unfolding first_index_lookup [OF assms(1)]
    first_index_lookup [OF first_index_add [OF assms(1)]] by (simp add: find_append)

end

interpretation by_id: token_index FID FIDValid FIDMap
  by unfold_locales (simp_all add: new_TRemoteTokenList_def TokenList_Add_def Let_def)

interpretation by_name: token_index FName GetNameValid FNameMap
  by unfold_locales (simp_all add: new_TRemoteTokenList_def TokenList_Add_def Let_def)

definition tokens_ok :: "TRemoteTokenList \<Rightarrow> bool" where
  "tokens_ok l \<longleftrightarrow> by_id.first_index l \<and> by_name.first_index l"

lemma tokens_ok_new: "tokens_ok new_TRemoteTokenList"
  by (simp add: tokens_ok_def by_id.first_index_new by_name.first_index_new)

lemma tokens_ok_Add: "tokens_ok l \<Longrightarrow> tokens_ok (TokenList_Add t l)"
  by (simp add: tokens_ok_def by_id.first_index_add by_name.first_index_add)

lemma tokens_ok_AddUnique: "tokens_ok l \<Longrightarrow> tokens_ok (AddUnique t l)"
  by (simp add: AddUnique_def tokens_ok_Add)

lemma tokens_ok_fold_AddUnique: "tokens_ok l \<Longrightarrow> tokens_ok (fold AddUnique ts l)"
  by (induction ts arbitrary: l) (simp_all add: tokens_ok_AddUnique)

section \<open>Properties\<close>





end
