(* ===== verification/Rights.thy ===== *)
theory Rights
  imports UString
begin

text \<open>
  File permissions: class \<open>TRights\<close> of src/src/core/RemoteFiles.h and
  src/src/core/RemoteFiles.cpp. Every permission bit is set, unset or undefined; the two words
  \<open>FSet\<close> and \<open>FUnset\<close> hold the bits that are set and those that are unset.
\<close>

unbundle bit_operations_syntax


section \<open>State and enumerations\<close>

record TRights =
  FText :: ustring
  FSet :: u16
  FUnset :: u16
  FAllowUndef :: bool
  FUnknown :: bool

datatype TRight =
    rrUserIDExec | rrGroupIDExec | rrStickyBit
  | rrUserRead | rrUserWrite | rrUserExec
  | rrGroupRead | rrGroupWrite | rrGroupExec
  | rrOtherRead | rrOtherWrite | rrOtherExec

datatype TState = rsNo | rsYes | rsUndef

datatype TRightLevel = rlNone | rlRead | rlWrite | rlExec | rlSpecial

datatype TRightGroup = rgUser | rgGroup | rgOther

text \<open>The enumerations in the order of their ordinals.\<close>

definition all_rights :: "TRight list" where
  "all_rights = [rrUserIDExec, rrGroupIDExec, rrStickyBit, rrUserRead, rrUserWrite, rrUserExec,
     rrGroupRead, rrGroupWrite, rrGroupExec, rrOtherRead, rrOtherWrite, rrOtherExec]"

primrec right_ord :: "TRight \<Rightarrow> nat" where
  "right_ord rrUserIDExec = 0" | "right_ord rrGroupIDExec = 1" | "right_ord rrStickyBit = 2"
| "right_ord rrUserRead = 3" | "right_ord rrUserWrite = 4" | "right_ord rrUserExec = 5"
| "right_ord rrGroupRead = 6" | "right_ord rrGroupWrite = 7" | "right_ord rrGroupExec = 8"
| "right_ord rrOtherRead = 9" | "right_ord rrOtherWrite = 10" | "right_ord rrOtherExec = 11"

primrec level_ord :: "TRightLevel \<Rightarrow> int" where
  "level_ord rlNone = -1" | "level_ord rlRead = 0" | "level_ord rlWrite = 1"
| "level_ord rlExec = 2" | "level_ord rlSpecial = 3"

primrec group_ord :: "TRightGroup \<Rightarrow> int" where
  "group_ord rgUser = 0" | "group_ord rgGroup = 1" | "group_ord rgOther = 2"

abbreviation rfAllSpecials :: u16 where "rfAllSpecials \<equiv> 4095"
abbreviation UndefSymbol :: char where "UndefSymbol \<equiv> CHR ''$''"
abbreviation UnsetSymbol :: char where "UnsetSymbol \<equiv> CHR ''-''"
abbreviation UnsetSymbolWin :: char where "UnsetSymbolWin \<equiv> CHR ''*''"
abbreviation BasicSymbols :: ustring where "BasicSymbols \<equiv> ''rwxrwxrwx''"
abbreviation CombinedSymbols :: ustring where "CombinedSymbols \<equiv> ''--s--s--t''"
abbreviation ExtendedSymbols :: ustring where "ExtendedSymbols \<equiv> ''--S--S--T''"
abbreviation ModeGroups :: ustring where "ModeGroups \<equiv> ''ugo''"
abbreviation TextLen :: nat where "TextLen \<equiv> 9"

section \<open>Bits of the permissions\<close>

definition CalculateRight :: "TRightGroup \<Rightarrow> TRightLevel \<Rightarrow> int" where
  "CalculateRight grp lvl =
     (if lvl = rlSpecial then int (right_ord rrUserIDExec) + group_ord grp
      else int (right_ord rrUserRead) + level_ord lvl + group_ord grp * 3)"

definition flag_of_ord :: "int \<Rightarrow> u16" where
  "flag_of_ord n = push_bit (nat (int (right_ord rrOtherExec) - n)) 1"

definition RightToFlag :: "TRight \<Rightarrow> u16" where
  "RightToFlag right = flag_of_ord (int (right_ord right))"

definition CalculateFlag :: "TRightGroup \<Rightarrow> TRightLevel \<Rightarrow> u16" where
  "CalculateFlag grp lvl = flag_of_ord (CalculateRight grp lvl)"

definition CalculatePermissions ::
  "TRightGroup \<Rightarrow> TRightLevel \<Rightarrow> TRightLevel \<Rightarrow> TRightLevel \<Rightarrow> u16" where
  "CalculatePermissions grp lvl lvl2 lvl3 =
     (let permissions = CalculateFlag grp lvl;
          permissions = (if lvl2 \<noteq> rlNone then permissions OR CalculateFlag grp lvl2 else permissions)
      in if lvl3 \<noteq> rlNone then permissions OR CalculateFlag grp lvl3 else permissions)"

definition GetRightUndef :: "TRights \<Rightarrow> TRight \<Rightarrow> TState" where
  "GetRightUndef r right =
     (let flag = RightToFlag right
      in if FSet r AND flag \<noteq> 0 then rsYes
         else if FUnset r AND flag \<noteq> 0 then rsNo else rsUndef)"

definition SetRightUndef :: "TRight \<Rightarrow> TState \<Rightarrow> TRights \<Rightarrow> TRights" where
  "SetRightUndef right v r =
     (let r = (if v \<noteq> GetRightUndef r right then
                 (let flag = RightToFlag right
                  in (case v of
                        rsYes \<Rightarrow> r\<lparr>FSet := FSet r OR flag, FUnset := FUnset r AND NOT flag, FText := []\<rparr>
                      | rsNo \<Rightarrow> r\<lparr>FSet := FSet r AND NOT flag, FUnset := FUnset r OR flag, FText := []\<rparr>
                      | rsUndef \<Rightarrow>
                          r\<lparr>FSet := FSet r AND NOT flag, FUnset := FUnset r AND NOT flag, FText := []\<rparr>))
               else r)
      in r\<lparr>FUnknown := False\<rparr>)"

definition GetRight :: "TRights \<Rightarrow> TRight \<Rightarrow> bool" where
  "GetRight r right = (GetRightUndef r right = rsYes)"

definition SetRight :: "TRight \<Rightarrow> bool \<Rightarrow> TRights \<Rightarrow> TRights" where
  "SetRight right v r = SetRightUndef right (if v then rsYes else rsNo) r"

definition GetIsUndef :: "TRights \<Rightarrow> bool" where
  "GetIsUndef r \<longleftrightarrow> FSet r OR FUnset r \<noteq> rfAllSpecials"

definition SetNumber :: "u16 \<Rightarrow> TRights \<Rightarrow> TRights" where
  "SetNumber v r =
     (let r = (if FSet r \<noteq> v \<or> FSet r OR FUnset r \<noteq> rfAllSpecials then
                 r\<lparr>FSet := v, FUnset := rfAllSpecials AND NOT v, FText := []\<rparr> else r)
      in r\<lparr>FUnknown := False\<rparr>)"

definition GetNumber :: "TRights \<Rightarrow> u16" where
  "GetNumber r = FSet r"

text \<open>Members before the constructor body runs, and the constructors.\<close>

definition TRights_members :: TRights where
  "TRights_members = \<lparr>FText = [], FSet = 0, FUnset = 0, FAllowUndef = False, FUnknown = True\<rparr>"

definition new_TRights :: TRights where
  "new_TRights = (SetNumber 0 TRights_members)\<lparr>FAllowUndef := False\<rparr>"

definition new_TRights_number :: "u16 \<Rightarrow> TRights" where
  "new_TRights_number n = (SetNumber n TRights_members)\<lparr>FAllowUndef := False\<rparr>"

definition Assign :: "TRights \<Rightarrow> TRights \<Rightarrow> TRights" where
  "Assign source r =
     r\<lparr>FAllowUndef := FAllowUndef source, FSet := FSet source, FUnset := FUnset source,
       FText := FText source, FUnknown := FUnknown source\<rparr>"

definition SetAllowUndef :: "bool \<Rightarrow> TRights \<Rightarrow> TRights" where
  "SetAllowUndef v r = (if FAllowUndef r \<noteq> v then r\<lparr>FAllowUndef := v\<rparr> else r)"

definition AllUndef :: "TRights \<Rightarrow> TRights" where
  "AllUndef r =
     (let r = (if FSet r \<noteq> 0 \<or> FUnset r \<noteq> 0 then r\<lparr>FSet := 0, FUnset := 0, FText := []\<rparr> else r)
      in r\<lparr>FUnknown := False\<rparr>)"

definition SetReadOnly :: "bool \<Rightarrow> TRights \<Rightarrow> TRights" where
  "SetReadOnly v r =
     SetRight rrOtherWrite (\<not> v) (SetRight rrGroupWrite (\<not> v) (SetRight rrUserWrite (\<not> v) r))"

definition GetReadOnly :: "TRights \<Rightarrow> bool" where
  "GetReadOnly r \<longleftrightarrow> GetRight r rrUserWrite \<and> GetRight r rrGroupWrite \<and> GetRight r rrOtherWrite"

text \<open>One group of \<open>AddExecute\<close>: its read, write and execute right.\<close>

definition add_execute_group :: "TRight \<Rightarrow> TRight \<Rightarrow> TRight \<Rightarrow> TRights \<Rightarrow> TRights" where
  "add_execute_group rd wr ex r =
     (if GetRightUndef r rd = rsYes \<or> GetRightUndef r wr = rsYes
      then (SetRight ex True r)\<lparr>FText := []\<rparr> else r)"

definition AddExecute :: "TRights \<Rightarrow> TRights" where
  "AddExecute r =
     (add_execute_group rrOtherRead rrOtherWrite rrOtherExec
       (add_execute_group rrGroupRead rrGroupWrite rrGroupExec
         (add_execute_group rrUserRead rrUserWrite rrUserExec r)))\<lparr>FUnknown := False\<rparr>"

section \<open>Operators\<close>

definition rights_eq :: "TRights \<Rightarrow> TRights \<Rightarrow> bool" where
  "rights_eq l r \<longleftrightarrow>
     (if FAllowUndef l \<or> FAllowUndef r
      then list_all (\<lambda>right. GetRightUndef l right = GetRightUndef r right) all_rights
      else GetNumber l = GetNumber r)"

definition rights_and_number :: "u16 \<Rightarrow> TRights \<Rightarrow> TRights" where
  "rights_and_number n l = SetNumber (GetNumber l AND n) l"

definition rights_or_number :: "u16 \<Rightarrow> TRights \<Rightarrow> TRights" where
  "rights_or_number n l = SetNumber (GetNumber l OR n) l"

definition rights_and :: "TRights \<Rightarrow> TRights \<Rightarrow> TRights" where
  "rights_and rhs l =
     (if FAllowUndef l \<or> FAllowUndef rhs then
        fold (\<lambda>right l. if GetRightUndef l right \<noteq> GetRightUndef rhs right
                         then SetRightUndef right rsUndef l else l) all_rights l
      else SetNumber (GetNumber l AND GetNumber rhs) l)"

definition rights_or :: "TRights \<Rightarrow> TRights \<Rightarrow> TRights" where
  "rights_or rhs l = SetNumber (GetNumber l OR GetNumber rhs) l"

definition rights_complement :: "TRights \<Rightarrow> TRights" where
  "rights_complement r = new_TRights_number (NOT (GetNumber r))"

definition Combine :: "TRights \<Rightarrow> TRights \<Rightarrow> TRights" where
  "Combine other r = rights_and_number (NOT (FUnset other)) (rights_or_number (FSet other) r)"

section \<open>Textual forms\<close>

text \<open>
  The loop of \<open>SetText\<close> runs over the indices 9 to 1; \<open>n\<close> counts the remaining ones, so the index is
  \<open>Suc n\<close>. The flags are powers of two below \<open>2 ^ 13\<close> and never leave the 16 bits.
\<close>

primrec set_text_loop :: "ustring \<Rightarrow> nat \<Rightarrow> u16 \<Rightarrow> u16 \<Rightarrow> u16 \<Rightarrow> u16 \<Rightarrow> bool \<Rightarrow> u16 \<times> u16 \<times> bool" where
  "set_text_loop v 0 flag ext fset funset keepText = (fset, funset, keepText)"
| "set_text_loop v (Suc n) flag ext fset funset keepText =
     (let c = v ! n;
          (fset, funset, keepText) =
            (if c = UnsetSymbol \<or> c = UnsetSymbolWin then (fset, funset OR (flag OR ext), keepText)
             else if c = UndefSymbol then (fset, funset, keepText)
             else if c = CombinedSymbols ! n then (fset OR (flag OR ext), funset, keepText)
             else if c = ExtendedSymbols ! n then (fset OR ext, funset OR flag, keepText)
             else (fset OR flag, (if Suc n mod 3 = 0 then funset OR ext else funset),
                   keepText \<or> c \<noteq> BasicSymbols ! n))
      in set_text_loop v n (push_bit 1 flag) (if Suc n mod 3 = 1 then push_bit 1 ext else ext)
           fset funset keepText)"

text \<open>The loop of \<open>GetText\<close>, over the same indices, producing the symbols from the end.\<close>

primrec get_text_loop :: "TRights \<Rightarrow> nat \<Rightarrow> u16 \<Rightarrow> u16 \<Rightarrow> bool \<Rightarrow> ustring \<Rightarrow> ustring" where
  "get_text_loop r 0 flag ext extPos acc = acc"
| "get_text_loop r (Suc n) flag ext extPos acc =
     (let symbol =
        (if extPos \<and> FSet r AND (flag OR ext) = flag OR ext then CombinedSymbols ! n
         else if FSet r AND flag \<noteq> 0 then BasicSymbols ! n
         else if extPos \<and> FSet r AND ext \<noteq> 0 then ExtendedSymbols ! n
         else if (\<not> extPos \<and> FUnset r AND flag = flag) \<or>
                 (extPos \<and> FUnset r AND (flag OR ext) = flag OR ext) then UnsetSymbol
         else UndefSymbol);
          extPos' = (n mod 3 = 0)
      in get_text_loop r n (push_bit 1 flag) (if extPos' then push_bit 1 ext else ext) extPos'
           (symbol # acc))"

definition GetText :: "TRights \<Rightarrow> ustring" where
  "GetText r = (if FText r \<noteq> [] then FText r else get_text_loop r TextLen 1 512 True [])"

definition SetText :: "ustring \<Rightarrow> TRights \<Rightarrow> TRights res" where
  "SetText v r =
     (if v \<noteq> GetText r then
        (if Length v \<noteq> int TextLen \<or> (\<not> FAllowUndef r \<and> Pos_char v UndefSymbol > 0) \<or>
            Pos_str v '' '' > 0
         then Inl ERightsFormat
         else (case set_text_loop v TextLen 1 512 0 0 False of (fset, funset, keepText) \<Rightarrow>
                 Inr (r\<lparr>FSet := fset, FUnset := funset, FText := (if keepText then v else []),
                        FUnknown := False\<rparr>)))
      else Inr (r\<lparr>FUnknown := False\<rparr>))"

definition SetTextOverride :: "ustring \<Rightarrow> TRights \<Rightarrow> TRights" where
  "SetTextOverride v r = (if FText r \<noteq> v then r\<lparr>FText := v, FUnknown := False\<rparr> else r)"

definition octal_digit :: "u16 \<Rightarrow> char" where
  "octal_digit d = char_of (48 + unat d)"

definition GetOctal :: "TRights \<Rightarrow> ustring" where
  "GetOctal r =
     (let n = FSet r
      in [octal_digit (drop_bit 9 (n AND 0xE00)), octal_digit (drop_bit 6 (n AND 0x1C0)),
          octal_digit (drop_bit 3 (n AND 0x38)), octal_digit (drop_bit 0 (n AND 7))])"

definition octal_value :: "char \<Rightarrow> u16" where
  "octal_value c = of_nat (of_char c) - 48"

definition SetOctal :: "ustring \<Rightarrow> TRights \<Rightarrow> TRights res" where
  "SetOctal aValue r =
     (let v = (if Length aValue = 3 then ''0'' @ aValue else aValue)
      in if GetOctal r \<noteq> v then
           (if Length v = 4 \<and> list_all (\<lambda>c. of_char c \<ge> (48 :: nat) \<and> of_char c \<le> (55 :: nat)) v then
              Inr ((SetNumber (push_bit 9 (octal_value (v ! 0)) + push_bit 6 (octal_value (v ! 1)) +
                      push_bit 3 (octal_value (v ! 2)) + octal_value (v ! 3)) r)
                     \<lparr>FText := [], FUnknown := False\<rparr>)
            else Inl ERightsFormat)
         else Inr (r\<lparr>FUnknown := False\<rparr>))"

definition GetNumberDecadic :: "TRights \<Rightarrow> nat" where
  "GetNumberDecadic r =
     (let n = FSet r
      in unat (n AND 0xE00) div 512 * 1000 + unat (n AND 0x1C0) div 64 * 100 +
         unat (n AND 0x38) div 8 * 10 + unat (n AND 7) div 1 * 1)"

text \<open>\<open>GetModeStr\<close>: the set and unset symbols of one group, its three rights and its special one.\<close>

definition mode_symbols :: "TRights \<Rightarrow> TState \<Rightarrow> (TRight \<times> char) list \<Rightarrow> ustring" where
  "mode_symbols r st rs = map snd (filter (\<lambda>(right, symbol). GetRightUndef r right = st) rs)"

definition group_rights :: "nat \<Rightarrow> (TRight \<times> char) list" where
  "group_rights grp =
     map (\<lambda>mode. (all_rights ! (3 + grp * 3 + mode), BasicSymbols ! (grp * 3 + mode))) [0, 1, 2] @
     [(all_rights ! grp, CombinedSymbols ! (grp * 3 + 2))]"

definition mode_group :: "TRights \<Rightarrow> nat \<Rightarrow> ustring \<Rightarrow> ustring" where
  "mode_group r grp result =
     (let setModeStr = mode_symbols r rsYes (group_rights grp);
          unsetModeStr = mode_symbols r rsNo (group_rights grp)
      in if setModeStr \<noteq> [] \<or> unsetModeStr \<noteq> [] then
           (if result \<noteq> [] then result @ '','' else result) @ [ModeGroups ! grp] @
           (if setModeStr \<noteq> [] then ''+'' @ setModeStr else []) @
           (if unsetModeStr \<noteq> [] then ''-'' @ unsetModeStr else [])
         else result)"

definition GetModeStr :: "TRights \<Rightarrow> ustring" where
  "GetModeStr r = mode_group r 2 (mode_group r 1 (mode_group r 0 []))"

definition GetChmodStr :: "int \<Rightarrow> TRights \<Rightarrow> ustring" where
  "GetChmodStr directory r =
     (if GetIsUndef r then GetModeStr r
      else if directory \<noteq> 0 then ''0'' @ GetOctal r else GetOctal r)"

section \<open>Reading and writing single rights\<close>

text \<open>
  What the operations on several rights rely on: writing one right is read back and leaves the
  others alone.
\<close>

locale right_store =
  fixes get :: "'s \<Rightarrow> 'k \<Rightarrow> 'v" and put :: "'k \<Rightarrow> 'v \<Rightarrow> 's \<Rightarrow> 's"
  assumes get_put: "get (put k v s) k' = (if k' = k then v else get s k')"
begin

lemma get_fold_put:
  "distinct ks \<Longrightarrow> get (fold (\<lambda>k. put k (f k)) ks s) k' = (if k' \<in> set ks then f k' else get s k')"
  by (induction ks arbitrary: s) (auto simp: get_put)

lemma get_fold_cond_put:
  assumes "distinct ks"
  shows "get (fold (\<lambda>k s. if P k (get s k) then put k v s else s) ks s) k' =
    (if k' \<in> set ks \<and> P k' (get s k') then v else get s k')"
  using assms
proof (induction ks arbitrary: s)
  case (Cons k ks)
  then show ?case by (cases "k' = k") (auto simp: get_put)
qed simp

end

definition fbit :: "TRight \<Rightarrow> nat" where
  "fbit right = 11 - right_ord right"

lemma RightToFlag_conv: "RightToFlag right = 2 ^ fbit right"
  by (cases right) (simp_all add: RightToFlag_def flag_of_ord_def fbit_def)

lemma fbit_inj [simp]: "fbit a = fbit b \<longleftrightarrow> a = b"
  by (cases a; cases b) (simp_all add: fbit_def)

lemma fbit_less [simp]: "fbit a < 12"
  by (cases a) (simp_all add: fbit_def)

lemma and_flag_eq_0 [simp]: "(w :: u16) AND 2 ^ k = 0 \<longleftrightarrow> \<not> bit w k"
  by (simp add: and_exp_eq_0_iff_not_bit)

lemma bit_flag: "bit (2 ^ k :: u16) n \<longleftrightarrow> n = k \<and> k < 16"
  by (auto simp: bit_exp_iff)

lemma GetRightUndef_conv:
  "GetRightUndef r right =
     (if bit (FSet r) (fbit right) then rsYes
      else if bit (FUnset r) (fbit right) then rsNo else rsUndef)"
  by (simp add: GetRightUndef_def RightToFlag_conv Let_def)

lemma bit_clear_flag: "bit ((w :: u16) AND NOT (2 ^ k)) n \<longleftrightarrow> bit w n \<and> n \<noteq> k"
proof (cases "n < 16")
  case True
  then show ?thesis by (auto simp: bit_simps)
next
  case False
  then have "\<not> bit w n" using bit_imp_le_length [of w n] by auto
  then show ?thesis by (simp add: bit_and_iff)
qed

lemma bit_set_flag: "bit ((w :: u16) OR 2 ^ k) n \<longleftrightarrow> bit w n \<or> (n = k \<and> k < 16)"
  by (simp add: bit_or_iff bit_flag)

lemma GetRightUndef_SetRightUndef:
  "GetRightUndef (SetRightUndef right v r) other = (if other = right then v else GetRightUndef r other)"
proof -
  have k: "fbit right < 16" using fbit_less [of right] by linarith
  show ?thesis
    using k by (cases v)
      (auto simp: SetRightUndef_def RightToFlag_conv GetRightUndef_conv bit_clear_flag bit_set_flag Let_def)
qed

interpretation rights: right_store GetRightUndef SetRightUndef
  by unfold_locales (rule GetRightUndef_SetRightUndef)

lemma GetRightUndef_FUnknown [simp]: "GetRightUndef (r\<lparr>FUnknown := u\<rparr>) right = GetRightUndef r right"
  by (simp add: GetRightUndef_conv)

lemma GetRightUndef_FText [simp]: "GetRightUndef (r\<lparr>FText := t\<rparr>) right = GetRightUndef r right"
  by (simp add: GetRightUndef_conv)

lemma distinct_all_rights: "distinct all_rights"
  by (simp add: all_rights_def)

lemma set_all_rights: "set all_rights = UNIV"
proof -
  have "x \<in> set all_rights" for x by (cases x) (simp_all add: all_rights_def)
  then show ?thesis by blast
qed

section \<open>The special bits and the textual form\<close>

definition text_unset :: "char \<Rightarrow> bool" where
  "text_unset c \<longleftrightarrow> c = UnsetSymbol \<or> c = UnsetSymbolWin"

definition text_ext :: "nat \<Rightarrow> char \<Rightarrow> bool" where
  "text_ext i c \<longleftrightarrow> \<not> text_unset c \<and> c \<noteq> UndefSymbol \<and>
     (c = CombinedSymbols ! i \<or> c = ExtendedSymbols ! i)"

definition text_set :: "nat \<Rightarrow> char \<Rightarrow> bool" where
  "text_set i c \<longleftrightarrow> \<not> text_unset c \<and> c \<noteq> UndefSymbol \<and>
     (c = CombinedSymbols ! i \<or> c \<noteq> ExtendedSymbols ! i)"

definition text_illegal :: "nat \<Rightarrow> char \<Rightarrow> bool" where
  "text_illegal i c \<longleftrightarrow> \<not> text_unset c \<and> c \<noteq> UndefSymbol \<and> c \<noteq> CombinedSymbols ! i \<and>
     c \<noteq> ExtendedSymbols ! i \<and> c \<noteq> BasicSymbols ! i"

definition unset_bit :: "nat \<Rightarrow> char \<Rightarrow> bool" where
  "unset_bit i c \<longleftrightarrow> text_unset c \<or>
     (c \<noteq> UndefSymbol \<and> c \<noteq> CombinedSymbols ! i \<and> c = ExtendedSymbols ! i)"

definition unset_ext :: "nat \<Rightarrow> char \<Rightarrow> bool" where
  "unset_ext i c \<longleftrightarrow> text_unset c \<or>
     (c \<noteq> UndefSymbol \<and> c \<noteq> CombinedSymbols ! i \<and> c \<noteq> ExtendedSymbols ! i \<and> Suc i mod 3 = 0)"

abbreviation ebit :: "nat \<Rightarrow> nat" where "ebit i \<equiv> 9 + (8 - i) div 3"

lemma ext_shift:
  "n \<le> 8 \<Longrightarrow> (if Suc n mod 3 = 1 then push_bit 1 (2 ^ ebit n :: u16) else 2 ^ ebit n) =
     2 ^ (9 + (9 - n) div 3)"
proof -
  assume "n \<le> 8"
  then consider "n = 0" | "n = 1" | "n = 2" | "n = 3" | "n = 4" | "n = 5" | "n = 6" | "n = 7" | "n = 8"
    by linarith
  then show ?thesis by cases simp_all
qed

lemma ex_less_Suc: "(\<exists>i<Suc n. P i) \<longleftrightarrow> P n \<or> (\<exists>i<n. P i)"
  by (auto simp: less_Suc_eq)

lemma set_text_step_bits:
  fixes fs fu f e :: u16
  assumes "(fs1, fu1, kt1) =
      (if U then (fs, fu OR (f OR e), kt)
       else if D then (fs, fu, kt)
       else if C then (fs OR (f OR e), fu, kt)
       else if E then (fs OR e, fu OR f, kt)
       else (fs OR f, (if M then fu OR e else fu), kt \<or> B))"
  shows "(bit fs1 b \<longleftrightarrow> bit fs b \<or> (bit f b \<and> \<not> U \<and> \<not> D \<and> (C \<or> \<not> E)) \<or>
            (bit e b \<and> \<not> U \<and> \<not> D \<and> (C \<or> E))) \<and>
    (bit fu1 b \<longleftrightarrow> bit fu b \<or> (bit f b \<and> (U \<or> \<not> D \<and> \<not> C \<and> E)) \<or>
            (bit e b \<and> (U \<or> \<not> D \<and> \<not> C \<and> \<not> E \<and> M))) \<and>
    (kt1 \<longleftrightarrow> kt \<or> (\<not> U \<and> \<not> D \<and> \<not> C \<and> \<not> E \<and> B))"
  by (cases U; cases D; cases C; cases E; cases M) (use assms in \<open>auto simp: bit_or_iff\<close>)

lemmas step_case_simps = text_set_def text_ext_def unset_bit_def unset_ext_def text_illegal_def text_unset_def

lemma set_text_loop_bits:
  assumes "n \<le> 9"
    and "set_text_loop v n (2 ^ (9 - n)) (2 ^ (9 + (9 - n) div 3)) fs fu kt = (fs', fu', kt')"
  shows "(bit fs' b \<longleftrightarrow> bit fs b \<or> (\<exists>i<n. b = 8 - i \<and> text_set i (v ! i)) \<or>
            (\<exists>i<n. b = ebit i \<and> text_ext i (v ! i))) \<and>
         (bit fu' b \<longleftrightarrow> bit fu b \<or> (\<exists>i<n. b = 8 - i \<and> unset_bit i (v ! i)) \<or>
            (\<exists>i<n. b = ebit i \<and> unset_ext i (v ! i))) \<and>
         (kt' \<longleftrightarrow> kt \<or> (\<exists>i<n. text_illegal i (v ! i)))"
  using assms
proof (induction n arbitrary: fs fu kt)
  case (Suc n)
  let ?f = "2 ^ (8 - n) :: u16" and ?e = "2 ^ ebit n :: u16"
  let ?c = "v ! n"
  have n: "n \<le> 8" using Suc.prems by simp
  have lt: "8 - n < 16" "ebit n < 16" using n by auto
  have d8: "9 - Suc n = 8 - n" by simp
  have "9 - n = Suc (8 - n)" using n by simp
  then have ef: "push_bit 1 ?f = 2 ^ (9 - n)" by (simp only: push_bit_eq_mult power_Suc) simp
  have ee: "(if Suc n mod 3 = 1 then push_bit 1 ?e else ?e) = 2 ^ (9 + (9 - n) div 3)"
    by (rule ext_shift [OF n])
  obtain fs1 fu1 kt1 where st: "(fs1, fu1, kt1) =
      (if ?c = UnsetSymbol \<or> ?c = UnsetSymbolWin then (fs, fu OR (?f OR ?e), kt)
       else if ?c = UndefSymbol then (fs, fu, kt)
       else if ?c = CombinedSymbols ! n then (fs OR (?f OR ?e), fu, kt)
       else if ?c = ExtendedSymbols ! n then (fs OR ?e, fu OR ?f, kt)
       else (fs OR ?f, (if Suc n mod 3 = 0 then fu OR ?e else fu), kt \<or> ?c \<noteq> BasicSymbols ! n))"
    by (metis surj_pair)
  have "set_text_loop v n (2 ^ (9 - n)) (2 ^ (9 + (9 - n) div 3)) fs1 fu1 kt1 = (fs', fu', kt')"
    using Suc.prems(2) unfolding set_text_loop.simps Let_def d8 ef ee st [symmetric] by simp
  moreover have "n \<le> 9" using n by simp
  ultimately have IH: "(bit fs' b \<longleftrightarrow> bit fs1 b \<or> (\<exists>i<n. b = 8 - i \<and> text_set i (v ! i)) \<or>
            (\<exists>i<n. b = ebit i \<and> text_ext i (v ! i))) \<and>
         (bit fu' b \<longleftrightarrow> bit fu1 b \<or> (\<exists>i<n. b = 8 - i \<and> unset_bit i (v ! i)) \<or>
            (\<exists>i<n. b = ebit i \<and> unset_ext i (v ! i))) \<and>
         (kt' \<longleftrightarrow> kt1 \<or> (\<exists>i<n. text_illegal i (v ! i)))"
    by (rule Suc.IH [rotated])
  have step: "(bit fs1 b \<longleftrightarrow> bit fs b \<or> (b = 8 - n \<and> text_set n ?c) \<or> (b = ebit n \<and> text_ext n ?c)) \<and>
    (bit fu1 b \<longleftrightarrow> bit fu b \<or> (b = 8 - n \<and> unset_bit n ?c) \<or> (b = ebit n \<and> unset_ext n ?c)) \<and>
    (kt1 \<longleftrightarrow> kt \<or> text_illegal n ?c)"
    unfolding step_case_simps using set_text_step_bits [OF st] lt by (simp add: bit_flag)
  show ?case
    unfolding ex_less_Suc by (simp only: IH step) blast
qed simp

definition text_symbol :: "TRights \<Rightarrow> nat \<Rightarrow> char" where
  "text_symbol r i =
     (let s = bit (FSet r) (8 - i); e = bit (FSet r) (ebit i);
          us = bit (FUnset r) (8 - i); ue = bit (FUnset r) (ebit i); extPos = (Suc i mod 3 = 0)
      in if extPos \<and> s \<and> e then CombinedSymbols ! i
         else if s then BasicSymbols ! i
         else if extPos \<and> e then ExtendedSymbols ! i
         else if us \<and> (extPos \<longrightarrow> ue) then UnsetSymbol else UndefSymbol)"

lemma and_flag_eq_flag: "k < 16 \<Longrightarrow> (w :: u16) AND 2 ^ k = 2 ^ k \<longleftrightarrow> bit w k"
  unfolding bit_eq_iff [of "w AND 2 ^ k"] bit_and_iff bit_flag by auto

lemma and_flags_eq_flags:
  "j < 16 \<Longrightarrow> k < 16 \<Longrightarrow> (w :: u16) AND (2 ^ j OR 2 ^ k) = 2 ^ j OR 2 ^ k \<longleftrightarrow> bit w j \<and> bit w k"
  unfolding bit_eq_iff [of "w AND (2 ^ j OR 2 ^ k)"] bit_and_iff bit_or_iff bit_flag by auto

lemma get_text_loop_symbols:
  "n \<le> 9 \<Longrightarrow>
     get_text_loop r n (2 ^ (9 - n)) (2 ^ (9 + (9 - n) div 3)) (n mod 3 = 0) acc =
       map (text_symbol r) [0..<n] @ acc"
proof (induction n arbitrary: acc)
  case (Suc n)
  let ?f = "2 ^ (8 - n) :: u16" and ?e = "2 ^ ebit n :: u16"
  have n: "n \<le> 8" using Suc.prems by simp
  have lt: "8 - n < 16" "ebit n < 16" using n by auto
  have d8: "9 - Suc n = 8 - n" by simp
  have "9 - n = Suc (8 - n)" using n by simp
  then have ef: "push_bit 1 ?f = 2 ^ (9 - n)" by (simp only: push_bit_eq_mult power_Suc) simp
  have m: "n mod 3 = 0 \<longleftrightarrow> Suc n mod 3 = 1" by presburger
  have ee: "(if n mod 3 = 0 then push_bit 1 ?e else ?e) = 2 ^ (9 + (9 - n) div 3)"
    unfolding m by (rule ext_shift [OF n])
  have sym: "(if Suc n mod 3 = 0 \<and> FSet r AND (?f OR ?e) = ?f OR ?e then CombinedSymbols ! n
         else if FSet r AND ?f \<noteq> 0 then BasicSymbols ! n
         else if Suc n mod 3 = 0 \<and> FSet r AND ?e \<noteq> 0 then ExtendedSymbols ! n
         else if (\<not> Suc n mod 3 = 0 \<and> FUnset r AND ?f = ?f) \<or>
                 (Suc n mod 3 = 0 \<and> FUnset r AND (?f OR ?e) = ?f OR ?e) then UnsetSymbol
         else UndefSymbol) = text_symbol r n"
    unfolding text_symbol_def Let_def and_flags_eq_flags [OF lt] and_flag_eq_flag [OF lt(1)]
      and_flag_eq_0 by (cases "Suc n mod 3 = 0") simp_all
  have "get_text_loop r (Suc n) (2 ^ (9 - Suc n)) (2 ^ (9 + (9 - Suc n) div 3)) (Suc n mod 3 = 0) acc =
        get_text_loop r n (2 ^ (9 - n)) (2 ^ (9 + (9 - n) div 3)) (n mod 3 = 0) (text_symbol r n # acc)"
    unfolding get_text_loop.simps Let_def d8 ef ee sym ..
  also have "\<dots> = map (text_symbol r) [0..<Suc n] @ acc"
    using Suc.IH [of "text_symbol r n # acc"] Suc.prems by simp
  finally show ?case .
qed simp

lemma GetText_conv:
  "GetText r = (if FText r \<noteq> [] then FText r else map (text_symbol r) [0..<9])"
  using get_text_loop_symbols [of 9 r "[]"] by (simp add: GetText_def)

text \<open>At each position the bits the loop sets give the symbol back.\<close>

lemma less_9_cases:
  "i < (9 :: nat) \<longleftrightarrow> i = 0 \<or> i = 1 \<or> i = 2 \<or> i = 3 \<or> i = 4 \<or> i = 5 \<or> i = 6 \<or> i = 7 \<or> i = 8"
  by linarith

lemma text_ext_pos: "i < 9 \<Longrightarrow> text_ext i c \<Longrightarrow> Suc i mod 3 = 0"
  by (auto simp: less_9_cases text_ext_def text_unset_def)

lemma ebit_unique: "i < 9 \<Longrightarrow> j < 9 \<Longrightarrow> Suc i mod 3 = 0 \<Longrightarrow> Suc j mod 3 = 0 \<Longrightarrow> ebit i = ebit j \<longleftrightarrow> i = j"
  by (auto simp: less_9_cases) presburger+

lemma bit8_unique: "i < 9 \<Longrightarrow> j < (9 :: nat) \<Longrightarrow> 8 - i = 8 - j \<longleftrightarrow> i = j"
  by linarith

lemma ex_basic: "i < (9 :: nat) \<Longrightarrow> (\<exists>j<9. 8 - i = 8 - j \<and> P j) \<longleftrightarrow> P i"
proof (rule iffI)
  assume i: "i < 9" and "\<exists>j<9. 8 - i = 8 - j \<and> P j"
  then obtain j where "j < 9" "8 - i = 8 - j" "P j" by auto
  moreover from this have "i = j" using i by linarith
  ultimately show "P i" by simp
qed auto

lemma basic_not_ext: "8 - i \<noteq> ebit j" "ebit j \<noteq> 8 - i"
  by linarith+

lemma text_loop_bits:
  assumes l: "set_text_loop v 9 1 512 0 0 False = (fs, fu, kt)" and i: "i < 9"
  shows "bit fs (8 - i) \<longleftrightarrow> text_set i (v ! i)"
    and "Suc i mod 3 = 0 \<Longrightarrow> bit fs (ebit i) \<longleftrightarrow> text_ext i (v ! i)"
    and "bit fu (8 - i) \<longleftrightarrow> unset_bit i (v ! i)"
    and "unset_ext i (v ! i) \<Longrightarrow> bit fu (ebit i)"
    and "kt \<longleftrightarrow> (\<exists>i<9. text_illegal i (v ! i))"
proof -
  have l': "set_text_loop v 9 (2 ^ (9 - 9)) (2 ^ (9 + (9 - 9) div 3)) 0 0 False = (fs, fu, kt)"
    using l by simp
  note all = set_text_loop_bits [OF order_refl l']
  have f: "bit fs b \<longleftrightarrow> (\<exists>i<9. b = 8 - i \<and> text_set i (v ! i)) \<or> (\<exists>i<9. b = ebit i \<and> text_ext i (v ! i))"
    for b using all [of b] by (simp only: bit_0_eq bot_apply) simp
  have u: "bit fu b \<longleftrightarrow> (\<exists>i<9. b = 8 - i \<and> unset_bit i (v ! i)) \<or> (\<exists>i<9. b = ebit i \<and> unset_ext i (v ! i))"
    for b using all [of b] by (simp only: bit_0_eq bot_apply) simp
  show "bit fs (8 - i) \<longleftrightarrow> text_set i (v ! i)" "bit fu (8 - i) \<longleftrightarrow> unset_bit i (v ! i)"
    unfolding f u by (simp_all only: ex_basic [OF i] basic_not_ext) simp_all
  show "bit fs (ebit i) \<longleftrightarrow> text_ext i (v ! i)" if e: "Suc i mod 3 = 0"
  proof -
    have "bit fs (ebit i) \<longleftrightarrow> (\<exists>j<9. ebit i = ebit j \<and> text_ext j (v ! j))"
      unfolding f by (simp only: basic_not_ext) simp
    also have "\<dots> \<longleftrightarrow> text_ext i (v ! i)"
    proof
      assume "\<exists>j<9. ebit i = ebit j \<and> text_ext j (v ! j)"
      then obtain j where j: "j < 9" "ebit i = ebit j" "text_ext j (v ! j)" by (elim exE conjE)
      then have "i = j" using ebit_unique [OF i j(1) e text_ext_pos [OF j(1) j(3)]] by simp
      then show "text_ext i (v ! i)" using j(3) by simp
    qed (intro exI [of _ i] conjI i refl)
    finally show ?thesis .
  qed
  show "bit fu (ebit i)" if "unset_ext i (v ! i)"
    unfolding u using that i by (intro disjI2 exI [of _ i]) simp
  show "kt \<longleftrightarrow> (\<exists>i<9. text_illegal i (v ! i))" using all [of 0] by (simp only: simp_thms)
qed

definition text_norm :: "char \<Rightarrow> char" where
  "text_norm c = (if c = UnsetSymbolWin then UnsetSymbol else c)"

lemma text_symbol_classes:
  assumes "i < 9" "\<not> text_illegal i c" "text_unset c \<Longrightarrow> ue"
  shows "(if Suc i mod 3 = 0 \<and> text_set i c \<and> text_ext i c then CombinedSymbols ! i
      else if text_set i c then BasicSymbols ! i
      else if Suc i mod 3 = 0 \<and> text_ext i c then ExtendedSymbols ! i
      else if unset_bit i c \<and> (Suc i mod 3 = 0 \<longrightarrow> ue) then UnsetSymbol else UndefSymbol) = text_norm c"
proof -
  from assms(1) consider "i = 0" | "i = 1" | "i = 2" | "i = 3" | "i = 4" | "i = 5" | "i = 6" | "i = 7" | "i = 8"
    by linarith
  then show ?thesis
    using assms(2,3)
    by cases (simp_all add: text_norm_def text_illegal_def text_set_def text_ext_def unset_bit_def
        text_unset_def, (elim disjE; simp)+)
qed

lemma text_symbol_back:
  assumes "set_text_loop v 9 1 512 0 0 False = (fs, fu, kt)" "i < 9" "\<not> text_illegal i (v ! i)"
    "FSet r = fs" "FUnset r = fu"
  shows "text_symbol r i = text_norm (v ! i)"
proof -
  note b = text_loop_bits [OF assms(1,2)]
  have "text_symbol r i =
    (if Suc i mod 3 = 0 \<and> text_set i (v ! i) \<and> text_ext i (v ! i) then CombinedSymbols ! i
      else if text_set i (v ! i) then BasicSymbols ! i
      else if Suc i mod 3 = 0 \<and> text_ext i (v ! i) then ExtendedSymbols ! i
      else if unset_bit i (v ! i) \<and> (Suc i mod 3 = 0 \<longrightarrow> bit fu (ebit i)) then UnsetSymbol
      else UndefSymbol)"
    unfolding text_symbol_def Let_def assms(4,5) b(1,3) by (cases "Suc i mod 3 = 0") (simp_all add: b(2))
  also have "\<dots> = text_norm (v ! i)"
    using assms(2,3) b(4) by (intro text_symbol_classes) (auto simp: unset_ext_def)
  finally show ?thesis .
qed

section \<open>Properties\<close>





lemma FSet_SetNumber [simp]: "FSet (SetNumber n r) = n"
  by (simp add: SetNumber_def Let_def)

lemma GetRight_conv: "GetRight r right \<longleftrightarrow> bit (FSet r) (fbit right)"
  by (simp add: GetRight_def GetRightUndef_conv)

text \<open>
  C17: \<open>Combine\<close> overlays permissions: where no right of \<open>other\<close> is recorded both as set and as unset,
  the result has the rights \<open>other\<close> sets, lacks those \<open>other\<close> unsets, and keeps the rest.
\<close>

theorem Combine_overlays:
  assumes "FSet other AND FUnset other = 0"
  shows "GetRight (Combine other r) right =
    (case GetRightUndef other right of rsYes \<Rightarrow> True | rsNo \<Rightarrow> False | rsUndef \<Rightarrow> GetRight r right)"
proof -
  have "fbit right < 16" using fbit_less [of right] by linarith
  moreover have "\<not> (bit (FSet other) (fbit right) \<and> bit (FUnset other) (fbit right))"
    using assms bit_and_iff [of "FSet other" "FUnset other" "fbit right"] by simp
  ultimately show ?thesis
    by (auto simp: Combine_def rights_and_number_def rights_or_number_def GetNumber_def GetRight_conv
        GetRightUndef_conv bit_and_iff bit_or_iff bit_not_iff)
qed

theorem Combine_overlays_witness:
  "GetRight (Combine (SetRightUndef rrUserExec rsNo (AllUndef new_TRights)) (new_TRights_number 0x1FF)) rrUserRead"
proof -
  let ?other = "SetRightUndef rrUserExec rsNo (AllUndef new_TRights)" and ?r = "new_TRights_number 0x1FF"
  have "FSet ?other AND FUnset ?other = 0" and "GetRightUndef ?other rrUserRead = rsUndef"
    and "GetRight ?r rrUserRead" by code_simp+
  then show ?thesis using Combine_overlays [of ?other ?r rrUserRead] by simp
qed

text \<open>
  The assumption of the previous property fails after \<open>SetText\<close>: a text with the set-user-ID bit
  records the special right as set and as unset, and overlaying such permissions loses it.
\<close>

lemma Combine_loses_special_of_text:
  "case SetText ''r-sr-xr-x'' new_TRights of
     Inl e \<Rightarrow> False
   | Inr other \<Rightarrow> GetRightUndef other rrUserIDExec = rsYes \<and> FSet other AND FUnset other \<noteq> 0 \<and>
       \<not> GetRight (Combine other new_TRights) rrUserIDExec"
  by code_simp

text \<open>
  \<open>GetReadOnly\<close> answers the opposite of what \<open>SetReadOnly\<close> set.
\<close>

lemma GetReadOnly_inverted:
  "GetReadOnly (SetReadOnly v r) = (\<not> v)"
  by (simp add: GetReadOnly_def SetReadOnly_def GetRight_def SetRight_def rights.get_put)

lemma octal_field:
  "k \<le> 13 \<Longrightarrow> unat (drop_bit k ((n :: u16) AND push_bit k 7)) = unat n div 2 ^ k mod 8"
proof -
  assume k: "k \<le> 13"
  have m: "(7 :: u16) = mask 3" by (simp add: mask_eq_exp_minus_1)
  have "drop_bit k (n AND push_bit k 7) = take_bit 3 (drop_bit k n)"
    using k unfolding m by (intro bit_eqI) (auto simp: bit_simps)
  then show ?thesis by (simp only: unsigned_take_bit_eq unat_drop_bit_eq) (simp add: take_bit_eq_mod drop_bit_eq_div)
qed

lemma octal_digits:
  fixes n :: u16
  shows "unat (drop_bit 9 (n AND 0xE00)) = unat n div 512 mod 8"
    "unat (drop_bit 6 (n AND 0x1C0)) = unat n div 64 mod 8"
    "unat (drop_bit 3 (n AND 0x38)) = unat n div 8 mod 8"
    "unat (drop_bit 0 (n AND 7)) = unat n mod 8"
  using octal_field [of 9 n] octal_field [of 6 n] octal_field [of 3 n] octal_field [of 0 n] by simp_all

definition octal_char :: "char \<Rightarrow> bool" where
  "octal_char c \<longleftrightarrow> of_char c \<ge> (48 :: nat) \<and> of_char c \<le> (55 :: nat)"

definition octal_pad :: "ustring \<Rightarrow> ustring" where
  "octal_pad v = (if length v = 3 then CHR ''0'' # v else v)"

lemma unat_octal_value: "octal_char c \<Longrightarrow> unat (octal_value c) = of_char c - 48"
  by (auto simp: octal_char_def octal_value_def unat_sub word_le_nat_alt unat_of_nat)

lemma octal_char_back: "octal_char c \<Longrightarrow> char_of (48 + (of_char c - 48 :: nat)) = c"
  by (simp add: octal_char_def)

lemma octal_number:
  assumes "octal_char a" "octal_char b" "octal_char c" "octal_char d"
  shows "unat (push_bit 9 (octal_value a) + push_bit 6 (octal_value b) + push_bit 3 (octal_value c) +
      octal_value d) =
    512 * (of_char a - 48) + 64 * (of_char b - 48) + 8 * (of_char c - 48) + (of_char d - 48)"
  (is "unat ?w = ?n")
proof -
  have "of_char x - (48 :: nat) \<le> 7" if "octal_char x" for x
    using that unfolding octal_char_def by linarith
  from this [OF assms(1)] this [OF assms(2)] this [OF assms(3)] this [OF assms(4)]
  have "?n < 2 ^ 16" by simp
  have v: "octal_value x = of_nat (of_char x - 48)" if "octal_char x" for x
    using that by (simp add: octal_char_def octal_value_def of_nat_diff)
  have "?w = of_nat ?n" using assms by (simp add: v push_bit_eq_mult)
  then show ?thesis using \<open>?n < 2 ^ 16\<close> by (simp only: unat_of_nat) simp
qed

lemma GetOctal_conv:
  "GetOctal r = map (\<lambda>d. char_of (48 + d))
     [unat (FSet r) div 512 mod 8, unat (FSet r) div 64 mod 8, unat (FSet r) div 8 mod 8, unat (FSet r) mod 8]"
  by (simp only: GetOctal_def Let_def octal_digit_def octal_digits list.map)

lemma octal_split:
  fixes a b c d :: nat
  assumes "a < 8" "b < 8" "c < 8" "d < 8"
  shows "(512 * a + 64 * b + 8 * c + d) div 512 mod 8 = a" "(512 * a + 64 * b + 8 * c + d) div 64 mod 8 = b"
    "(512 * a + 64 * b + 8 * c + d) div 8 mod 8 = c" "(512 * a + 64 * b + 8 * c + d) mod 8 = d"
proof -
  have step: "(8 * m + x) div 8 = m" "(8 * m + x) mod 8 = x" if "x < 8" for m x :: nat using that by auto
  have n: "512 * a + 64 * b + 8 * c + d = 8 * (8 * (8 * a + b) + c) + d" by simp
  have "n div 64 = n div 8 div 8" "n div 512 = n div 8 div 8 div 8" for n :: nat
    by (simp_all flip: div_mult2_eq)
  then show "(512 * a + 64 * b + 8 * c + d) div 512 mod 8 = a" "(512 * a + 64 * b + 8 * c + d) div 64 mod 8 = b"
    "(512 * a + 64 * b + 8 * c + d) div 8 mod 8 = c" "(512 * a + 64 * b + 8 * c + d) mod 8 = d"
    using assms by (simp_all only: n step) simp_all
qed

lemma GetOctal_SetNumber_octal:
  assumes "octal_char a" "octal_char b" "octal_char c" "octal_char d"
    and "FSet r = push_bit 9 (octal_value a) + push_bit 6 (octal_value b) + push_bit 3 (octal_value c) +
      octal_value d"
  shows "GetOctal r = [a, b, c, d]"
proof -
  have lt: "of_char x - (48 :: nat) < 8" if "octal_char x" for x
    using that unfolding octal_char_def by linarith
  show ?thesis
    unfolding GetOctal_conv assms(5) octal_number [OF assms(1-4)]
      octal_split [OF lt [OF assms(1)] lt [OF assms(2)] lt [OF assms(3)] lt [OF assms(4)]]
    by (simp only: list.map octal_char_back [OF assms(1)] octal_char_back [OF assms(2)]
        octal_char_back [OF assms(3)] octal_char_back [OF assms(4)])
qed

lemma GetOctal_FUnknown [simp]: "GetOctal (r\<lparr>FUnknown := u\<rparr>) = GetOctal r"
  by (simp add: GetOctal_def)

lemma SetOctal_alt:
  "SetOctal v r =
     (if octal_pad v = GetOctal r then Inr (r\<lparr>FUnknown := False\<rparr>)
      else if length (octal_pad v) = 4 \<and> list_all octal_char (octal_pad v) then
        Inr ((SetNumber (push_bit 9 (octal_value (octal_pad v ! 0)) + push_bit 6 (octal_value (octal_pad v ! 1)) +
               push_bit 3 (octal_value (octal_pad v ! 2)) + octal_value (octal_pad v ! 3)) r)
             \<lparr>FText := [], FUnknown := False\<rparr>)
      else Inl ERightsFormat)"
proof -
  have pad: "(if Length v = 3 then ''0'' @ v else v) = octal_pad v"
    by (simp add: octal_pad_def Length_def)
  have "(Length w = 4) = (length w = 4)" for w by (simp add: Length_def)
  then show ?thesis
    unfolding SetOctal_def Let_def pad octal_char_def [abs_def] by (simp only: eq_commute [of "GetOctal r"] if_not_P split: if_split) simp
qed

text \<open>
  C15: Permissions given in octal. \<open>SetOctal\<close> accepts three or four octal digits (or the text the
  permissions already have) and nothing else, and \<open>GetOctal\<close> gives them back, padded to four.
\<close>

theorem SetOctal_GetOctal:
  "case SetOctal v r of
     Inl e \<Rightarrow> e = ERightsFormat \<and> \<not> (length v \<in> {3, 4} \<and> list_all octal_char v)
   | Inr r' \<Rightarrow> GetOctal r' = octal_pad v \<and>
       (octal_pad v = GetOctal r \<or> length v \<in> {3, 4} \<and> list_all octal_char v)"
proof -
  have legal: "length (octal_pad v) = 4 \<and> list_all octal_char (octal_pad v) \<longleftrightarrow>
      length v \<in> {3, 4} \<and> list_all octal_char v"
    by (auto simp: octal_pad_def octal_char_def)
  show ?thesis
  proof (cases "length (octal_pad v) = 4 \<and> list_all octal_char (octal_pad v)")
    case True
    then obtain a b c d where p: "octal_pad v = [a, b, c, d]"
      by (auto simp: length_Suc_conv eval_nat_numeral)
    then have "octal_char a" "octal_char b" "octal_char c" "octal_char d" using True by auto
    note rt = GetOctal_SetNumber_octal [OF this]
    show ?thesis using True legal unfolding SetOctal_alt p by (simp add: rt)
  next
    case False
    then show ?thesis using legal unfolding SetOctal_alt by auto
  qed
qed

theorem SetOctal_GetOctal_witness:
  "case SetOctal ''755'' new_TRights of Inl e \<Rightarrow> False | Inr r \<Rightarrow> GetOctal r = ''0755''"
proof -
  have "is_ok (SetOctal ''755'' new_TRights)" by code_simp
  then obtain r where r: "SetOctal ''755'' new_TRights = Inr r" by (auto simp: is_ok_def split: sum.splits)
  moreover have "octal_pad ''755'' = ''0755''" by code_simp
  ultimately show ?thesis using SetOctal_GetOctal [of "''755''" new_TRights] by simp
qed

end
