(* ===== verification/RemoteFile.thy ===== *)
theory RemoteFile
  imports RemoteToken UnixPath Rights
begin

text \<open>
  Remote files: the plain attributes of the class \<open>TRemoteFile\<close> of \<open>src/core/RemoteFiles.cpp\<close> with
  their setters and the predicates computed from them. Times are values of an arbitrary type; the
  links between files (\<open>FLinkedFile\<close>, \<open>FLinkedByFile\<close>, \<open>FDirectory\<close>) are not part of the record.
\<close>

datatype TModificationFmt = mfNone | mfMDHM | mfYMDHM | mfMDY | mfFull

abbreviation FILETYPE_DEFAULT :: char where "FILETYPE_DEFAULT \<equiv> CHR ''-''"
abbreviation FILETYPE_SYMLINK :: char where "FILETYPE_SYMLINK \<equiv> CHR ''L''"
abbreviation FILETYPE_DIRECTORY :: char where "FILETYPE_DIRECTORY \<equiv> CHR ''D''"

record 't TRemoteFile =
  FOwner :: TRemoteToken
  FModificationFmt :: TModificationFmt
  FSize :: int
  FCalculatedSize :: int
  FFileName :: ustring
  FDisplayName :: ustring
  FINodeBlocks :: int
  FModification :: 't
  FLastAccess :: 't
  FGroup :: TRemoteToken
  FIconIndex :: int
  FIsSymLink :: bool
  FLinkTo :: ustring
  FRights :: TRights
  FHumanRights :: ustring
  FType :: char
  FTags :: ustring
  FCyclicLink :: bool
  FFullFileName :: ustring
  FIsHidden :: int
  FIsEncrypted :: bool

text \<open>The constructor: default member values, \<open>Init\<close>, and what the constructor sets itself.\<close>

definition new_TRemoteFile :: "'t \<Rightarrow> 't TRemoteFile" where
  "new_TRemoteFile zero =
     \<lparr>FOwner = new_TRemoteToken, FModificationFmt = mfFull, FSize = 0, FCalculatedSize = -1,
      FFileName = [], FDisplayName = [], FINodeBlocks = 0, FModification = zero, FLastAccess = zero,
      FGroup = new_TRemoteToken, FIconIndex = -1, FIsSymLink = False, FLinkTo = [], FRights = new_TRights,
      FHumanRights = [], FType = CHR 0x00, FTags = [], FCyclicLink = False, FFullFileName = [],
      FIsHidden = -1, FIsEncrypted = False\<rparr>"

text \<open>\<open>UpCase\<close> is \<open>toupper\<close> of the C locale.\<close>

definition UpCase :: "char \<Rightarrow> char" where
  "UpCase c = (if (97 :: nat) \<le> of_char c \<and> of_char c \<le> (122 :: nat) then char_of (of_char c - 32 :: nat) else c)"

definition GetIsDirectory :: "'t TRemoteFile \<Rightarrow> bool" where
  "GetIsDirectory f \<longleftrightarrow> UpCase (FType f) = FILETYPE_DIRECTORY"

definition GetSize :: "'t TRemoteFile \<Rightarrow> int" where
  "GetSize f = (if GetIsDirectory f then 0 else FSize f)"

definition GetIsHidden :: "'t TRemoteFile \<Rightarrow> bool" where
  "GetIsHidden f \<longleftrightarrow>
     (if FIsHidden f = 0 then False else if FIsHidden f = 1 then True else IsUnixHiddenFile (FFileName f))"

definition SetIsHidden :: "bool \<Rightarrow> 't TRemoteFile \<Rightarrow> 't TRemoteFile" where
  "SetIsHidden v f = f\<lparr>FIsHidden := (if v then 1 else 0)\<rparr>"

definition GetIsParentDirectory :: "'t TRemoteFile \<Rightarrow> bool" where
  "GetIsParentDirectory f \<longleftrightarrow> FFileName f = PARENTDIRECTORY"

definition GetIsThisDirectory :: "'t TRemoteFile \<Rightarrow> bool" where
  "GetIsThisDirectory f \<longleftrightarrow> FFileName f = THISDIRECTORY"

definition SetType :: "char \<Rightarrow> 't TRemoteFile \<Rightarrow> 't TRemoteFile" where
  "SetType c f = f\<lparr>FType := c, FIsSymLink := (UpCase c = FILETYPE_SYMLINK)\<rparr>"

definition GetIsTimeShiftingApplicable :: "TModificationFmt \<Rightarrow> bool" where
  "GetIsTimeShiftingApplicable fmt \<longleftrightarrow> fmt = mfMDHM \<or> fmt = mfYMDHM \<or> fmt = mfFull"

definition ShiftTimeInSeconds :: "('t \<Rightarrow> int \<Rightarrow> 't) \<Rightarrow> 't \<Rightarrow> TModificationFmt \<Rightarrow> int \<Rightarrow> 't" where
  "ShiftTimeInSeconds IncSecond dateTime fmt seconds =
     (if seconds \<noteq> 0 \<and> GetIsTimeShiftingApplicable fmt then IncSecond dateTime seconds else dateTime)"

definition File_ShiftTimeInSeconds :: "('t \<Rightarrow> int \<Rightarrow> 't) \<Rightarrow> int \<Rightarrow> 't TRemoteFile \<Rightarrow> 't TRemoteFile" where
  "File_ShiftTimeInSeconds IncSecond seconds f =
     (let f = f\<lparr>FModification := ShiftTimeInSeconds IncSecond (FModification f) (FModificationFmt f) seconds\<rparr>
      in f\<lparr>FLastAccess := ShiftTimeInSeconds IncSecond (FLastAccess f) (FModificationFmt f) seconds\<rparr>)"

definition SetModification :: "'t \<Rightarrow> 't TRemoteFile \<Rightarrow> 't TRemoteFile" where
  "SetModification v f =
     (if FModification f \<noteq> v then f\<lparr>FModificationFmt := mfFull, FModification := v\<rparr> else f)"

definition SetRights :: "TRights \<Rightarrow> 't TRemoteFile \<Rightarrow> 't TRemoteFile" where
  "SetRights v f = f\<lparr>FRights := Assign v (FRights f)\<rparr>"

definition GetRightsStr :: "'t TRemoteFile \<Rightarrow> ustring" where
  "GetRightsStr f = (if FUnknown (FRights f) then FHumanRights f else GetText (FRights f))"

text \<open>\<open>TEncryption::GetOverhead\<close> is a constant of the encryption component and a parameter here.\<close>

definition SetEncrypted :: "int \<Rightarrow> 't TRemoteFile \<Rightarrow> 't TRemoteFile" where
  "SetEncrypted overhead f =
     (let f = f\<lparr>FIsEncrypted := True\<rparr>
      in if GetSize f > overhead then f\<lparr>FSize := GetSize f - overhead\<rparr> else f)"

definition faReadOnly :: int where "faReadOnly = 1"
definition faHidden :: int where "faHidden = 2"

definition GetAttr :: "'t TRemoteFile \<Rightarrow> int" where
  "GetAttr f =
     (let result = 0;
          result = (if GetReadOnly (FRights f) then result OR faReadOnly else result)
      in if GetIsHidden f then result OR faHidden else result)"

end
