(* ===== verification/SftpPacket.thy ===== *)
theory SftpPacket
  imports RemoteFile
begin

text \<open>
  The buffers that carry SFTP messages: the class \<open>TSFTPPacket\<close> of \<open>src/core/SftpFileSystem.cpp\<close>.
  The model keeps the allocated block itself, with the four bytes in front that \<open>GetSendData\<close> fills,
  and all lengths at their 32 bits; a memory access outside the block is the error
  \<open>EUndefinedBehaviour\<close>. The conversions between text and bytes of a code page are functions of the
  operating system and parameters.
\<close>


section \<open>Data\<close>

record TSFTPPacket =
  FData :: "u8 list option"  \<comment> \<open>the allocated block, \<open>None\<close> for \<open>nullptr\<close>\<close>
  FLength :: u32
  FCapacity :: u32
  FPosition :: u32
  PType :: u32
  FMessageNumber :: u32
  FReservedBy :: bool        \<comment> \<open>whether the file system holds a reservation\<close>
  FCodePage :: u32

abbreviation (input) FSendPrefixLen :: nat where "FSendPrefixLen \<equiv> 4"
abbreviation (input) SFTP_PACKET_ALLOC_DELTA :: u32 where "SFTP_PACKET_ALLOC_DELTA \<equiv> 256"
abbreviation (input) SFTPNoMessageNumber :: u32 where "SFTPNoMessageNumber \<equiv> -1"

abbreviation (input) SSH_FXP_NONE :: u32 where "SSH_FXP_NONE \<equiv> 0"
abbreviation (input) SSH_FXP_INIT :: u32 where "SSH_FXP_INIT \<equiv> 1"
abbreviation (input) SSH_FXP_VERSION :: u32 where "SSH_FXP_VERSION \<equiv> 2"
abbreviation (input) SSH_FXP_READ :: u32 where "SSH_FXP_READ \<equiv> 5"
abbreviation (input) SSH_FXP_WRITE :: u32 where "SSH_FXP_WRITE \<equiv> 6"
abbreviation (input) SSH_FXP_STATUS :: u32 where "SSH_FXP_STATUS \<equiv> 101"
abbreviation (input) SSH_FXP_DATA :: u32 where "SSH_FXP_DATA \<equiv> 103"
abbreviation (input) SSH_FXP_ATTRS :: u32 where "SSH_FXP_ATTRS \<equiv> 105"

abbreviation (input) SSH_FILEXFER_ATTR_SIZE :: u32 where "SSH_FILEXFER_ATTR_SIZE \<equiv> 1"
abbreviation (input) SSH_FILEXFER_ATTR_UIDGID :: u32 where "SSH_FILEXFER_ATTR_UIDGID \<equiv> 2"
abbreviation (input) SSH_FILEXFER_ATTR_PERMISSIONS :: u32 where "SSH_FILEXFER_ATTR_PERMISSIONS \<equiv> 4"
abbreviation (input) SSH_FILEXFER_ATTR_ACMODTIME :: u32 where "SSH_FILEXFER_ATTR_ACMODTIME \<equiv> 8"
abbreviation (input) SSH_FILEXFER_ATTR_ACCESSTIME :: u32 where "SSH_FILEXFER_ATTR_ACCESSTIME \<equiv> 8"
abbreviation (input) SSH_FILEXFER_ATTR_CREATETIME :: u32 where "SSH_FILEXFER_ATTR_CREATETIME \<equiv> 0x10"
abbreviation (input) SSH_FILEXFER_ATTR_MODIFYTIME :: u32 where "SSH_FILEXFER_ATTR_MODIFYTIME \<equiv> 0x20"
abbreviation (input) SSH_FILEXFER_ATTR_ACL :: u32 where "SSH_FILEXFER_ATTR_ACL \<equiv> 0x40"
abbreviation (input) SSH_FILEXFER_ATTR_OWNERGROUP :: u32 where "SSH_FILEXFER_ATTR_OWNERGROUP \<equiv> 0x80"
abbreviation (input) SSH_FILEXFER_ATTR_SUBSECOND_TIMES :: u32 where "SSH_FILEXFER_ATTR_SUBSECOND_TIMES \<equiv> 0x100"
abbreviation (input) SSH_FILEXFER_ATTR_BITS :: u32 where "SSH_FILEXFER_ATTR_BITS \<equiv> 0x200"
abbreviation (input) SSH_FILEXFER_ATTR_ALLOCATION_SIZE :: u32 where "SSH_FILEXFER_ATTR_ALLOCATION_SIZE \<equiv> 0x400"
abbreviation (input) SSH_FILEXFER_ATTR_TEXT_HINT :: u32 where "SSH_FILEXFER_ATTR_TEXT_HINT \<equiv> 0x800"
abbreviation (input) SSH_FILEXFER_ATTR_MIME_TYPE :: u32 where "SSH_FILEXFER_ATTR_MIME_TYPE \<equiv> 0x1000"
abbreviation (input) SSH_FILEXFER_ATTR_LINK_COUNT :: u32 where "SSH_FILEXFER_ATTR_LINK_COUNT \<equiv> 0x2000"
abbreviation (input) SSH_FILEXFER_ATTR_UNTRANSLATED_NAME :: u32 where "SSH_FILEXFER_ATTR_UNTRANSLATED_NAME \<equiv> 0x4000"
abbreviation (input) SSH_FILEXFER_ATTR_CTIME :: u32 where "SSH_FILEXFER_ATTR_CTIME \<equiv> 0x8000"
abbreviation (input) SSH_FILEXFER_ATTR_EXTENDED :: u32 where "SSH_FILEXFER_ATTR_EXTENDED \<equiv> 0x80000000"
abbreviation (input) SSH_FILEXFER_ATTR_FLAGS_HIDDEN :: u32 where "SSH_FILEXFER_ATTR_FLAGS_HIDDEN \<equiv> 4"
abbreviation (input) SSH_FILEXFER_TYPE_REGULAR :: u8 where "SSH_FILEXFER_TYPE_REGULAR \<equiv> 1"
abbreviation (input) SSH_FILEXFER_TYPE_DIRECTORY :: u8 where "SSH_FILEXFER_TYPE_DIRECTORY \<equiv> 2"

section \<open>Bytes\<close>

definition PUT_32BIT :: "u32 \<Rightarrow> u8 list" where
  "PUT_32BIT v = [ucast (drop_bit 24 v), ucast (drop_bit 16 v), ucast (drop_bit 8 v), ucast v]"

definition GET_32BIT :: "u8 list \<Rightarrow> u32" where
  "GET_32BIT cp =
     push_bit 24 (ucast (cp ! 0)) OR push_bit 16 (ucast (cp ! 1)) OR push_bit 8 (ucast (cp ! 2)) OR ucast (cp ! 3)"

text \<open>Copying into and reading from an allocated block.\<close>

definition write_at :: "nat \<Rightarrow> u8 list \<Rightarrow> u8 list \<Rightarrow> u8 list res" where
  "write_at off src block =
     (if off + length src \<le> length block then Inr (take off block @ src @ drop (off + length src) block)
      else Inl EUndefinedBehaviour)"

definition read_at :: "nat \<Rightarrow> nat \<Rightarrow> u8 list option \<Rightarrow> u8 list res" where
  "read_at off n block =
     (case block of
        None \<Rightarrow> if n = 0 then Inr [] else Inl EUndefinedBehaviour
      | Some d \<Rightarrow> if off + n \<le> length d then Inr (take n (drop off d)) else Inl EUndefinedBehaviour)"

section \<open>Capacity and appending\<close>

definition Packet_Init :: "u32 \<Rightarrow> TSFTPPacket" where
  "Packet_Init codePage =
     \<lparr>FData = None, FLength = 0, FCapacity = 0, FPosition = 0, PType = -1,
      FMessageNumber = SFTPNoMessageNumber, FReservedBy = False, FCodePage = codePage\<rparr>"

text \<open>
  \<open>calloc\<close> of \<open>FCapacity + FSendPrefixLen\<close> bytes, a sum of 32 bits, and copying of the old content.
\<close>

definition SetCapacity :: "u32 \<Rightarrow> TSFTPPacket \<Rightarrow> TSFTPPacket res" where
  "SetCapacity aCapacity p =
     (if aCapacity \<noteq> FCapacity p then
        rbind
          (if aCapacity > 0 then
             (let ndata = replicate (unat (aCapacity + 4)) 0
              in case FData p of
                   None \<Rightarrow> Inr (Some ndata)
                 | Some d \<Rightarrow>
                     rbind (read_at 0 (unat ((if FLength p < aCapacity then FLength p else aCapacity) + 4)) (Some d))
                       (\<lambda>old. rbind (write_at 0 old ndata) (\<lambda>ndata. Inr (Some ndata))))
           else Inr None)
          (\<lambda>d. Inr (p\<lparr>FCapacity := aCapacity, FData := d,
                      FLength := (if FLength p > aCapacity then aCapacity else FLength p)\<rparr>))
      else Inr p)"

definition Packet_Add :: "u8 list \<Rightarrow> TSFTPPacket \<Rightarrow> TSFTPPacket res" where
  "Packet_Add aData p =
     (let aLength = of_nat (length aData)
      in rbind
           (if FLength p + aLength > FCapacity p
            then SetCapacity (FLength p + aLength + SFTP_PACKET_ALLOC_DELTA) p else Inr p)
           (\<lambda>p. rbind
              (case FData p of
                 None \<Rightarrow> if aData = [] then Inr None else Inl EUndefinedBehaviour
               | Some d \<Rightarrow> rbind (write_at (FSendPrefixLen + unat (FLength p)) aData d) (\<lambda>d. Inr (Some d)))
              (\<lambda>d. Inr (p\<lparr>FData := d, FLength := FLength p + aLength\<rparr>))))"

definition AddByte :: "u8 \<Rightarrow> TSFTPPacket \<Rightarrow> TSFTPPacket res" where
  "AddByte v p = Packet_Add [v] p"

definition AddBool :: "bool \<Rightarrow> TSFTPPacket \<Rightarrow> TSFTPPacket res" where
  "AddBool v p = AddByte (if v then 1 else 0) p"

definition AddCardinal :: "u32 \<Rightarrow> TSFTPPacket \<Rightarrow> TSFTPPacket res" where
  "AddCardinal v p = Packet_Add (PUT_32BIT v) p"

definition AddInt64 :: "s64 \<Rightarrow> TSFTPPacket \<Rightarrow> TSFTPPacket res" where
  "AddInt64 v p =
     rbind (AddCardinal (ucast (signed_drop_bit 32 v)) p) (AddCardinal (ucast (v AND 0xFFFFFFFF)))"

definition AddData :: "u8 list \<Rightarrow> TSFTPPacket \<Rightarrow> TSFTPPacket res" where
  "AddData d p = rbind (AddCardinal (of_nat (length d)) p) (Packet_Add d)"

definition AddString :: "u8 list \<Rightarrow> TSFTPPacket \<Rightarrow> TSFTPPacket res" where
  "AddString v p = rbind (AddCardinal (of_nat (length v)) p) (Packet_Add v)"

text \<open>\<open>W2MB\<close> encodes a text in a code page; the result is handed over up to its first zero byte.\<close>

definition AddStringW :: "(u32 \<Rightarrow> ustring \<Rightarrow> u8 list) \<Rightarrow> ustring \<Rightarrow> TSFTPPacket \<Rightarrow> TSFTPPacket res" where
  "AddStringW W2MB v p = AddString (takeWhile (\<lambda>b. b \<noteq> 0) (W2MB (FCodePage p) v)) p"

section \<open>Message types and numbers\<close>

text \<open>\<open>FMessageCounter\<close> is a static member, passed explicitly.\<close>

definition AssignNumber :: "u32 \<Rightarrow> TSFTPPacket \<Rightarrow> TSFTPPacket \<times> u32" where
  "AssignNumber counter p = (p\<lparr>FMessageNumber := push_bit 8 counter + PType p\<rparr>, counter + 1)"

definition ChangeType :: "u32 \<Rightarrow> u32 \<Rightarrow> TSFTPPacket \<Rightarrow> (TSFTPPacket \<times> u32) res" where
  "ChangeType aType counter p =
     rbind (SetCapacity 0 (p\<lparr>FPosition := 0, FLength := 0\<rparr>))
       (\<lambda>p. rbind (AddByte (ucast aType) (p\<lparr>PType := aType\<rparr>))
         (\<lambda>p. if PType p \<noteq> SSH_FXP_INIT then
                (case AssignNumber counter p of (p, counter) \<Rightarrow>
                   rbind (AddCardinal (FMessageNumber p) p) (\<lambda>p. Inr (p, counter)))
              else Inr (p, counter)))"

definition new_TSFTPPacket :: "u32 \<Rightarrow> u32 \<Rightarrow> u32 \<Rightarrow> (TSFTPPacket \<times> u32) res" where
  "new_TSFTPPacket aType codePage counter = ChangeType aType counter (Packet_Init codePage)"

definition Reuse :: "u32 \<Rightarrow> TSFTPPacket \<Rightarrow> (TSFTPPacket \<times> u32) res" where
  "Reuse counter p =
     (case AssignNumber counter p of (p, counter) \<Rightarrow>
        (case FData p of
           None \<Rightarrow> Inl EUndefinedBehaviour
         | Some d \<Rightarrow> rbind (write_at (FSendPrefixLen + 1) (PUT_32BIT (FMessageNumber p)) d)
                      (\<lambda>d. Inr (p\<lparr>FData := Some d\<rparr>, counter))))"

definition GetRequestType :: "TSFTPPacket \<Rightarrow> u8" where
  "GetRequestType p =
     (if FMessageNumber p \<noteq> SFTPNoMessageNumber then ucast (FMessageNumber p AND 0xFF) else ucast SSH_FXP_INIT)"

section \<open>Reading\<close>

definition GetRemainingLength :: "TSFTPPacket \<Rightarrow> u32" where
  "GetRemainingLength p = FLength p - FPosition p"

definition Need :: "u32 \<Rightarrow> TSFTPPacket \<Rightarrow> unit res" where
  "Need aSize p = (if aSize > GetRemainingLength p then Inl EPacketTooSmall else Inr ())"

definition DataConsumed :: "u32 \<Rightarrow> TSFTPPacket \<Rightarrow> TSFTPPacket" where
  "DataConsumed aSize p = p\<lparr>FPosition := FPosition p + aSize\<rparr>"

text \<open>\<open>n\<close> bytes from the current position on.\<close>

definition peek_bytes :: "nat \<Rightarrow> TSFTPPacket \<Rightarrow> u8 list res" where
  "peek_bytes n p = read_at (FSendPrefixLen + unat (FPosition p)) n (FData p)"

definition GetByte :: "TSFTPPacket \<Rightarrow> (u8 \<times> TSFTPPacket) res" where
  "GetByte p =
     rbind (Need 1 p) (\<lambda>_. rbind (peek_bytes 1 p) (\<lambda>b. Inr (b ! 0, DataConsumed 1 p)))"

definition GetBool :: "TSFTPPacket \<Rightarrow> (bool \<times> TSFTPPacket) res" where
  "GetBool p = rbind (GetByte p) (\<lambda>(b, p). Inr (b \<noteq> 0, p))"

definition CanGetBool :: "TSFTPPacket \<Rightarrow> bool" where
  "CanGetBool p \<longleftrightarrow> GetRemainingLength p \<ge> 1"

definition PeekCardinal :: "TSFTPPacket \<Rightarrow> u32 res" where
  "PeekCardinal p = rbind (Need 4 p) (\<lambda>_. rbind (peek_bytes 4 p) (\<lambda>b. Inr (GET_32BIT b)))"

definition GetCardinal :: "TSFTPPacket \<Rightarrow> (u32 \<times> TSFTPPacket) res" where
  "GetCardinal p = rbind (PeekCardinal p) (\<lambda>v. Inr (v, DataConsumed 4 p))"

definition CanGetCardinal :: "TSFTPPacket \<Rightarrow> bool" where
  "CanGetCardinal p \<longleftrightarrow> GetRemainingLength p \<ge> 4"

definition GetSmallCardinal :: "TSFTPPacket \<Rightarrow> (u32 \<times> TSFTPPacket) res" where
  "GetSmallCardinal p =
     rbind (Need 2 p) (\<lambda>_. rbind (peek_bytes 2 p)
       (\<lambda>b. Inr (push_bit 8 (ucast (b ! 0)) + ucast (b ! 1), DataConsumed 2 p)))"

definition CanGetSmallCardinal :: "TSFTPPacket \<Rightarrow> bool" where
  "CanGetSmallCardinal p \<longleftrightarrow> GetRemainingLength p \<ge> 2"

definition GetInt64 :: "TSFTPPacket \<Rightarrow> (s64 \<times> TSFTPPacket) res" where
  "GetInt64 p =
     rbind (GetCardinal p) (\<lambda>(hi, p). rbind (GetCardinal p)
       (\<lambda>(lo, p). Inr (push_bit 32 (ucast hi) + ucast lo, p)))"

definition GetRawByteString :: "TSFTPPacket \<Rightarrow> (u8 list \<times> TSFTPPacket) res" where
  "GetRawByteString p =
     rbind (GetCardinal p) (\<lambda>(len, p). rbind (Need len p)
       (\<lambda>_. rbind (peek_bytes (unat len) p) (\<lambda>b. Inr (b, DataConsumed len p))))"

text \<open>The sum \<open>Size\<close> has 32 bits.\<close>

definition CanGetString :: "TSFTPPacket \<Rightarrow> (bool \<times> u32 option) res" where
  "CanGetString p =
     (if CanGetCardinal p then
        rbind (PeekCardinal p) (\<lambda>len. let aSize = 4 + len in Inr (aSize \<le> GetRemainingLength p, Some aSize))
      else Inr (False, None))"

definition GetStringW :: "(u32 \<Rightarrow> u8 list \<Rightarrow> ustring) \<Rightarrow> TSFTPPacket \<Rightarrow> (ustring \<times> TSFTPPacket) res" where
  "GetStringW MB2W p =
     rbind (GetRawByteString p)
       (\<lambda>(b, p'). Inr (MB2W (FCodePage p) (takeWhile (\<lambda>b. b \<noteq> 0) b), p'))"

definition GetNextData :: "u32 \<Rightarrow> TSFTPPacket \<Rightarrow> u32 option res" where
  "GetNextData aSize p =
     rbind (if aSize > 0 then Need aSize p else Inr ())
       (\<lambda>_. Inr (if FPosition p < FLength p then Some (FPosition p) else None))"

definition DataUpdated :: "u32 \<Rightarrow> TSFTPPacket \<Rightarrow> TSFTPPacket res" where
  "DataUpdated aLength p =
     rbind (GetByte (p\<lparr>FPosition := 0, FLength := aLength\<rparr>))
       (\<lambda>(b, p). let p = p\<lparr>PType := ucast b\<rparr>
         in if PType p \<noteq> SSH_FXP_VERSION then
              rbind (GetCardinal p) (\<lambda>(n, p). Inr (p\<lparr>FMessageNumber := n\<rparr>))
            else Inr (p\<lparr>FMessageNumber := SFTPNoMessageNumber\<rparr>))"

text \<open>The used part of the block, and \<open>operator =\<close> between different packets.\<close>

definition payload :: "TSFTPPacket \<Rightarrow> u8 list" where
  "payload p = (case FData p of None \<Rightarrow> [] | Some d \<Rightarrow> take (unat (FLength p)) (drop FSendPrefixLen d))"

definition Packet_Assign :: "TSFTPPacket \<Rightarrow> TSFTPPacket \<Rightarrow> TSFTPPacket res" where
  "Packet_Assign source p =
     rbind (SetCapacity 0 p) (\<lambda>p. rbind (Packet_Add (payload source) p)
       (\<lambda>p. rbind (DataUpdated (FLength source) p)
         (\<lambda>p. Inr (p\<lparr>FPosition := FPosition source, FReservedBy := FReservedBy source,
                      FCodePage := FCodePage source\<rparr>))))"

definition GetSendLength :: "TSFTPPacket \<Rightarrow> u32" where
  "GetSendLength p = 4 + FLength p"

text \<open>The bytes \<open>SendPacket\<close> hands to the connection: \<open>GetSendLength\<close> bytes of \<open>GetSendData\<close>.\<close>

definition GetSendData :: "TSFTPPacket \<Rightarrow> u8 list res" where
  "GetSendData p =
     (case FData p of
        None \<Rightarrow> Inl EUndefinedBehaviour
      | Some d \<Rightarrow> rbind (write_at 0 (PUT_32BIT (FLength p)) d)
                   (\<lambda>d. read_at 0 (unat (GetSendLength p)) (Some d)))"

section \<open>File attributes\<close>

definition AllocationSizeAttribute :: "int \<Rightarrow> u32" where
  "AllocationSizeAttribute version =
     (if version \<ge> 6 then SSH_FILEXFER_ATTR_ALLOCATION_SIZE else SSH_FILEXFER_ATTR_SIZE)"

definition add_flag :: "bool \<Rightarrow> u32 \<Rightarrow> u32 \<Rightarrow> u32" where
  "add_flag b f flags = (if b then flags OR f else flags)"

definition properties_flags ::
  "bool \<Rightarrow> bool \<Rightarrow> bool \<Rightarrow> bool \<Rightarrow> bool \<Rightarrow> int \<Rightarrow> u32" where
  "properties_flags rights ownerGroup mtime atime aSize version =
     (let flags = 0;
          flags = add_flag aSize (AllocationSizeAttribute version) flags;
          flags = add_flag ownerGroup
                    (if version < 4 then SSH_FILEXFER_ATTR_UIDGID else SSH_FILEXFER_ATTR_OWNERGROUP) flags;
          flags = add_flag rights SSH_FILEXFER_ATTR_PERMISSIONS flags;
          flags = add_flag (version < 4 \<and> (mtime \<or> atime)) SSH_FILEXFER_ATTR_ACMODTIME flags;
          flags = add_flag (version \<ge> 4 \<and> atime) SSH_FILEXFER_ATTR_ACCESSTIME flags
      in add_flag (version \<ge> 4 \<and> mtime) SSH_FILEXFER_ATTR_MODIFYTIME flags)"

text \<open>A pointer argument that may be null is an option.\<close>

definition add_if :: "bool \<Rightarrow> (TSFTPPacket \<Rightarrow> TSFTPPacket res) \<Rightarrow> TSFTPPacket \<Rightarrow> TSFTPPacket res" where
  "add_if b add p = (if b then add p else Inr p)"

definition AddProperties ::
  "(u32 \<Rightarrow> ustring \<Rightarrow> u8 list) \<Rightarrow> u16 option \<Rightarrow> TRemoteToken option \<Rightarrow> TRemoteToken option \<Rightarrow>
     s64 option \<Rightarrow> s64 option \<Rightarrow> s64 option \<Rightarrow> bool \<Rightarrow> int \<Rightarrow> TSFTPPacket \<Rightarrow> TSFTPPacket res" where
  "AddProperties W2MB rights owner grp mtime atime aSize isDirectory version p =
     (let ownerGroup = (owner \<noteq> None \<and> grp \<noteq> None);
          flags = properties_flags (rights \<noteq> None) ownerGroup (mtime \<noteq> None) (atime \<noteq> None) (aSize \<noteq> None) version;
          aTime32 = (case atime of Some a \<Rightarrow> a | None \<Rightarrow> (case mtime of Some m \<Rightarrow> m | None \<Rightarrow> 0));
          mTime32 = (case mtime of Some m \<Rightarrow> m | None \<Rightarrow> (case atime of Some a \<Rightarrow> a | None \<Rightarrow> 0))
      in rbind (AddCardinal flags p)
       (\<lambda>p. rbind (add_if (version \<ge> 4)
                    (AddByte (if isDirectory then SSH_FILEXFER_TYPE_DIRECTORY else SSH_FILEXFER_TYPE_REGULAR)) p)
       (\<lambda>p. rbind (add_if (aSize \<noteq> None) (AddInt64 (the aSize)) p)
       (\<lambda>p. rbind (add_if (ownerGroup \<and> version < 4) (AddCardinal (word_of_int (FID (the owner)))) p)
       (\<lambda>p. rbind (add_if (ownerGroup \<and> version < 4) (AddCardinal (word_of_int (FID (the grp)))) p)
       (\<lambda>p. rbind (add_if (ownerGroup \<and> version \<ge> 4) (AddStringW W2MB (FName (the owner))) p)
       (\<lambda>p. rbind (add_if (ownerGroup \<and> version \<ge> 4) (AddStringW W2MB (FName (the grp))) p)
       (\<lambda>p. rbind (add_if (rights \<noteq> None) (AddCardinal (ucast (the rights))) p)
       (\<lambda>p. rbind (add_if (version < 4 \<and> (mtime \<noteq> None \<or> atime \<noteq> None)) (AddCardinal (ucast aTime32)) p)
       (\<lambda>p. rbind (add_if (version < 4 \<and> (mtime \<noteq> None \<or> atime \<noteq> None)) (AddCardinal (ucast mTime32)) p)
       (\<lambda>p. rbind (add_if (version \<ge> 4 \<and> atime \<noteq> None) (AddInt64 (the atime)) p)
       (\<lambda>p. add_if (version \<ge> 4 \<and> mtime \<noteq> None) (AddInt64 (the mtime)) p))))))))))))"

definition get_if :: "bool \<Rightarrow> (TSFTPPacket \<Rightarrow> ('a \<times> TSFTPPacket) res) \<Rightarrow> TSFTPPacket \<Rightarrow> ('a option \<times> TSFTPPacket) res" where
  "get_if b get p = (if b then rbind (get p) (\<lambda>(v, p). Inr (Some v, p)) else Inr (None, p))"

definition set_if :: "'a option \<Rightarrow> ('a \<Rightarrow> 'b \<Rightarrow> 'b) \<Rightarrow> 'b \<Rightarrow> 'b" where
  "set_if v upd x = (case v of None \<Rightarrow> x | Some v \<Rightarrow> upd v x)"

definition has_flag :: "u32 \<Rightarrow> u32 \<Rightarrow> bool" where
  "has_flag flags f \<longleftrightarrow> flags AND f \<noteq> 0"

definition file_types :: ustring where
  "file_types = ''U-DLSUOCBF'' @ [CHR 0x00]"

primrec skip_extended :: "nat \<Rightarrow> TSFTPPacket \<Rightarrow> TSFTPPacket res" where
  "skip_extended 0 p = Inr p"
| "skip_extended (Suc n) p =
     rbind (GetRawByteString p) (\<lambda>(_, p). rbind (GetRawByteString p) (\<lambda>(_, p). skip_extended n p))"

text \<open>The names in front of the attributes.\<close>

definition get_file_names ::
  "(u32 \<Rightarrow> u8 list \<Rightarrow> ustring) \<Rightarrow> int \<Rightarrow> TSFTPPacket \<Rightarrow> 't TRemoteFile \<Rightarrow>
     (ustring \<times> 't TRemoteFile \<times> TSFTPPacket) res" where
  "get_file_names MB2W version p f =
     (if PType p \<noteq> SSH_FXP_ATTRS then
        rbind (GetStringW MB2W p) (\<lambda>(name, p). let f = f\<lparr>FFileName := name\<rparr> in
          if version < 4 then rbind (GetStringW MB2W p) (\<lambda>(listing, p). Inr (listing, f, p))
          else Inr ([], f, p))
      else Inr ([], f, p))"

text \<open>Size, owner, group and permissions.\<close>

definition get_file_owner ::
  "(u32 \<Rightarrow> u8 list \<Rightarrow> ustring) \<Rightarrow> int \<Rightarrow> u32 \<Rightarrow> TSFTPPacket \<Rightarrow> 't TRemoteFile \<Rightarrow>
     (u32 \<times> 't TRemoteFile \<times> TSFTPPacket) res" where
  "get_file_owner MB2W version flags p f =
     (let uidgid = (has_flag flags SSH_FILEXFER_ATTR_UIDGID \<and> version < 4);
          ownergroup = has_flag flags SSH_FILEXFER_ATTR_OWNERGROUP
      in rbind (get_if (has_flag flags SSH_FILEXFER_ATTR_SIZE) GetInt64 p)
       (\<lambda>(sz, p). rbind (get_if (has_flag flags SSH_FILEXFER_ATTR_ALLOCATION_SIZE) GetInt64 p)
       (\<lambda>(_, p). rbind (get_if uidgid GetCardinal p)
       (\<lambda>(uid, p). rbind (get_if uidgid GetCardinal p)
       (\<lambda>(gid, p). rbind (get_if ownergroup (GetStringW MB2W) p)
       (\<lambda>(owner, p). rbind (get_if ownergroup (GetStringW MB2W) p)
       (\<lambda>(grp, p). rbind (get_if (has_flag flags SSH_FILEXFER_ATTR_PERMISSIONS) GetCardinal p)
       (\<lambda>(permissions, p).
          let f = set_if sz (\<lambda>v f. f\<lparr>FSize := sint v\<rparr>) f;
              f = set_if uid (\<lambda>v f. f\<lparr>FOwner := SetID (sint v) (FOwner f)\<rparr>) f;
              f = set_if gid (\<lambda>v f. f\<lparr>FGroup := SetID (sint v) (FGroup f)\<rparr>) f;
              f = set_if owner (\<lambda>v f. f\<lparr>FOwner := SetName v (FOwner f)\<rparr>) f;
              f = set_if grp (\<lambda>v f. f\<lparr>FGroup := SetName v (FGroup f)\<rparr>) f
          in Inr (case permissions of None \<Rightarrow> 0 | Some v \<Rightarrow> v, f, p)))))))))"

text \<open>Times; \<open>UnixToDateTime\<close> depends on the time zone of the system and is a parameter.\<close>

definition time32 :: "bool \<Rightarrow> u32 \<Rightarrow> int" where
  "time32 signedTS v = (if signedTS then sint v else uint v)"

definition get_file_times ::
  "(int \<Rightarrow> 't) \<Rightarrow> bool \<Rightarrow> int \<Rightarrow> u32 \<Rightarrow> TSFTPPacket \<Rightarrow> 't TRemoteFile \<Rightarrow> ('t TRemoteFile \<times> TSFTPPacket) res" where
  "get_file_times UnixToDateTime signedTS version flags p f =
     (let acmod = (version < 4 \<and> has_flag flags SSH_FILEXFER_ATTR_ACMODTIME);
          subsec = has_flag flags SSH_FILEXFER_ATTR_SUBSECOND_TIMES;
          acc = (version \<ge> 4 \<and> has_flag flags SSH_FILEXFER_ATTR_ACCESSTIME);
          cre = (version \<ge> 4 \<and> has_flag flags SSH_FILEXFER_ATTR_CREATETIME);
          mdf = (version \<ge> 4 \<and> has_flag flags SSH_FILEXFER_ATTR_MODIFYTIME);
          ctm = (version \<ge> 4 \<and> has_flag flags SSH_FILEXFER_ATTR_CTIME)
      in rbind (get_if acmod GetCardinal p)
       (\<lambda>(a, p). rbind (get_if acmod GetCardinal p)
       (\<lambda>(m, p). rbind (get_if acc GetInt64 p)
       (\<lambda>(atime, p). rbind (get_if (acc \<and> subsec) GetCardinal p)
       (\<lambda>(_, p). rbind (get_if cre GetInt64 p)
       (\<lambda>(_, p). rbind (get_if (cre \<and> subsec) GetCardinal p)
       (\<lambda>(_, p). rbind (get_if mdf GetInt64 p)
       (\<lambda>(mtime, p). rbind (get_if (mdf \<and> subsec) GetCardinal p)
       (\<lambda>(_, p). rbind (get_if ctm GetInt64 p)
       (\<lambda>(_, p). rbind (get_if (ctm \<and> subsec) GetCardinal p)
       (\<lambda>(_, p).
          let f = set_if a (\<lambda>v f. f\<lparr>FLastAccess := UnixToDateTime (time32 signedTS v)\<rparr>) f;
              f = set_if m (\<lambda>v. SetModification (UnixToDateTime (time32 signedTS v))) f;
              f = set_if atime (\<lambda>v f. f\<lparr>FLastAccess := UnixToDateTime (sint v)\<rparr>) f;
              f = set_if mtime (\<lambda>v. SetModification (UnixToDateTime (sint v))) f
          in Inr (f, p))))))))))))"

text \<open>The optional fields behind the times.\<close>

definition get_file_rest ::
  "(u32 \<Rightarrow> u8 list \<Rightarrow> ustring) \<Rightarrow> int \<Rightarrow> u32 \<Rightarrow> TSFTPPacket \<Rightarrow> 't TRemoteFile \<Rightarrow> ('t TRemoteFile \<times> TSFTPPacket) res" where
  "get_file_rest MB2W version flags p f =
     (let bits = has_flag flags SSH_FILEXFER_ATTR_BITS
      in rbind (get_if (has_flag flags SSH_FILEXFER_ATTR_ACL) GetRawByteString p)
       (\<lambda>(_, p). rbind (get_if bits GetCardinal p)
       (\<lambda>(b, p). rbind (get_if (bits \<and> version \<ge> 6) GetCardinal p)
       (\<lambda>(valid, p). rbind (get_if (has_flag flags SSH_FILEXFER_ATTR_TEXT_HINT) GetByte p)
       (\<lambda>(_, p). rbind (get_if (has_flag flags SSH_FILEXFER_ATTR_MIME_TYPE) GetRawByteString p)
       (\<lambda>(_, p). rbind (get_if (has_flag flags SSH_FILEXFER_ATTR_LINK_COUNT) GetCardinal p)
       (\<lambda>(_, p). rbind (get_if (has_flag flags SSH_FILEXFER_ATTR_UNTRANSLATED_NAME) (GetStringW MB2W) p)
       (\<lambda>(_, p).
          let b = (case b of None \<Rightarrow> 0 | Some b \<Rightarrow> (case valid of None \<Rightarrow> b | Some v \<Rightarrow> b AND v));
              f = (if b AND SSH_FILEXFER_ATTR_FLAGS_HIDDEN = SSH_FILEXFER_ATTR_FLAGS_HIDDEN then SetIsHidden True f else f)
          in Inr (f, p)))))))))"

text \<open>
  \<open>SetListingStr\<close> parses the listing line of old servers and \<open>Complete\<close> resolves links; they are
  parameters, the former with a flag that tells whether it threw.
\<close>

definition GetFile ::
  "(u32 \<Rightarrow> u8 list \<Rightarrow> ustring) \<Rightarrow> (int \<Rightarrow> 't) \<Rightarrow> (ustring \<Rightarrow> 't TRemoteFile \<Rightarrow> 't TRemoteFile \<times> bool) \<Rightarrow>
     ('t TRemoteFile \<Rightarrow> 't TRemoteFile) \<Rightarrow> int \<Rightarrow> bool \<Rightarrow> bool \<Rightarrow> TSFTPPacket \<Rightarrow> 't TRemoteFile \<Rightarrow>
     ('t TRemoteFile \<times> TSFTPPacket) res" where
  "GetFile MB2W UnixToDateTime SetListingStr Complete version signedTS complete p f =
     rbind (get_file_names MB2W version p f)
     (\<lambda>(listing, f, p). rbind (GetCardinal p)
     (\<lambda>(flags, p). rbind (get_if (version \<ge> 4) GetByte p)
     (\<lambda>(fxtype, p). rbind
        (case fxtype of
           None \<Rightarrow> Inr f
         | Some t \<Rightarrow> if unat t > 10 then Inl EUnknownFileType else Inr (SetType (file_types ! unat t) f))
     (\<lambda>f. rbind (get_file_owner MB2W version flags p f)
     (\<lambda>(permissions, f, p). rbind (get_file_times UnixToDateTime signedTS version flags p f)
     (\<lambda>(f, p). rbind (get_file_rest MB2W version flags p f)
     (\<lambda>(f, p).
        let (f, parsingFailed) =
              (if version < 4 \<and> PType p \<noteq> SSH_FXP_ATTRS then SetListingStr listing f else (f, False));
            f = (if PType p = SSH_FXP_ATTRS \<or> version \<ge> 4 \<or> parsingFailed then
                   (let perm = (flags AND SSH_FILEXFER_ATTR_PERMISSIONS = SSH_FILEXFER_ATTR_PERMISSIONS);
                        f = (if perm then f\<lparr>FRights := SetNumber (ucast (permissions AND 0xFFF)) (FRights f)\<rparr> else f);
                        aType = (if perm \<and> permissions AND 0x4000 = 0x4000 then FILETYPE_DIRECTORY else FILETYPE_DEFAULT)
                    in if version < 4 then SetType aType f else f)
                 else f)
        in rbind (get_if (has_flag flags SSH_FILEXFER_ATTR_EXTENDED) GetCardinal p)
             (\<lambda>(count, p). rbind (skip_extended (case count of None \<Rightarrow> 0 | Some c \<Rightarrow> unat c) p)
             (\<lambda>p. Inr (if complete then Complete f else f, p))))))))))"

section \<open>The buffer invariant\<close>

definition packet_ok :: "TSFTPPacket \<Rightarrow> bool" where
  "packet_ok p \<longleftrightarrow>
     (case FData p of
        None \<Rightarrow> FCapacity p = 0
      | Some d \<Rightarrow> FCapacity p \<noteq> 0 \<and> length d = unat (FCapacity p) + FSendPrefixLen) \<and>
     FLength p \<le> FCapacity p \<and> FPosition p \<le> FLength p"

definition room :: "TSFTPPacket \<Rightarrow> nat \<Rightarrow> bool" where
  "room p n \<longleftrightarrow> unat (FLength p) + n + 260 < 2 ^ 32"

definition same_header :: "TSFTPPacket \<Rightarrow> TSFTPPacket \<Rightarrow> bool" where
  "same_header p p' \<longleftrightarrow>
     FPosition p' = FPosition p \<and> PType p' = PType p \<and> FMessageNumber p' = FMessageNumber p \<and>
     FReservedBy p' = FReservedBy p \<and> FCodePage p' = FCodePage p"

text \<open>What is left to read.\<close>

definition remaining :: "TSFTPPacket \<Rightarrow> u8 list" where
  "remaining p = drop (unat (FPosition p)) (payload p)"

lemma same_header_trans: "same_header p q \<Longrightarrow> same_header q r \<Longrightarrow> same_header p r"
  by (simp add: same_header_def)

lemma same_header_refl [simp]: "same_header p p"
  by (simp add: same_header_def)

lemma packet_ok_Init [simp]: "packet_ok (Packet_Init cp)" "payload (Packet_Init cp) = []"
  by (simp_all add: packet_ok_def Packet_Init_def payload_def)

lemma length_payload: "packet_ok p \<Longrightarrow> length (payload p) = unat (FLength p)"
  by (auto simp: packet_ok_def payload_def word_le_nat_alt split: option.splits)

lemma unat_bound: "unat (w :: u32) < 4294967296"
  using unsigned_less [of w, where 'a = nat] by simp

lemma unat_add_nat:
  "unat (a :: u32) + n < 2 ^ 32 \<Longrightarrow> unat (a + of_nat n) = unat a + n"
  by (simp add: unat_word_ariths unat_of_nat mod_add_right_eq)

lemma SetCapacity_ok:
  assumes "packet_ok p" "unat c + 4 < 2 ^ 32" "FPosition p \<le> c"
  shows "\<exists>p'. SetCapacity c p = Inr p' \<and> packet_ok p' \<and> payload p' = take (unat c) (payload p) \<and>
    FCapacity p' = c \<and> same_header p p'"
proof (cases "c = FCapacity p")
  case True
  then show ?thesis
    using assms(1) length_payload [OF assms(1)]
    by (simp add: SetCapacity_def packet_ok_def word_le_nat_alt)
next
  case False
  have c4: "unat (c + 4) = unat c + 4" using unat_add_nat [of c 4] assms(2) by simp
  define m where "m = (if FLength p < c then FLength p else c)"
  have um: "unat m = min (unat (FLength p)) (unat c)" by (auto simp: m_def word_less_nat_alt)
  then have m4: "unat (m + 4) = unat m + 4" using unat_add_nat [of m 4] assms(2) by simp
  have fl: "(if FLength p > c then c else FLength p) = m" by (auto simp: m_def)
  have mc: "m \<le> c" using um by (simp add: word_le_nat_alt)
  have pos: "FPosition p \<le> m" using assms(1,3) by (auto simp: packet_ok_def m_def)
  show ?thesis
  proof (cases "c > 0")
    case z: False
    then have "c = 0" by (simp add: word_gt_0)
    then show ?thesis using False assms pos
      by (auto simp: SetCapacity_def packet_ok_def payload_def same_header_def word_gt_0)
  next
    case c0: True
    show ?thesis
    proof (cases "FData p")
      case None
      then have "FLength p = 0" using assms(1) by (auto simp: packet_ok_def)
      then show ?thesis using None False assms pos c0 c4
        by (simp add: SetCapacity_def packet_ok_def payload_def same_header_def Let_def word_gt_0)
    next
      case (Some d)
      have len: "length d = unat (FCapacity p) + 4" and lc: "unat (FLength p) \<le> unat (FCapacity p)"
        using assms(1) Some by (simp_all add: packet_ok_def word_le_nat_alt)
      have 1: "unat m + 4 \<le> length d" using um lc len by linarith
      let ?nd = "take (unat m + 4) d @ replicate (unat c - unat m) 0"
      have rd: "read_at 0 (unat (m + 4)) (Some d) = Inr (take (unat m + 4) d)"
        using 1 by (simp add: read_at_def m4)
      have wr: "write_at 0 (take (unat m + 4) d) (replicate (unat (c + 4)) 0) = Inr ?nd"
        using 1 um by (simp add: write_at_def c4)
      have eq: "SetCapacity c p = Inr (p\<lparr>FCapacity := c, FData := Some ?nd, FLength := m\<rparr>)"
        unfolding SetCapacity_def fl m_def [symmetric] using False c0 Some by (simp add: rd wr Let_def)
      have "take (unat m) (drop 4 ?nd) = take (unat m) (drop 4 d)" using 1 by (simp add: drop_take)
      then have "payload (p\<lparr>FCapacity := c, FData := Some ?nd, FLength := m\<rparr>) = take (unat c) (payload p)"
        unfolding payload_def using Some um by (simp add: min.commute)
      moreover have "length ?nd = unat c + 4" using 1 um by simp
      ultimately show ?thesis unfolding eq using pos mc c0
        by (simp add: packet_ok_def same_header_def word_gt_0)
    qed
  qed
qed

lemma Packet_Add_ok:
  assumes "packet_ok p" "room p (length bs)"
  shows "\<exists>p'. Packet_Add bs p = Inr p' \<and> packet_ok p' \<and> payload p' = payload p @ bs \<and> same_header p p'"
proof -
  let ?n = "of_nat (length bs) :: u32"
  have r: "unat (FLength p) + length bs + 260 < 2 ^ 32" using assms(2) by (simp add: room_def)
  have n: "unat (FLength p + ?n) = unat (FLength p) + length bs" using unat_add_nat r by simp
  have n2: "unat (FLength p + ?n + 256) = unat (FLength p) + length bs + 256"
    using unat_add_nat [of "FLength p + ?n" 256] n r by simp
  have pos: "FPosition p \<le> FLength p" using assms(1) by (simp add: packet_ok_def)
  obtain q where q: "(if FLength p + ?n > FCapacity p then SetCapacity (FLength p + ?n + 256) p else Inr p) = Inr q"
      "packet_ok q" "payload q = payload p" "same_header p q" "unat (FLength p) + length bs \<le> unat (FCapacity q)"
  proof (cases "FLength p + ?n > FCapacity p")
    case True
    have "FPosition p \<le> FLength p + ?n + 256" using pos n2 by (simp add: word_le_nat_alt)
    then obtain q where "SetCapacity (FLength p + ?n + 256) p = Inr q" "packet_ok q"
      "payload q = take (unat (FLength p + ?n + 256)) (payload p)" "FCapacity q = FLength p + ?n + 256"
      "same_header p q"
      using SetCapacity_ok [OF assms(1), of "FLength p + ?n + 256"] n2 r by auto
    then show ?thesis using that True n2 length_payload [OF assms(1)] by simp
  next
    case False
    then have "unat (FLength p) + length bs \<le> unat (FCapacity p)" using n by (simp add: word_less_nat_alt)
    then show ?thesis using that [of p] False assms(1) by simp
  qed
  have lq: "FLength q = FLength p"
    using length_payload [OF q(2)] length_payload [OF assms(1)] q(3) by (simp add: word_unat_eq_iff)
  show ?thesis
  proof (cases "FData q")
    case None
    then have "FCapacity q = 0" using q(2) by (simp add: packet_ok_def)
    then have "bs = []" using q(5) by simp
    then show ?thesis using q None by (auto simp: Packet_Add_def Let_def packet_ok_def payload_def same_header_def)
  next
    case (Some d)
    have len: "length d = unat (FCapacity q) + 4" using q(2) Some by (simp add: packet_ok_def)
    let ?d = "take (4 + unat (FLength p)) d @ bs @ drop (4 + unat (FLength p) + length bs) d"
    have wr: "write_at (4 + unat (FLength p)) bs d = Inr ?d" using q(5) len by (simp add: write_at_def)
    have ld: "length ?d = unat (FCapacity q) + 4" using q(5) len by simp
    have pp: "payload p = take (unat (FLength p)) (drop 4 d)"
      using Some lq unfolding q(3) [symmetric] by (simp add: payload_def)
    have pl: "payload (q\<lparr>FData := Some ?d, FLength := FLength p + ?n\<rparr>) = payload p @ bs"
      using pp q(5) len by (simp add: payload_def [of "q\<lparr>FData := Some ?d, FLength := FLength p + ?n\<rparr>"] n drop_take)
    have "packet_ok (q\<lparr>FData := Some ?d, FLength := FLength p + ?n\<rparr>)"
      using q(2,5) Some ld pos n q(4) by (simp add: packet_ok_def same_header_def word_le_nat_alt)
    then show ?thesis using q(1,4) Some wr pl lq
      by (simp add: Packet_Add_def Let_def same_header_def)
  qed
qed

lemma length_remaining: "packet_ok p \<Longrightarrow> length (remaining p) = unat (FLength p) - unat (FPosition p)"
  by (simp add: remaining_def length_payload)

lemma Need_conv: "packet_ok p \<Longrightarrow> Need n p = (if unat n > length (remaining p) then Inl EPacketTooSmall else Inr ())"
  by (simp add: Need_def GetRemainingLength_def length_remaining word_less_nat_alt unat_sub packet_ok_def)

lemma peek_bytes_conv:
  assumes "packet_ok p" "n \<le> length (remaining p)"
  shows "peek_bytes n p = Inr (take n (remaining p))"
proof (cases "FData p")
  case None
  then have "payload p = []" by (simp add: payload_def)
  then show ?thesis using assms None by (simp add: peek_bytes_def read_at_def remaining_def)
next
  case (Some d)
  have b: "unat (FPosition p) \<le> unat (FLength p)" "unat (FLength p) \<le> unat (FCapacity p)"
    "length d = unat (FCapacity p) + 4"
    using assms(1) Some by (simp_all add: packet_ok_def word_le_nat_alt)
  have "n \<le> unat (FLength p) - unat (FPosition p)" using assms by (simp add: length_remaining)
  then have i: "4 + unat (FPosition p) + n \<le> length d" and n: "n \<le> unat (FLength p) - unat (FPosition p)"
    using b by linarith+
  have "take n (drop (4 + unat (FPosition p)) d) = take n (remaining p)"
    using n Some by (simp add: remaining_def payload_def drop_take min_absorb1 add.commute)
  then show ?thesis using i Some by (simp add: peek_bytes_def read_at_def)
qed

lemma DataConsumed_ok:
  assumes "packet_ok p" "unat n \<le> length (remaining p)"
  shows "packet_ok (DataConsumed n p)" "remaining (DataConsumed n p) = drop (unat n) (remaining p)"
proof -
  have b: "unat (FPosition p) \<le> unat (FLength p)" using assms(1) by (simp add: packet_ok_def word_le_nat_alt)
  have le: "unat (FPosition p) + unat n \<le> unat (FLength p)" using assms b by (simp add: length_remaining)
  then have u: "unat (FPosition p + n) = unat (FPosition p) + unat n"
    using unat_bound [of "FLength p"] by (simp add: unat_word_ariths)
  have pl: "payload (DataConsumed n p) = payload p" by (simp add: payload_def DataConsumed_def split: option.split)
  show "packet_ok (DataConsumed n p)"
    using assms(1) le u by (simp add: packet_ok_def DataConsumed_def word_le_nat_alt split: option.splits)
  show "remaining (DataConsumed n p) = drop (unat n) (remaining p)"
    unfolding remaining_def pl by (simp add: DataConsumed_def u) (simp add: add.commute)
qed

lemma DataConsumed_header [simp]:
  "payload (DataConsumed n p) = payload p" "PType (DataConsumed n p) = PType p"
  "FMessageNumber (DataConsumed n p) = FMessageNumber p" "FReservedBy (DataConsumed n p) = FReservedBy p"
  "FCodePage (DataConsumed n p) = FCodePage p" "FLength (DataConsumed n p) = FLength p"
  "FCapacity (DataConsumed n p) = FCapacity p" "FData (DataConsumed n p) = FData p"
  by (simp_all add: payload_def DataConsumed_def split: option.split)

lemma GetByte_conv:
  "packet_ok p \<Longrightarrow>
     GetByte p = (if remaining p = [] then Inl EPacketTooSmall else Inr (hd (remaining p), DataConsumed 1 p))"
  by (cases "remaining p") (simp_all add: GetByte_def Need_conv peek_bytes_conv)

lemma GetCardinal_conv:
  "packet_ok p \<Longrightarrow>
     GetCardinal p = (if length (remaining p) < 4 then Inl EPacketTooSmall
                      else Inr (GET_32BIT (take 4 (remaining p)), DataConsumed 4 p))"
  by (simp add: GetCardinal_def PeekCardinal_def Need_conv peek_bytes_conv)

lemma GetRawByteString_conv:
  assumes "packet_ok p"
  shows "GetRawByteString p =
     (if length (remaining p) < 4 then Inl EPacketTooSmall
      else let len = GET_32BIT (take 4 (remaining p))
           in if length (remaining p) < 4 + unat len then Inl EPacketTooSmall
              else Inr (take (unat len) (drop 4 (remaining p)), DataConsumed len (DataConsumed 4 p)))"
proof (cases "length (remaining p) < 4")
  case True
  then show ?thesis using assms by (simp add: GetRawByteString_def GetCardinal_conv)
next
  case False
  then have ok: "packet_ok (DataConsumed 4 p)" "remaining (DataConsumed 4 p) = drop 4 (remaining p)"
    using DataConsumed_ok [OF assms, of 4] by simp_all
  show ?thesis using assms False
    by (auto simp: GetRawByteString_def GetCardinal_conv Need_conv [OF ok(1)] ok(2) Let_def
        peek_bytes_conv [OF ok(1)])
qed

section \<open>Encodings\<close>

lemma GET_PUT_append [simp]: "GET_32BIT (PUT_32BIT v @ xs) = v"
proof (rule bit_word_eqI)
  fix n
  assume "n < LENGTH(32)"
  then have "n < 8 \<or> 8 \<le> n \<and> n < 16 \<or> 16 \<le> n \<and> n < 24 \<or> 24 \<le> n \<and> n < 32" by simp linarith
  then show "bit (GET_32BIT (PUT_32BIT v @ xs)) n = bit v n"
    by (elim disjE) (auto simp: GET_32BIT_def PUT_32BIT_def bit_simps)
qed

lemma GET_PUT_32BIT [simp]: "GET_32BIT (PUT_32BIT v) = v"
  using GET_PUT_append [of v "[]"] by simp

lemma length_PUT_32BIT [simp]: "length (PUT_32BIT v) = 4"
  by (simp add: PUT_32BIT_def)

lemma int64_split:
  "push_bit 32 (ucast (ucast (signed_drop_bit 32 (v :: s64)) :: u32)) +
     ucast (ucast (v AND 0xFFFFFFFF) :: u32) = v"
proof -
  have m: "(0xFFFFFFFF :: s64) = mask 32" by (simp add: mask_eq_exp_minus_1)
  let ?hi = "push_bit 32 (ucast (ucast (signed_drop_bit 32 v) :: u32)) :: s64"
  let ?lo = "ucast (ucast (v AND mask 32) :: u32) :: s64"
  have "?hi AND ?lo = 0" by (rule bit_word_eqI) (auto simp: bit_simps)
  then have "?hi + ?lo = ?hi OR ?lo" by (simp add: disjunctive_add_eq_or)
  also have "\<dots> = v"
  proof (rule bit_word_eqI)
    show "bit (?hi OR ?lo) n = bit v n" if "n < LENGTH(64)" for n
      using that by (cases "n < 32") (auto simp: bit_simps)
  qed
  finally show ?thesis unfolding m .
qed

text \<open>
  The contract of a value that can be appended to a packet and read back from it: appending adds its
  encoding at the end, and reading takes an encoding off what is left, or fails without it.
\<close>

definition reading :: "TSFTPPacket \<Rightarrow> u32 \<Rightarrow> u32 \<Rightarrow> u8 list \<Rightarrow> bool" where
  "reading p t cp bs \<longleftrightarrow> packet_ok p \<and> PType p = t \<and> FCodePage p = cp \<and> remaining p = bs"

definition adds :: "u32 \<Rightarrow> (TSFTPPacket \<Rightarrow> TSFTPPacket res) \<Rightarrow> u8 list \<Rightarrow> bool" where
  "adds cp f xs \<longleftrightarrow>
     (\<forall>p. packet_ok p \<and> FCodePage p = cp \<and> room p (length xs) \<longrightarrow>
        (\<exists>p'. f p = Inr p' \<and> packet_ok p' \<and> payload p' = payload p @ xs \<and> same_header p p'))"

lemma room_append: "packet_ok p \<Longrightarrow> packet_ok q \<Longrightarrow> payload q = payload p @ xs \<Longrightarrow>
    room p (length xs + n) \<Longrightarrow> room q n"
  using length_payload [of p] length_payload [of q] by (simp add: room_def)

lemma adds_rbind:
  assumes "adds cp f xs" "adds cp g ys"
  shows "adds cp (\<lambda>p. rbind (f p) g) (xs @ ys)"
  unfolding adds_def
proof (intro allI impI, elim conjE)
  fix p
  assume p: "packet_ok p" "FCodePage p = cp" "room p (length (xs @ ys))"
  have "room p (length xs)" using p(3) by (simp add: room_def)
  then obtain q where q: "f p = Inr q" "packet_ok q" "payload q = payload p @ xs" "same_header p q"
    using assms(1) p unfolding adds_def by blast
  have "room q (length ys)" using room_append [OF p(1) q(2,3)] p(3) by simp
  moreover have "FCodePage q = cp" using q(4) p(2) by (simp add: same_header_def)
  ultimately obtain r where "g q = Inr r" "packet_ok r" "payload r = payload q @ ys" "same_header q r"
    using assms(2) q(2) unfolding adds_def by blast
  then show "\<exists>p'. rbind (f p) g = Inr p' \<and> packet_ok p' \<and> payload p' = payload p @ xs @ ys \<and> same_header p p'"
    using q same_header_trans by auto
qed

definition yields :: "u32 \<Rightarrow> u32 \<Rightarrow> u8 list \<Rightarrow> (TSFTPPacket \<Rightarrow> 'r res) \<Rightarrow> (TSFTPPacket \<Rightarrow> 'r) \<Rightarrow> bool" where
  "yields t cp xs g mk \<longleftrightarrow>
     (\<forall>p ys. reading p t cp (xs @ ys) \<longrightarrow> (\<exists>p'. g p = Inr (mk p') \<and> reading p' t cp ys))"

lemma yields_rbind:
  assumes "yields t cp xs g mk" "yields t cp zs (\<lambda>p. k (mk p)) mk'"
  shows "yields t cp (xs @ zs) (\<lambda>p. rbind (g p) k) mk'"
  using assms unfolding yields_def by fastforce

lemma yields_step:
  "yields t cp xs g (Pair x) \<Longrightarrow> yields t cp zs (h x) mk \<Longrightarrow>
     yields t cp (xs @ zs) (\<lambda>p. rbind (g p) (\<lambda>(v, p). h v p)) mk"
  using yields_rbind [of t cp xs g "Pair x" zs "\<lambda>(v, p). h v p" mk] by simp

lemma yields_step3:
  "yields t cp xs g (\<lambda>p. (x, y, p)) \<Longrightarrow> yields t cp zs (h x y) mk \<Longrightarrow>
     yields t cp (xs @ zs) (\<lambda>p. rbind (g p) (\<lambda>(v, w, p). h v w p)) mk"
  using yields_rbind [of t cp xs g "\<lambda>p. (x, y, p)" zs "\<lambda>(v, w, p). h v w p" mk] by simp

lemma yields_eq:
  "yields t cp xs g mk \<Longrightarrow> xs = xs' \<Longrightarrow> (\<And>p. mk p = mk' p) \<Longrightarrow> yields t cp xs' g mk'"
  by (metis ext)

lemma yields_type:
  "yields t cp xs g' mk \<Longrightarrow> (\<And>p. PType p = t \<Longrightarrow> g p = g' p) \<Longrightarrow> yields t cp xs g mk"
  by (auto simp: yields_def reading_def)

lemma yields_return: "yields t cp [] (\<lambda>p. Inr (mk p)) mk"
  by (auto simp: yields_def)

locale packet_codec =
  fixes enc :: "'a \<Rightarrow> u8 list" and add :: "'a \<Rightarrow> TSFTPPacket \<Rightarrow> TSFTPPacket res"
    and get :: "TSFTPPacket \<Rightarrow> ('a \<times> TSFTPPacket) res" and valid :: "'a \<Rightarrow> bool"
  assumes add_ok: "packet_ok p \<Longrightarrow> valid x \<Longrightarrow> room p (length (enc x)) \<Longrightarrow>
      \<exists>p'. add x p = Inr p' \<and> packet_ok p' \<and> payload p' = payload p @ enc x \<and> same_header p p'"
    and get_enc: "packet_ok p \<Longrightarrow> valid x \<Longrightarrow> remaining p = enc x @ ys \<Longrightarrow>
      \<exists>p'. get p = Inr (x, p') \<and> packet_ok p' \<and> remaining p' = ys \<and> payload p' = payload p \<and>
        PType p' = PType p \<and> FMessageNumber p' = FMessageNumber p \<and> FReservedBy p' = FReservedBy p \<and>
        FCodePage p' = FCodePage p"
    and get_safe: "packet_ok p \<Longrightarrow> get p \<noteq> Inl EUndefinedBehaviour"
begin

lemma add_remaining:
  assumes "packet_ok p" "valid x" "room p (length (enc x))"
  shows "\<exists>p'. add x p = Inr p' \<and> packet_ok p' \<and> remaining p' = remaining p @ enc x"
proof -
  obtain p' where p': "add x p = Inr p'" "packet_ok p'" "payload p' = payload p @ enc x" "same_header p p'"
    using add_ok [OF assms] by blast
  moreover have "unat (FPosition p) \<le> length (payload p)"
    using assms(1) by (simp add: length_payload) (simp add: packet_ok_def word_le_nat_alt)
  ultimately show ?thesis by (simp add: remaining_def same_header_def)
qed

lemma round_trip:
  assumes "packet_ok p" "valid x" "room p (length (enc x))" "remaining p = []"
  shows "\<exists>p' p''. add x p = Inr p' \<and> get p' = Inr (x, p'') \<and> remaining p'' = []"
proof -
  obtain p' where p': "add x p = Inr p'" "packet_ok p'" "remaining p' = enc x @ []"
    using add_remaining [OF assms(1-3)] assms(4) by auto
  then show ?thesis using get_enc [OF p'(2) assms(2) p'(3)] by blast
qed

lemma get_reading:
  assumes "reading p t cp (enc x @ ys)" "valid x"
  shows "\<exists>p'. get p = Inr (x, p') \<and> reading p' t cp ys"
  using get_enc [of p x ys] assms by (auto simp: reading_def)

lemma get_if_reading:
  assumes "reading p t cp ((if b then enc x else []) @ ys)" "b \<Longrightarrow> valid x"
  shows "\<exists>p'. get_if b get p = Inr (if b then Some x else None, p') \<and> reading p' t cp ys"
  using get_reading [of p t cp x ys] assms by (cases b) (auto simp: get_if_def)

lemma yields_get: "valid x \<Longrightarrow> yields t cp (enc x) get (Pair x)"
  using get_reading unfolding yields_def by blast

lemma yields_get_if:
  "(b \<Longrightarrow> valid x) \<Longrightarrow> yields t cp (if b then enc x else []) (get_if b get) (Pair (if b then Some x else None))"
  using get_if_reading unfolding yields_def by blast

lemma adds_add: "valid x \<Longrightarrow> adds cp (add x) (enc x)"
  using add_ok unfolding adds_def by blast

lemma adds_add_if: "(b \<Longrightarrow> valid x) \<Longrightarrow> adds cp (add_if b (add x)) (if b then enc x else [])"
  using adds_add [of x cp] by (cases b) (simp_all add: adds_def add_if_def)

end

lemma remaining_header:
  "remaining (p\<lparr>PType := t\<rparr>) = remaining p" "packet_ok (p\<lparr>PType := t\<rparr>) = packet_ok p"
  "remaining (p\<lparr>FMessageNumber := n\<rparr>) = remaining p" "packet_ok (p\<lparr>FMessageNumber := n\<rparr>) = packet_ok p"
  by (simp_all add: remaining_def payload_def packet_ok_def split: option.split)

interpretation byte: packet_codec "\<lambda>b. [b]" AddByte GetByte "\<lambda>_. True"
proof
  fix p :: TSFTPPacket and x :: u8 and ys
  assume ok: "packet_ok p"
  show "\<exists>p'. AddByte x p = Inr p' \<and> packet_ok p' \<and> payload p' = payload p @ [x] \<and> same_header p p'"
    if "room p (length [x])" using Packet_Add_ok [OF ok that] by (simp add: AddByte_def)
  show "\<exists>p'. GetByte p = Inr (x, p') \<and> packet_ok p' \<and> remaining p' = ys \<and> payload p' = payload p \<and>
        PType p' = PType p \<and> FMessageNumber p' = FMessageNumber p \<and> FReservedBy p' = FReservedBy p \<and>
        FCodePage p' = FCodePage p" if "remaining p = [x] @ ys"
    using that DataConsumed_ok [OF ok, of 1] by (simp add: GetByte_conv [OF ok])
  show "GetByte p \<noteq> Inl EUndefinedBehaviour" using ok by (simp add: GetByte_conv)
qed

interpretation cardinal: packet_codec PUT_32BIT AddCardinal GetCardinal "\<lambda>_. True"
proof
  fix p :: TSFTPPacket and x :: u32 and ys
  assume ok: "packet_ok p"
  show "\<exists>p'. AddCardinal x p = Inr p' \<and> packet_ok p' \<and> payload p' = payload p @ PUT_32BIT x \<and> same_header p p'"
    if "room p (length (PUT_32BIT x))" using Packet_Add_ok [OF ok that] by (simp add: AddCardinal_def)
  show "\<exists>p'. GetCardinal p = Inr (x, p') \<and> packet_ok p' \<and> remaining p' = ys \<and> payload p' = payload p \<and>
        PType p' = PType p \<and> FMessageNumber p' = FMessageNumber p \<and> FReservedBy p' = FReservedBy p \<and>
        FCodePage p' = FCodePage p" if "remaining p = PUT_32BIT x @ ys"
    using that DataConsumed_ok [OF ok, of 4] by (simp add: GetCardinal_conv [OF ok])
  show "GetCardinal p \<noteq> Inl EUndefinedBehaviour" using ok by (simp add: GetCardinal_conv)
qed

interpretation int64: packet_codec
  "\<lambda>v. PUT_32BIT (ucast (signed_drop_bit 32 v)) @ PUT_32BIT (ucast (v AND 0xFFFFFFFF))" AddInt64 GetInt64 "\<lambda>_. True"
proof
  fix p :: TSFTPPacket and x :: s64 and ys
  let ?hi = "ucast (signed_drop_bit 32 x) :: u32" and ?lo = "ucast (x AND 0xFFFFFFFF) :: u32"
  assume ok: "packet_ok p"
  show "\<exists>p'. AddInt64 x p = Inr p' \<and> packet_ok p' \<and>
      payload p' = payload p @ PUT_32BIT ?hi @ PUT_32BIT ?lo \<and> same_header p p'"
    if r: "room p (length (PUT_32BIT ?hi @ PUT_32BIT ?lo))"
  proof -
    have "room p 4" using r by (simp add: room_def)
    then obtain q where q: "AddCardinal ?hi p = Inr q" "packet_ok q" "payload q = payload p @ PUT_32BIT ?hi"
      "same_header p q" using cardinal.add_ok [OF ok, of ?hi] by auto
    have "unat (FLength q) = unat (FLength p) + 4"
      using length_payload [OF ok] length_payload [OF q(2)] q(3) by simp
    then have "room q 4" using r by (simp add: room_def)
    then show ?thesis using cardinal.add_ok [OF q(2), of ?lo] q by (auto simp: AddInt64_def intro: same_header_trans)
  qed
  show "\<exists>p'. GetInt64 p = Inr (x, p') \<and> packet_ok p' \<and> remaining p' = ys \<and> payload p' = payload p \<and>
        PType p' = PType p \<and> FMessageNumber p' = FMessageNumber p \<and> FReservedBy p' = FReservedBy p \<and>
        FCodePage p' = FCodePage p"
    if rem: "remaining p = (PUT_32BIT ?hi @ PUT_32BIT ?lo) @ ys"
  proof -
    have rem': "remaining p = PUT_32BIT ?hi @ (PUT_32BIT ?lo @ ys)" using rem unfolding append_assoc .
    obtain q where q: "GetCardinal p = Inr (?hi, q)" "packet_ok q" "remaining q = PUT_32BIT ?lo @ ys"
      "payload q = payload p" "PType q = PType p" "FMessageNumber q = FMessageNumber p"
      "FReservedBy q = FReservedBy p" "FCodePage q = FCodePage p"
      using cardinal.get_enc [OF ok TrueI rem'] by blast
    then show ?thesis using cardinal.get_enc [OF q(2) _ q(3)] int64_split [of x] by (auto simp: GetInt64_def)
  qed
  show "GetInt64 p \<noteq> Inl EUndefinedBehaviour"
    using ok DataConsumed_ok(1) [OF ok, of 4] by (auto simp: GetInt64_def GetCardinal_conv)
qed

definition string_enc :: "u8 list \<Rightarrow> u8 list" where
  "string_enc s = PUT_32BIT (of_nat (length s)) @ s"

interpretation bytes: packet_codec string_enc AddString GetRawByteString "\<lambda>s. length s < 2 ^ 32"
proof
  fix p :: TSFTPPacket and x :: "u8 list" and ys
  let ?n = "of_nat (length x) :: u32"
  assume ok: "packet_ok p"
  show "\<exists>p'. AddString x p = Inr p' \<and> packet_ok p' \<and> payload p' = payload p @ string_enc x \<and> same_header p p'"
    if r: "room p (length (string_enc x))"
  proof -
    have "room p 4" using r by (simp add: room_def string_enc_def)
    then obtain q where q: "AddCardinal ?n p = Inr q" "packet_ok q" "payload q = payload p @ PUT_32BIT ?n"
      "same_header p q" using cardinal.add_ok [OF ok, of ?n] by auto
    have "unat (FLength q) = unat (FLength p) + 4"
      using length_payload [OF ok] length_payload [OF q(2)] q(3) by simp
    then have "room q (length x)" using r by (simp add: room_def string_enc_def)
    then show ?thesis using Packet_Add_ok [OF q(2), of x] q
      by (auto simp: AddString_def string_enc_def intro: same_header_trans)
  qed
  show "\<exists>p'. GetRawByteString p = Inr (x, p') \<and> packet_ok p' \<and> remaining p' = ys \<and> payload p' = payload p \<and>
        PType p' = PType p \<and> FMessageNumber p' = FMessageNumber p \<and> FReservedBy p' = FReservedBy p \<and>
        FCodePage p' = FCodePage p"
    if l: "length x < 2 ^ 32" and rem: "remaining p = string_enc x @ ys"
  proof -
    have n: "unat ?n = length x" using l by (simp add: unat_of_nat)
    have q: "packet_ok (DataConsumed 4 p)" "remaining (DataConsumed 4 p) = x @ ys"
      using DataConsumed_ok [OF ok, of 4] rem by (simp_all add: string_enc_def)
    show ?thesis
      using rem n DataConsumed_ok [OF q(1), of ?n] q(2)
      by (simp add: GetRawByteString_conv [OF ok] string_enc_def Let_def)
  qed
  show "GetRawByteString p \<noteq> Inl EUndefinedBehaviour"
    using ok by (simp add: GetRawByteString_conv Let_def)
qed

section \<open>File attributes written and read\<close>

text \<open>Text in the code page of the packet.\<close>

definition text_enc :: "(u32 \<Rightarrow> ustring \<Rightarrow> u8 list) \<Rightarrow> u32 \<Rightarrow> ustring \<Rightarrow> u8 list" where
  "text_enc W2MB cp s = takeWhile (\<lambda>b. b \<noteq> 0) (W2MB cp s)"

definition text_codable :: "(u32 \<Rightarrow> ustring \<Rightarrow> u8 list) \<Rightarrow> (u32 \<Rightarrow> u8 list \<Rightarrow> ustring) \<Rightarrow> u32 \<Rightarrow> ustring \<Rightarrow> bool" where
  "text_codable W2MB MB2W cp s \<longleftrightarrow> MB2W cp (text_enc W2MB cp s) = s \<and> length (text_enc W2MB cp s) < 2 ^ 32"

lemma text_get_if_reading:
  assumes "reading p t cp ((if b then string_enc (text_enc W2MB cp s) else []) @ ys)"
    "b \<Longrightarrow> text_codable W2MB MB2W cp s"
  shows "\<exists>p'. get_if b (GetStringW MB2W) p = Inr (if b then Some s else None, p') \<and> reading p' t cp ys"
proof (cases b)
  case True
  then obtain p' where "GetRawByteString p = Inr (text_enc W2MB cp s, p')" "reading p' t cp ys"
    using bytes.get_reading [of p t cp "text_enc W2MB cp s" ys] assms by (auto simp: text_codable_def)
  moreover have tw: "takeWhile (\<lambda>b. b \<noteq> 0) (text_enc W2MB cp s) = text_enc W2MB cp s"
    by (simp add: text_enc_def)
  moreover have cp: "FCodePage p = cp" using assms(1) by (simp add: reading_def)
  moreover have "MB2W cp (text_enc W2MB cp s) = s" using True assms(2) by (simp add: text_codable_def)
  ultimately show ?thesis using True unfolding get_if_def GetStringW_def by (simp only: cp tw rbind_simps case_prod_conv) simp
next
  case False
  then show ?thesis using assms by (simp add: get_if_def)
qed

lemma adds_text_if:
  assumes "b \<Longrightarrow> length (text_enc W2MB cp s) < 2 ^ 32"
  shows "adds cp (add_if b (AddStringW W2MB s)) (if b then string_enc (text_enc W2MB cp s) else [])"
  using bytes.adds_add [of "text_enc W2MB cp s" cp] assms
  by (cases b) (auto simp: adds_def add_if_def AddStringW_def text_enc_def)

text \<open>The bytes of the attributes.\<close>

definition properties_enc ::
  "(u32 \<Rightarrow> ustring \<Rightarrow> u8 list) \<Rightarrow> u32 \<Rightarrow> u16 option \<Rightarrow> TRemoteToken option \<Rightarrow> TRemoteToken option \<Rightarrow>
     s64 option \<Rightarrow> s64 option \<Rightarrow> s64 option \<Rightarrow> bool \<Rightarrow> int \<Rightarrow> u8 list" where
  "properties_enc W2MB cp rights owner grp mtime atime aSize isDirectory version =
     (let og = (owner \<noteq> None \<and> grp \<noteq> None);
          int64 = (\<lambda>v. PUT_32BIT (ucast (signed_drop_bit 32 v)) @ PUT_32BIT (ucast (v AND 0xFFFFFFFF)));
          aTime32 = (case atime of Some a \<Rightarrow> a | None \<Rightarrow> (case mtime of Some m \<Rightarrow> m | None \<Rightarrow> 0));
          mTime32 = (case mtime of Some m \<Rightarrow> m | None \<Rightarrow> (case atime of Some a \<Rightarrow> a | None \<Rightarrow> 0));
          times = (version < 4 \<and> (mtime \<noteq> None \<or> atime \<noteq> None))
      in PUT_32BIT (properties_flags (rights \<noteq> None) og (mtime \<noteq> None) (atime \<noteq> None) (aSize \<noteq> None) version) @
         (if version \<ge> 4 then [if isDirectory then SSH_FILEXFER_TYPE_DIRECTORY else SSH_FILEXFER_TYPE_REGULAR] else []) @
         (if aSize \<noteq> None then int64 (the aSize) else []) @
         (if og \<and> version < 4 then PUT_32BIT (word_of_int (FID (the owner))) else []) @
         (if og \<and> version < 4 then PUT_32BIT (word_of_int (FID (the grp))) else []) @
         (if og \<and> version \<ge> 4 then string_enc (text_enc W2MB cp (FName (the owner))) else []) @
         (if og \<and> version \<ge> 4 then string_enc (text_enc W2MB cp (FName (the grp))) else []) @
         (if rights \<noteq> None then PUT_32BIT (ucast (the rights)) else []) @
         (if times then PUT_32BIT (ucast aTime32) else []) @
         (if times then PUT_32BIT (ucast mTime32) else []) @
         (if version \<ge> 4 \<and> atime \<noteq> None then int64 (the atime) else []) @
         (if version \<ge> 4 \<and> mtime \<noteq> None then int64 (the mtime) else []))"

lemma adds_AddProperties:
  assumes "owner \<noteq> None \<Longrightarrow> grp \<noteq> None \<Longrightarrow> length (text_enc W2MB cp (FName (the owner))) < 2 ^ 32 \<and>
      length (text_enc W2MB cp (FName (the grp))) < 2 ^ 32"
  shows "adds cp (AddProperties W2MB rights owner grp mtime atime aSize isDirectory version)
    (properties_enc W2MB cp rights owner grp mtime atime aSize isDirectory version)"
  unfolding AddProperties_def [abs_def] properties_enc_def Let_def
  by (intro adds_rbind cardinal.adds_add byte.adds_add_if int64.adds_add_if cardinal.adds_add_if
      adds_text_if TrueI) (use assms in auto)

lemma yields_text_if:
  "(b \<Longrightarrow> text_codable W2MB MB2W cp s) \<Longrightarrow>
     yields t cp (if b then string_enc (text_enc W2MB cp s) else []) (get_if b (GetStringW MB2W))
       (Pair (if b then Some s else None))"
  using text_get_if_reading unfolding yields_def by blast

text \<open>Which flags \<open>AddProperties\<close> announces.\<close>

lemma has_flag_or: "has_flag (a OR b) f \<longleftrightarrow> has_flag a f \<or> has_flag b f"
  by (simp add: has_flag_def bit_eq_iff bit_simps) blast

lemma has_flag_add_flag:
  "has_flag (add_flag b f flags) g \<longleftrightarrow> has_flag flags g \<or> (b \<and> has_flag f g)"
  by (simp add: add_flag_def has_flag_or)

lemma has_flag_0: "\<not> has_flag 0 f"
  by (simp add: has_flag_def)

lemma has_flag_properties:
  "has_flag (properties_flags r og m a sz v) f \<longleftrightarrow>
     (sz \<and> has_flag (if v \<ge> 6 then 0x400 else 1) f) \<or> (og \<and> has_flag (if v < 4 then 2 else 0x80) f) \<or>
     (r \<and> has_flag 4 f) \<or> (v < 4 \<and> (m \<or> a) \<and> has_flag 8 f) \<or> (v \<ge> 4 \<and> a \<and> has_flag 8 f) \<or>
     (v \<ge> 4 \<and> m \<and> has_flag 0x20 f)"
  by (simp add: properties_flags_def has_flag_add_flag has_flag_0 AllocationSizeAttribute_def)

lemma properties_flag_tests:
  "has_flag (properties_flags r og m a sz v) SSH_FILEXFER_ATTR_SIZE \<longleftrightarrow> sz \<and> v < 6"
  "has_flag (properties_flags r og m a sz v) SSH_FILEXFER_ATTR_ALLOCATION_SIZE \<longleftrightarrow> sz \<and> v \<ge> 6"
  "has_flag (properties_flags r og m a sz v) SSH_FILEXFER_ATTR_UIDGID \<longleftrightarrow> og \<and> v < 4"
  "has_flag (properties_flags r og m a sz v) SSH_FILEXFER_ATTR_OWNERGROUP \<longleftrightarrow> og \<and> v \<ge> 4"
  "has_flag (properties_flags r og m a sz v) SSH_FILEXFER_ATTR_PERMISSIONS \<longleftrightarrow> r"
  "has_flag (properties_flags r og m a sz v) SSH_FILEXFER_ATTR_ACMODTIME \<longleftrightarrow> (if v < 4 then m \<or> a else a)"
  "has_flag (properties_flags r og m a sz v) SSH_FILEXFER_ATTR_MODIFYTIME \<longleftrightarrow> v \<ge> 4 \<and> m"
  "\<not> has_flag (properties_flags r og m a sz v) SSH_FILEXFER_ATTR_CREATETIME"
  "\<not> has_flag (properties_flags r og m a sz v) SSH_FILEXFER_ATTR_ACL"
  "\<not> has_flag (properties_flags r og m a sz v) SSH_FILEXFER_ATTR_SUBSECOND_TIMES"
  "\<not> has_flag (properties_flags r og m a sz v) SSH_FILEXFER_ATTR_BITS"
  "\<not> has_flag (properties_flags r og m a sz v) SSH_FILEXFER_ATTR_TEXT_HINT"
  "\<not> has_flag (properties_flags r og m a sz v) SSH_FILEXFER_ATTR_MIME_TYPE"
  "\<not> has_flag (properties_flags r og m a sz v) SSH_FILEXFER_ATTR_LINK_COUNT"
  "\<not> has_flag (properties_flags r og m a sz v) SSH_FILEXFER_ATTR_UNTRANSLATED_NAME"
  "\<not> has_flag (properties_flags r og m a sz v) SSH_FILEXFER_ATTR_CTIME"
  "\<not> has_flag (properties_flags r og m a sz v) SSH_FILEXFER_ATTR_EXTENDED"
  unfolding has_flag_properties by (auto simp: has_flag_def)

lemma properties_permissions_flag:
  "properties_flags r og m a sz v AND SSH_FILEXFER_ATTR_PERMISSIONS = SSH_FILEXFER_ATTR_PERMISSIONS \<longleftrightarrow> r"
proof -
  have "(w :: u32) AND 4 = 4 \<longleftrightarrow> w AND 4 \<noteq> 0" for w
  proof -
    have "w AND 2 ^ 2 \<noteq> 0 \<longleftrightarrow> bit w 2" using and_exp_eq_0_iff_not_bit [of w 2] by blast
    moreover have "w AND 2 ^ 2 = 2 ^ 2 \<longleftrightarrow> bit w 2"
      unfolding bit_eq_iff [of "w AND 2 ^ 2"] bit_and_iff bit_exp_iff by (auto dest: spec [of _ 2])
    ultimately show ?thesis by simp
  qed
  then show ?thesis using properties_flag_tests(5) [of r og m a sz v] by (simp add: has_flag_def)
qed

text \<open>What a file gets from attributes that were written with \<open>AddProperties\<close>.\<close>

definition apply_properties ::
  "(int \<Rightarrow> 't) \<Rightarrow> bool \<Rightarrow> u16 option \<Rightarrow> TRemoteToken option \<Rightarrow> TRemoteToken option \<Rightarrow> s64 option \<Rightarrow> s64 option \<Rightarrow>
     s64 option \<Rightarrow> bool \<Rightarrow> int \<Rightarrow> 't TRemoteFile \<Rightarrow> 't TRemoteFile" where
  "apply_properties UnixToDateTime signedTS rights owner grp mtime atime aSize isDirectory version f =
     (let og = (owner \<noteq> None \<and> grp \<noteq> None);
          atime32 = (if atime = None then mtime else atime);
          mtime32 = (if mtime = None then atime else mtime);
          f = (if version \<ge> 4 then SetType (if isDirectory then FILETYPE_DIRECTORY else FILETYPE_DEFAULT) f else f);
          f = (if version < 6 then set_if aSize (\<lambda>v f. f\<lparr>FSize := sint v\<rparr>) f else f);
          f = (if og then
                 (if version < 4 then f\<lparr>FOwner := SetID (FID (the owner)) (FOwner f), FGroup := SetID (FID (the grp)) (FGroup f)\<rparr>
                  else f\<lparr>FOwner := SetName (FName (the owner)) (FOwner f), FGroup := SetName (FName (the grp)) (FGroup f)\<rparr>)
               else f);
          f = (if version < 4
               then set_if mtime32 (\<lambda>v. SetModification (UnixToDateTime (time32 signedTS (ucast v))))
                      (set_if atime32 (\<lambda>v f. f\<lparr>FLastAccess := UnixToDateTime (time32 signedTS (ucast v))\<rparr>) f)
               else set_if mtime (\<lambda>v. SetModification (UnixToDateTime (sint v)))
                      (set_if atime (\<lambda>v f. f\<lparr>FLastAccess := UnixToDateTime (sint v)\<rparr>) f));
          f = set_if rights (\<lambda>v f. f\<lparr>FRights := SetNumber (v AND 0xFFF) (FRights f)\<rparr>) f
      in if version < 4
         then SetType (if rights \<noteq> None \<and> the rights AND 0x4000 = 0x4000 then FILETYPE_DIRECTORY else FILETYPE_DEFAULT) f
         else f)"

lemma sint_word_of_int32: "- (2 ^ 31) \<le> i \<Longrightarrow> i < 2 ^ 31 \<Longrightarrow> sint (word_of_int i :: u32) = i"
  using signed_take_bit_int_eq_self [of 31 i] by (simp add: sint_sbintrunc')

abbreviation int64_enc :: "s64 \<Rightarrow> u8 list" where
  "int64_enc v \<equiv> PUT_32BIT (ucast (signed_drop_bit 32 v)) @ PUT_32BIT (ucast (v AND 0xFFFFFFFF))"

lemma if_split_append: "(if b then xs else []) = (if b \<and> c then xs else []) @ (if b \<and> \<not> c then xs else [])"
  by simp

lemma yields_file_owner:
  assumes "og \<Longrightarrow> version \<ge> 4 \<Longrightarrow>
      text_codable W2MB MB2W cp (FName (the owner)) \<and> text_codable W2MB MB2W cp (FName (the grp))"
    and flags: "flags = properties_flags (rights \<noteq> None) og m a (aSize \<noteq> None) version"
  shows "yields t cp
    ((if aSize \<noteq> None then int64_enc (the aSize) else []) @
     (if og \<and> version < 4 then PUT_32BIT (word_of_int (FID (the owner))) else []) @
     (if og \<and> version < 4 then PUT_32BIT (word_of_int (FID (the grp))) else []) @
     (if og \<and> version \<ge> 4 then string_enc (text_enc W2MB cp (FName (the owner))) else []) @
     (if og \<and> version \<ge> 4 then string_enc (text_enc W2MB cp (FName (the grp))) else []) @
     (if rights \<noteq> None then PUT_32BIT (ucast (the rights)) else []))
    (\<lambda>p. get_file_owner MB2W version flags p f)
    (\<lambda>p. (case rights of None \<Rightarrow> 0 | Some r \<Rightarrow> ucast r,
       (let f = (if version < 6 then set_if aSize (\<lambda>v f. f\<lparr>FSize := sint v\<rparr>) f else f)
        in if og then
             (if version < 4 then f\<lparr>FOwner := SetID (sint (word_of_int (FID (the owner)) :: u32)) (FOwner f),
                FGroup := SetID (sint (word_of_int (FID (the grp)) :: u32)) (FGroup f)\<rparr>
              else f\<lparr>FOwner := SetName (FName (the owner)) (FOwner f), FGroup := SetName (FName (the grp)) (FGroup f)\<rparr>)
           else f), p))"
proof -
  have codable: "og \<and> version \<ge> 4 \<Longrightarrow> text_codable W2MB MB2W cp (FName (the owner))"
    "og \<and> version \<ge> 4 \<Longrightarrow> text_codable W2MB MB2W cp (FName (the grp))"
    using assms(1) by auto
  show ?thesis
    apply (rule yields_eq [where xs = "(if aSize \<noteq> None \<and> version < 6 then int64_enc (the aSize) else []) @
       (if aSize \<noteq> None \<and> version \<ge> 6 then int64_enc (the aSize) else []) @
       (if og \<and> version < 4 then PUT_32BIT (word_of_int (FID (the owner))) else []) @
       (if og \<and> version < 4 then PUT_32BIT (word_of_int (FID (the grp))) else []) @
       (if og \<and> version \<ge> 4 then string_enc (text_enc W2MB cp (FName (the owner))) else []) @
       (if og \<and> version \<ge> 4 then string_enc (text_enc W2MB cp (FName (the grp))) else []) @
       (if rights \<noteq> None then PUT_32BIT (ucast (the rights)) else []) @ []"])
      apply (unfold get_file_owner_def flags properties_flag_tests Let_def conj_assoc conj_absorb)
      apply ((rule yields_step, (rule int64.yields_get_if TrueI | rule cardinal.yields_get_if TrueI | rule yields_text_if, erule codable)+)+)[1]
      apply (rule yields_return)
     apply simp
    apply (cases "version < 4"; cases og; cases rights; cases aSize; simp add: set_if_def)
    done
qed

lemma yields_file_times:
  assumes flags: "flags = properties_flags r og (mtime \<noteq> None) (atime \<noteq> None) sz version"
  defines "a32 \<equiv> case atime of Some a \<Rightarrow> a | None \<Rightarrow> (case mtime of Some m \<Rightarrow> m | None \<Rightarrow> 0)"
    and "m32 \<equiv> case mtime of Some m \<Rightarrow> m | None \<Rightarrow> (case atime of Some a \<Rightarrow> a | None \<Rightarrow> 0)"
  shows "yields t cp
    ((if version < 4 \<and> (mtime \<noteq> None \<or> atime \<noteq> None) then PUT_32BIT (ucast a32) else []) @
     (if version < 4 \<and> (mtime \<noteq> None \<or> atime \<noteq> None) then PUT_32BIT (ucast m32) else []) @
     (if version \<ge> 4 \<and> atime \<noteq> None then int64_enc (the atime) else []) @
     (if version \<ge> 4 \<and> mtime \<noteq> None then int64_enc (the mtime) else []))
    (\<lambda>p. get_file_times UnixToDateTime signedTS version flags p f)
    (Pair (if version < 4
           then set_if (if mtime = None then atime else mtime) (\<lambda>v. SetModification (UnixToDateTime (time32 signedTS (ucast v))))
                  (set_if (if atime = None then mtime else atime)
                    (\<lambda>v f. f\<lparr>FLastAccess := UnixToDateTime (time32 signedTS (ucast v))\<rparr>) f)
           else set_if mtime (\<lambda>v. SetModification (UnixToDateTime (sint v)))
                  (set_if atime (\<lambda>v f. f\<lparr>FLastAccess := UnixToDateTime (sint v)\<rparr>) f)))"
proof -
  have tests: "version < 4 \<and> has_flag flags 8 \<longleftrightarrow> version < 4 \<and> (mtime \<noteq> None \<or> atime \<noteq> None)"
    "4 \<le> version \<and> has_flag flags 8 \<longleftrightarrow> 4 \<le> version \<and> atime \<noteq> None"
    "4 \<le> version \<and> has_flag flags 0x20 \<longleftrightarrow> 4 \<le> version \<and> mtime \<noteq> None"
    "has_flag flags 0x100 \<longleftrightarrow> False" "has_flag flags 0x10 \<longleftrightarrow> False" "has_flag flags 0x8000 \<longleftrightarrow> False"
    unfolding flags by (auto simp: properties_flag_tests)
  show ?thesis
    apply (rule yields_eq [where xs = "(if version < 4 \<and> (mtime \<noteq> None \<or> atime \<noteq> None) then PUT_32BIT (ucast a32) else []) @
     (if version < 4 \<and> (mtime \<noteq> None \<or> atime \<noteq> None) then PUT_32BIT (ucast m32) else []) @
     (if version \<ge> 4 \<and> atime \<noteq> None then int64_enc (the atime) else []) @
     (if version \<ge> 4 \<and> mtime \<noteq> None then int64_enc (the mtime) else []) @ []"])
      apply (unfold get_file_times_def Let_def tests)
      apply (simp only: get_if_def [of False] simp_thms if_False rbind_simps case_prod_conv)
      apply ((rule yields_step, (rule int64.yields_get_if TrueI | rule cardinal.yields_get_if TrueI)+)+)[1]
      apply (rule yields_return)
     apply simp
    apply (cases "version < 4"; cases mtime; cases atime; simp add: set_if_def a32_def m32_def)
    done
qed

lemma yields_file_rest:
  assumes flags: "flags = properties_flags r og m a sz version"
  shows "yields t cp [] (\<lambda>p. get_file_rest MB2W version flags p f) (Pair f)"
  unfolding get_file_rest_def Let_def flags by (simp add: properties_flag_tests get_if_def yields_return)

lemma rights_bits:
  fixes r :: u16
  shows "(ucast r :: u32) AND 0x4000 = 0x4000 \<longleftrightarrow> r AND 0x4000 = 0x4000"
    and "(ucast ((ucast r :: u32) AND 0xFFF) :: u16) = r AND 0xFFF"
proof -
  have "(ucast r :: u32) AND 0x4000 = ucast (r AND 0x4000)" by (simp add: unsigned_and_eq)
  moreover have "(0x4000 :: u32) = ucast (0x4000 :: u16)" by simp
  moreover have dd: "(ucast (ucast x :: u32) :: u16) = x" for x :: u16
    by (rule bit_word_eqI) (auto simp: bit_simps)
  ultimately show "(ucast r :: u32) AND 0x4000 = 0x4000 \<longleftrightarrow> r AND 0x4000 = 0x4000" by metis
  have "(ucast r :: u32) AND 0xFFF = ucast (r AND 0xFFF)" by (simp add: unsigned_and_eq)
  then show "(ucast ((ucast r :: u32) AND 0xFFF) :: u16) = r AND 0xFFF" by (simp only: dd)
qed

lemma yields_GetFile:
  assumes codable: "owner \<noteq> None \<Longrightarrow> grp \<noteq> None \<Longrightarrow> version \<ge> 4 \<Longrightarrow>
      text_codable W2MB MB2W cp (FName (the owner)) \<and> text_codable W2MB MB2W cp (FName (the grp))"
    and ids: "owner \<noteq> None \<Longrightarrow> grp \<noteq> None \<Longrightarrow> version < 4 \<Longrightarrow>
      FID (the owner) \<in> {- (2 ^ 31)..<2 ^ 31} \<and> FID (the grp) \<in> {- (2 ^ 31)..<2 ^ 31}"
  shows "yields SSH_FXP_ATTRS cp (properties_enc W2MB cp rights owner grp mtime atime aSize isDirectory version)
    (\<lambda>p. GetFile MB2W UnixToDateTime SetListingStr Complete version signedTS False p f)
    (Pair (apply_properties UnixToDateTime signedTS rights owner grp mtime atime aSize isDirectory version f))"
    (is "yields _ _ ?xs ?g ?mk")
proof -
  define og where "og = (owner \<noteq> None \<and> grp \<noteq> None)"
  define flags where "flags = properties_flags (rights \<noteq> None) og (mtime \<noteq> None) (atime \<noteq> None) (aSize \<noteq> None) version"
  define tb :: u8 where "tb = (if isDirectory then SSH_FILEXFER_TYPE_DIRECTORY else SSH_FILEXFER_TYPE_REGULAR)"
  define f1 where "f1 = (if version \<ge> 4 then SetType (if isDirectory then FILETYPE_DIRECTORY else FILETYPE_DEFAULT) f else f)"
  have og4: "og \<Longrightarrow> version \<ge> 4 \<Longrightarrow>
      text_codable W2MB MB2W cp (FName (the owner)) \<and> text_codable W2MB MB2W cp (FName (the grp))"
    using codable unfolding og_def by blast
  have ids': "sint (word_of_int (FID (the owner)) :: u32) = FID (the owner)"
    "sint (word_of_int (FID (the grp)) :: u32) = FID (the grp)" if og "version < 4"
    using ids that by (auto simp: og_def intro!: sint_word_of_int32)
  have names: "yields SSH_FXP_ATTRS cp [] (\<lambda>p. get_file_names MB2W version p f) (\<lambda>p. ([], f, p))"
    by (rule yields_type [OF yields_return]) (simp add: get_file_names_def)
  have ftyp: "(case if 4 \<le> version then Some tb else None of
           None \<Rightarrow> Inr f
         | Some t \<Rightarrow> if 10 < unat t then Inl EUnknownFileType else Inr (SetType (file_types ! unat t) f)) = Inr f1"
    by (simp add: tb_def f1_def file_types_def)
  note perm = properties_permissions_flag [of "rights \<noteq> None" og "mtime \<noteq> None" "atime \<noteq> None" "aSize \<noteq> None" version,
      folded flags_def]
  have no_ext: "has_flag flags SSH_FILEXFER_ATTR_EXTENDED \<longleftrightarrow> False"
    unfolding flags_def by (simp add: properties_flag_tests)
  show ?thesis
    apply (rule yields_eq)
      apply (unfold GetFile_def)
      apply (rule yields_step3 [OF names])
      apply (rule yields_step, rule cardinal.yields_get [where x = flags], rule TrueI)
      apply (rule yields_step, rule byte.yields_get_if [where x = tb], rule TrueI)
      apply (simp only: ftyp rbind_simps)
      apply (rule yields_step3, rule yields_file_owner [OF og4 flags_def], assumption, assumption)
      apply (rule yields_step, rule yields_file_times [OF flags_def])
      apply (rule yields_step, rule yields_file_rest [OF flags_def])
      apply (rule yields_type, rule yields_return)
      apply (simp add: perm no_ext get_if_def)
     apply (simp only: properties_enc_def Let_def og_def flags_def tb_def append_assoc append_Nil append_Nil2)
    apply (simp only: apply_properties_def Let_def flip: og_def f1_def)
    apply (cases "version < 4"; cases rights; cases og; simp add: set_if_def rights_bits sint_word_of_int32 ids' f1_def)
    done
qed

section \<open>Copying packets\<close>

lemma payload_header [simp]:
  "payload (p\<lparr>PType := t\<rparr>) = payload p" "payload (p\<lparr>FMessageNumber := n\<rparr>) = payload p"
  "payload (p\<lparr>FPosition := x\<rparr>) = payload p" "payload (p\<lparr>FReservedBy := b\<rparr>) = payload p"
  "payload (p\<lparr>FCodePage := cp\<rparr>) = payload p"
  by (simp_all add: payload_def split: option.split)

lemma packet_ok_header [simp]:
  "packet_ok (p\<lparr>PType := t\<rparr>) = packet_ok p" "packet_ok (p\<lparr>FMessageNumber := n\<rparr>) = packet_ok p"
  "packet_ok (p\<lparr>FReservedBy := b\<rparr>) = packet_ok p" "packet_ok (p\<lparr>FCodePage := cp\<rparr>) = packet_ok p"
  "packet_ok p \<Longrightarrow> packet_ok (p\<lparr>FPosition := 0\<rparr>)"
  by (simp_all add: packet_ok_def split: option.split option.splits)

lemma SetCapacity_position:
  "SetCapacity c (p\<lparr>FPosition := x\<rparr>) = rbind (SetCapacity c p) (\<lambda>q. Inr (q\<lparr>FPosition := x\<rparr>))"
proof (cases "c = FCapacity p")
  case False
  then show ?thesis by (cases p) (simp add: SetCapacity_def rbind_assoc cong: option.case_cong)
qed (simp add: SetCapacity_def)

lemma Packet_Add_position:
  "Packet_Add bs (p\<lparr>FPosition := x\<rparr>) = rbind (Packet_Add bs p) (\<lambda>q. Inr (q\<lparr>FPosition := x\<rparr>))"
proof -
  have r: "Inr (q\<lparr>FPosition := x, FData := d, FLength := n\<rparr>) = Inr (q\<lparr>FData := d, FLength := n, FPosition := x\<rparr>)"
    for q :: TSFTPPacket and d n by (cases q) simp
  show ?thesis
    by (simp add: Packet_Add_def SetCapacity_position rbind_assoc Let_def r cong: option.case_cong)
qed

lemma DataUpdated_position: "DataUpdated n (p\<lparr>FPosition := x\<rparr>) = DataUpdated n p"
  by (simp add: DataUpdated_def)

lemma Packet_Assign_position: "Packet_Assign source (p\<lparr>FPosition := x\<rparr>) = Packet_Assign source p"
  unfolding Packet_Assign_def SetCapacity_position
  by (cases "SetCapacity 0 p") (auto simp: Packet_Add_position DataUpdated_position rbind_def split: sum.splits)

text \<open>The message number a packet with a given content announces.\<close>

definition message_number :: "u8 list \<Rightarrow> u32" where
  "message_number bs = (if hd bs = 2 then SFTPNoMessageNumber else GET_32BIT (take 4 (tl bs)))"

definition message_ok :: "u8 list \<Rightarrow> bool" where
  "message_ok bs \<longleftrightarrow> bs \<noteq> [] \<and> (hd bs = 2 \<or> length bs \<ge> 5)"

lemma ucast_u8_eq_2: "(ucast (b :: u8) :: u32) = 2 \<longleftrightarrow> b = 2"
proof
  have "b = ucast (ucast b :: u32)" by (rule bit_word_eqI) (auto simp: bit_simps)
  then show "b = 2" if "(ucast b :: u32) = 2" using that by simp
qed simp

lemma DataUpdated_ok:
  assumes "packet_ok (p\<lparr>FPosition := 0, FLength := n\<rparr>)" "payload (p\<lparr>FPosition := 0, FLength := n\<rparr>) = bs"
    "message_ok bs"
  shows "\<exists>q. DataUpdated n p = Inr q \<and> packet_ok q \<and> payload q = bs \<and> PType q = ucast (hd bs) \<and>
    FMessageNumber q = message_number bs \<and> FReservedBy q = FReservedBy p \<and> FCodePage q = FCodePage p \<and>
    FLength q = n \<and> FCapacity q = FCapacity p \<and> FData q = FData p"
proof -
  let ?p = "p\<lparr>FPosition := 0, FLength := n\<rparr>"
  have rem: "remaining ?p = bs" using assms(2) by (simp add: remaining_def)
  have ne: "bs \<noteq> []" using assms(3) by (simp add: message_ok_def)
  let ?p1 = "(DataConsumed 1 ?p)\<lparr>PType := ucast (hd bs)\<rparr>"
  have p1: "packet_ok ?p1" "remaining ?p1 = tl bs" "payload ?p1 = bs"
    using DataConsumed_ok [OF assms(1), of 1] rem ne assms(2)
    by (simp_all add: remaining_header drop_Suc Suc_le_eq)
  have gb: "GetByte ?p = Inr (hd bs, DataConsumed 1 ?p)" using GetByte_conv [OF assms(1)] rem ne by simp
  show ?thesis
  proof (cases "hd bs = 2")
    case True
    then show ?thesis
      using gb p1 by (simp add: DataUpdated_def message_number_def)
  next
    case False
    then have l: "length (tl bs) \<ge> 4" using assms(3) by (auto simp: message_ok_def)
    have "GetCardinal ?p1 = Inr (GET_32BIT (take 4 (tl bs)), DataConsumed 4 ?p1)"
      using GetCardinal_conv [OF p1(1)] p1(2) l by simp
    moreover have "packet_ok (DataConsumed 4 ?p1)" using DataConsumed_ok [OF p1(1), of 4] p1(2) l by simp
    ultimately show ?thesis
      using False gb p1 ucast_u8_eq_2 [of "hd bs"]
      by (simp add: DataUpdated_def message_number_def Let_def)
  qed
qed

lemma Packet_Assign_ok:
  assumes "packet_ok source" "packet_ok p" "message_ok (payload source)" "unat (FLength source) + 260 < 2 ^ 32"
  shows "\<exists>q. Packet_Assign source p = Inr q \<and> packet_ok q \<and> payload q = payload source \<and>
    PType q = ucast (hd (payload source)) \<and> FMessageNumber q = message_number (payload source) \<and>
    FPosition q = FPosition source \<and> FReservedBy q = FReservedBy source \<and> FCodePage q = FCodePage source \<and>
    FLength q = FLength source \<and> FCapacity q \<noteq> 0"
proof -
  let ?p = "p\<lparr>FPosition := 0\<rparr>" and ?bs = "payload source"
  have okp: "packet_ok ?p" using assms(2) by (simp add: packet_ok_def split: option.splits)
  obtain p1 where p1: "SetCapacity 0 ?p = Inr p1" "packet_ok p1" "payload p1 = []"
    using SetCapacity_ok [OF okp, of 0] by auto
  have l0: "FLength p1 = 0" using length_payload [OF p1(2)] p1(3) by (simp add: unat_eq_0)
  have "room p1 (length ?bs)" using assms(4) length_payload [OF assms(1)] l0 by (simp add: room_def)
  then obtain p2 where p2: "Packet_Add ?bs p1 = Inr p2" "packet_ok p2" "payload p2 = ?bs"
    using Packet_Add_ok [OF p1(2)] p1(3) by auto
  have l2: "FLength p2 = FLength source"
    using length_payload [OF p2(2)] length_payload [OF assms(1)] p2(3) by (simp add: word_unat_eq_iff)
  let ?p2 = "p2\<lparr>FPosition := 0, FLength := FLength source\<rparr>"
  have "packet_ok ?p2" "payload ?p2 = ?bs"
    using p2(2,3) l2 by (simp_all add: packet_ok_def payload_def split: option.splits)
  from DataUpdated_ok [OF this assms(3)] obtain q where q: "DataUpdated (FLength source) p2 = Inr q"
      "packet_ok q" "payload q = ?bs" "PType q = ucast (hd ?bs)" "FMessageNumber q = message_number ?bs"
      "FLength q = FLength source" by blast
  let ?q = "q\<lparr>FPosition := FPosition source, FReservedBy := FReservedBy source, FCodePage := FCodePage source\<rparr>"
  have "Packet_Assign source p = Inr ?q"
    using p1(1) p2(1) q(1) Packet_Assign_position [where source = source and p = p and x = 0] by (simp add: Packet_Assign_def)
  moreover have "packet_ok ?q" using q(2,6) assms(1) by (simp add: packet_ok_def split: option.splits)
  moreover have "payload ?q = ?bs" using q(3) by (simp add: payload_def split: option.splits)
  moreover have "FCapacity ?q \<noteq> 0"
    using q(2,3) assms(3) length_payload [OF q(2)]
    by (auto simp: packet_ok_def message_ok_def split: option.splits)
  ultimately show ?thesis using q by simp
qed

section \<open>Properties\<close>



text \<open>
  C3: File attributes survive the wire. What \<open>AddProperties\<close> appends to a packet with room for it,
  \<open>GetFile\<close> reads back completely, in every protocol version: type, size (before version 6), owner
  and group (numbers before version 4, names from then on), permissions and times (32 bits before
  version 4).
\<close>

theorem properties_round_trip:
  assumes "packet_ok p" "PType p = SSH_FXP_ATTRS" "remaining p = []"
    and "room p (length (properties_enc W2MB (FCodePage p) rights owner grp mtime atime aSize isDirectory version))"
    and "owner \<noteq> None \<Longrightarrow> grp \<noteq> None \<Longrightarrow>
      text_codable W2MB MB2W (FCodePage p) (FName (the owner)) \<and> text_codable W2MB MB2W (FCodePage p) (FName (the grp)) \<and>
      FID (the owner) \<in> {- (2 ^ 31)..<2 ^ 31} \<and> FID (the grp) \<in> {- (2 ^ 31)..<2 ^ 31}"
  shows "\<exists>p' q. AddProperties W2MB rights owner grp mtime atime aSize isDirectory version p = Inr p' \<and>
    GetFile MB2W UnixToDateTime SetListingStr Complete version signedTS False p' f =
      Inr (apply_properties UnixToDateTime signedTS rights owner grp mtime atime aSize isDirectory version f, q) \<and>
    remaining q = []"
proof -
  let ?enc = "properties_enc W2MB (FCodePage p) rights owner grp mtime atime aSize isDirectory version"
  obtain p' where p': "AddProperties W2MB rights owner grp mtime atime aSize isDirectory version p = Inr p'"
      "packet_ok p'" "payload p' = payload p @ ?enc" "same_header p p'"
    using adds_AddProperties [of owner grp W2MB "FCodePage p"] assms(1,4,5)
    unfolding adds_def text_codable_def by blast
  have "unat (FPosition p) \<le> length (payload p)"
    using assms(1) by (simp add: length_payload) (simp add: packet_ok_def word_le_nat_alt)
  then have "remaining p' = ?enc @ []"
    using p'(3,4) assms(3) by (simp add: remaining_def same_header_def)
  then have "reading p' SSH_FXP_ATTRS (FCodePage p) (?enc @ [])"
    using p'(2,4) assms(2) by (simp add: reading_def same_header_def)
  then obtain q where "GetFile MB2W UnixToDateTime SetListingStr Complete version signedTS False p' f =
      Inr (apply_properties UnixToDateTime signedTS rights owner grp mtime atime aSize isDirectory version f, q)"
      "reading q SSH_FXP_ATTRS (FCodePage p) []"
    using yields_GetFile [of owner grp version W2MB MB2W "FCodePage p"] assms(5) unfolding yields_def by blast
  then show ?thesis using p'(1) by (auto simp: reading_def)
qed

theorem properties_round_trip_witness:
  "\<exists>p' q. AddProperties (\<lambda>_. map (\<lambda>c. of_nat (of_char c))) (Some 0x1A4) None None (Some 5) None (Some 7) False 3
       ((Packet_Init 0)\<lparr>PType := SSH_FXP_ATTRS\<rparr>) = Inr p' \<and>
     GetFile (\<lambda>_. map (\<lambda>b. char_of (unat b))) id (\<lambda>_ f. (f, True)) id 3 False False p' (new_TRemoteFile 0) =
       Inr (apply_properties id False (Some 0x1A4) None None (Some 5) None (Some 7) False 3 (new_TRemoteFile 0), q) \<and>
     remaining q = []"
proof (rule properties_round_trip)
  let ?p = "(Packet_Init 0)\<lparr>PType := SSH_FXP_ATTRS\<rparr>"
  show "packet_ok ?p" "remaining ?p = []" by (simp_all add: remaining_header) (simp add: remaining_def)
  show "room ?p (length (properties_enc (\<lambda>_. map (\<lambda>c. of_nat (of_char c))) (FCodePage ?p) (Some 0x1A4) None None
      (Some 5) None (Some 7) False 3))"
    by (simp add: room_def properties_enc_def Packet_Init_def Let_def)
qed (simp_all)

end
