(* ===== verification/SecureShellBuffer.thy ===== *)
theory SecureShellBuffer
  imports SftpPacket
begin

text \<open>
  The receive buffer of a connection: \<open>FromBackend\<close>, \<open>Peek\<close> and \<open>Receive\<close> of the class
  \<open>TSecureShell\<close> in \<open>src/core/SecureShell.cpp\<close>. The SSH library delivers the data of the channel in
  pieces of any size; \<open>WaitForData\<close> returns after the next piece was handed to \<open>FromBackend\<close>. The
  pieces still to come are part of the state, and the connection is lost when there are none left.
  The events raised on received data and the log output are not modelled.
\<close>

record TSecureShell =
  Pending :: "u8 list"       \<comment> \<open>the first \<open>PendLen\<close> bytes of the pending-input block\<close>
  Arriving :: "u8 list list" \<comment> \<open>what \<open>WaitForData\<close> is going to deliver\<close>

text \<open>
  The part of \<open>FromBackend\<close> that stores data: as much as is wanted goes to the output pointer, the rest
  is appended to the pending block. The result is what was stored at the output pointer.
\<close>

definition FromBackend :: "u8 list \<Rightarrow> nat \<Rightarrow> TSecureShell \<Rightarrow> u8 list \<times> TSecureShell" where
  "FromBackend data outLen s =
     (let used = (if outLen > length data then length data else outLen)
      in (take used data, s\<lparr>Pending := Pending s @ drop used data\<rparr>))"

definition Peek :: "nat \<Rightarrow> TSecureShell \<Rightarrow> u8 list option" where
  "Peek len s = (if length (Pending s) \<ge> len then Some (Pending s) else None)"

text \<open>The waiting loop of \<open>Receive\<close>, with the bytes received so far.\<close>

function wait_loop :: "nat \<Rightarrow> u8 list \<Rightarrow> TSecureShell \<Rightarrow> (u8 list \<times> TSecureShell) res" where
  "wait_loop outLen out s =
     (if outLen = 0 then Inr (out, s)
      else case Arriving s of
             [] \<Rightarrow> Inl EConnectionClosed
           | data # rest \<Rightarrow>
               (case FromBackend data outLen (s\<lparr>Arriving := rest\<rparr>) of (got, s) \<Rightarrow>
                  wait_loop (outLen - length got) (out @ got) s))"
  by pat_completeness auto
termination
  by (relation "measure (\<lambda>(_, _, s). length (Arriving s))") (auto simp: FromBackend_def Let_def)

declare wait_loop.simps [simp del]

text \<open>The wanted length passes through a signed 32 bit integer.\<close>

definition out_length :: "nat \<Rightarrow> nat" where
  "out_length len = (let v = sint (of_nat len :: u32) in if v < 0 then nat (v + 2 ^ 64) else nat v)"

definition Receive :: "nat \<Rightarrow> TSecureShell \<Rightarrow> (u8 list \<times> TSecureShell) res" where
  "Receive len s =
     (if len > 0 then
        (let outLen = out_length len;
             pendUsed = (if length (Pending s) > outLen then outLen else length (Pending s))
         in wait_loop (outLen - pendUsed) (take pendUsed (Pending s)) (s\<lparr>Pending := drop pendUsed (Pending s)\<rparr>))
      else Inr ([], s))"

section \<open>The buffer delivers the stream\<close>

text \<open>Everything received and not yet consumed, and everything still to come.\<close>

definition stream :: "TSecureShell \<Rightarrow> u8 list" where
  "stream s = Pending s @ concat (Arriving s)"

lemma out_length_id: "len < 2 ^ 31 \<Longrightarrow> out_length len = len"
proof -
  assume "len < 2 ^ 31"
  then have "sint (of_nat len :: u32) = int len"
    using sint_word_of_int32 [of "int len"] by simp
  then show ?thesis by (simp add: out_length_def Let_def)
qed

definition delivers :: "nat \<Rightarrow> u8 list \<Rightarrow> u8 list \<Rightarrow> (u8 list \<times> TSecureShell) res \<Rightarrow> bool" where
  "delivers n out xs r =
     (if n \<le> length xs
      then (case r of Inl e \<Rightarrow> False | Inr (ys, s) \<Rightarrow> ys = out @ take n xs \<and> stream s = drop n xs)
      else r = Inl EConnectionClosed)"

lemma wait_loop_delivers:
  "Pending s = [] \<Longrightarrow> delivers n out (stream s) (wait_loop n out s)"
proof (induction n out s rule: wait_loop.induct)
  case (1 n out s)
  show ?case
  proof (cases "n = 0 \<or> Arriving s = []")
    case True
    then show ?thesis using "1.prems" by (auto simp: wait_loop.simps [of n] stream_def delivers_def)
  next
    case False
    then obtain data rest where a: "Arriving s = data # rest" and n: "n \<noteq> 0"
      by (cases "Arriving s") auto
    let ?s = "s\<lparr>Arriving := rest\<rparr>"
    show ?thesis
    proof (cases "n \<le> length data")
      case True
      then show ?thesis
        using a n "1.prems"
        by (simp add: wait_loop.simps [of n] wait_loop.simps [of 0] FromBackend_def stream_def delivers_def)
    next
      case False
      let ?t = "?s\<lparr>Pending := []\<rparr>"
      have fb: "FromBackend data n ?s = (data, ?t)" using False "1.prems" by (simp add: FromBackend_def)
      have st: "stream s = data @ stream ?t" using a "1.prems" by (simp add: stream_def)
      have "wait_loop n out s = wait_loop (n - length data) (out @ data) ?t"
        using a n fb by (simp add: wait_loop.simps [of n out s])
      moreover have "delivers (n - length data) (out @ data) (stream ?t) (wait_loop (n - length data) (out @ data) ?t)"
        using "1.IH" n a fb by simp
      ultimately show ?thesis using False st by (auto simp: delivers_def split: if_splits sum.splits)
    qed
  qed
qed

text \<open>
  \<open>Receive\<close> returns the next bytes of the stream, however they were cut into pieces and whatever part
  of them was already pending, and fails only when the stream ends before.
\<close>

lemma Receive_delivers_out_length:
  assumes "0 < len"
  shows "delivers (out_length len) [] (stream s) (Receive len s)"
proof (cases "length (Pending s) \<le> out_length len")
  case True
  then have "Receive len s = wait_loop (out_length len - length (Pending s)) (Pending s) (s\<lparr>Pending := []\<rparr>)"
    using assms by (auto simp: Receive_def Let_def)
  then show ?thesis
    using wait_loop_delivers [of "s\<lparr>Pending := []\<rparr>" "out_length len - length (Pending s)" "Pending s"] True
    by (auto simp: delivers_def stream_def split: if_splits sum.splits)
next
  case False
  then show ?thesis
    using assms by (auto simp: Receive_def Let_def wait_loop.simps [of 0] delivers_def stream_def)
qed

lemma Receive_delivers: "len < 2 ^ 31 \<Longrightarrow> delivers len [] (stream s) (Receive len s)"
  using Receive_delivers_out_length [of len s] out_length_id [of len]
  by (cases "len = 0") (simp_all add: Receive_def delivers_def)

lemma Receive_append:
  assumes "len < 2 ^ 31" "stream s = xs @ ys" "length xs = len"
  obtains s' where "Receive len s = Inr (xs, s')" "stream s' = ys"
  using Receive_delivers [OF assms(1), of s] assms(2,3)
  by (auto simp: delivers_def split: sum.splits)

lemma Receive_short:
  "len < 2 ^ 31 \<Longrightarrow> length (stream s) < len \<Longrightarrow> Receive len s = Inl EConnectionClosed"
  using Receive_delivers [of len s] by (simp add: delivers_def)

text \<open>Nothing is ever put back: a successful call never makes the stream longer, whatever the length.\<close>

lemma FromBackend_stream:
  "FromBackend data n s = (got, s') \<Longrightarrow> Arriving s' = Arriving s \<and> length (Pending s') \<le> length (Pending s) + length data"
  by (auto simp: FromBackend_def Let_def)

lemma wait_loop_shrinks:
  "wait_loop n out s = Inr (ys, s') \<Longrightarrow> length (stream s') \<le> length (stream s)"
proof (induction n out s rule: wait_loop.induct)
  case (1 n out s)
  show ?case
  proof (cases "n = 0 \<or> Arriving s = []")
    case True
    then show ?thesis using "1.prems" by (auto simp: wait_loop.simps [of n out s] split: if_splits)
  next
    case False
    then obtain data rest got t where a: "Arriving s = data # rest" and n: "n \<noteq> 0"
      and fb: "FromBackend data n (s\<lparr>Arriving := rest\<rparr>) = (got, t)"
      by (cases "Arriving s"; cases "FromBackend (hd (Arriving s)) n (s\<lparr>Arriving := tl (Arriving s)\<rparr>)") auto
    then have "wait_loop (n - length got) (out @ got) t = Inr (ys, s')"
      using "1.prems" by (simp add: wait_loop.simps [of n out s])
    then have "length (stream s') \<le> length (stream t)" using "1.IH" n a fb by simp
    then show ?thesis using FromBackend_stream [OF fb] a by (simp add: stream_def)
  qed
qed

lemma Receive_shrinks: "Receive len s = Inr (ys, s') \<Longrightarrow> length (stream s') \<le> length (stream s)"
  by (auto simp: Receive_def Let_def split: if_splits dest!: wait_loop_shrinks) (auto simp: stream_def)



end
