(* ===== verification/SftpFs.thy ===== *)
theory SftpFs
  imports SecureShellBuffer
begin

text \<open>
  The request and response layer of the SFTP file system (\<open>TSFTPFileSystem\<close> of
  \<open>src/core/SftpFileSystem.cpp\<close>): the size of transferred blocks, the table of reserved responses,
  and the loop that receives packets, hands out-of-order ones to the packets that reserved them and
  interprets status answers.

  Packets are objects that the table refers to by pointer, so the state has a store of packets by
  address; the destructor of a packet is \<open>destroy_packet\<close>. An error that ends the wait for the
  response is the outer \<open>Inl\<close>; a status answer that is thrown after the response arrived is the inner
  one, together with the state the session goes on with. Logging, the busy counter and the message texts are not modelled.
\<close>

record TSFTPFileSystem =
  FSecureShell :: TSecureShell
  FPacketReservations :: "nat option list"  \<comment> \<open>addresses of packets, \<open>None\<close> for \<open>nullptr\<close>\<close>
  FPacketNumbers :: "u32 list"              \<comment> \<open>may be longer than the reservations\<close>
  Packets :: "nat \<Rightarrow> TSFTPPacket"
  FMessageCounter :: u32
  FsCodePage :: u32
  FVersion :: int
  Sent :: "u8 list list"                    \<comment> \<open>what was handed to the connection\<close>

abbreviation (input) SFTP_MAX_PACKET_LEN :: int where "SFTP_MAX_PACKET_LEN \<equiv> 1024000"
abbreviation (input) SFTPPacketOverhead :: u32 where "SFTPPacketOverhead \<equiv> 9"
abbreviation (input) SFTP_STATUS_UNKNOWN_PRINCIPAL :: u32 where "SFTP_STATUS_UNKNOWN_PRINCIPAL \<equiv> 16"

section \<open>Block sizes\<close>

definition RoundToBlock :: "int \<Rightarrow> int" where
  "RoundToBlock n = (let m = cmod n 16 in if m \<noteq> 0 then n + (16 - m) else n)"

definition RoundToBlockDown :: "int \<Rightarrow> int" where
  "RoundToBlockDown n = n - cmod n 16"

text \<open>
  The current speed, the packet size limit of the connection and the speed limit (\<open>AdjustToCPSLimit\<close>)
  change all the time; they are arguments. \<open>TRANSFER_BUF_SIZE\<close> is 32 KiB.
\<close>

definition desired_block :: "int \<Rightarrow> u32" where
  "desired_block cps =
     (let minPacketSize = 32 * 1024;
          result = word_of_int (RoundToBlock cps);
          result = (if result = 0 then 32 * 1024 else result)
      in if result < minPacketSize then minPacketSize else result)"

definition limit_block :: "u32 \<Rightarrow> u32 \<Rightarrow> u32 \<Rightarrow> u32" where
  "limit_block overhead maxPacketSize result =
     (let overhead = overhead + SFTPPacketOverhead
      in if maxPacketSize < overhead then 0
         else let maxPacketSize = maxPacketSize - overhead
              in if result > maxPacketSize then
                   (let rounded = RoundToBlockDown (uint maxPacketSize)
                    in if rounded > 0 then word_of_int rounded else maxPacketSize)
                 else result)"

definition TransferBlockSize :: "u32 \<Rightarrow> int \<Rightarrow> u32 \<Rightarrow> u32 \<Rightarrow> (u32 \<Rightarrow> u32) \<Rightarrow> u32" where
  "TransferBlockSize overhead cps connectionMax fMaxPacketSize adjustToCPSLimit =
     (let lower = fMaxPacketSize > 0 \<and> (fMaxPacketSize < connectionMax \<or> \<not> connectionMax > 0);
          maxPacketSize = (if lower then fMaxPacketSize else connectionMax);
          maxPacketSizeValid = (connectionMax > 0 \<or> lower);
          result = desired_block cps
      in adjustToCPSLimit (if maxPacketSizeValid then limit_block overhead maxPacketSize result else result))"

definition UploadBlockSize :: "nat \<Rightarrow> int \<Rightarrow> u32 \<Rightarrow> u32 \<Rightarrow> (u32 \<Rightarrow> u32) \<Rightarrow> u32" where
  "UploadBlockSize handleLength = TransferBlockSize (4 + 8 + 4 + of_nat handleLength)"

definition DownloadBlockSize :: "u32 option \<Rightarrow> int \<Rightarrow> u32 \<Rightarrow> u32 \<Rightarrow> (u32 \<Rightarrow> u32) \<Rightarrow> u32" where
  "DownloadBlockSize maxReadSize cps connectionMax fMaxPacketSize adjustToCPSLimit =
     (let result = TransferBlockSize 4 cps connectionMax fMaxPacketSize adjustToCPSLimit;
          result =
            (case maxReadSize of
               Some m \<Rightarrow> if m > 0 \<and> result > m then m else result
             | None \<Rightarrow> result)
      in if result + SFTPPacketOverhead > 1024000 then 1024000 - SFTPPacketOverhead else result)"

section \<open>Reservations\<close>

primrec first_index :: "('a \<Rightarrow> bool) \<Rightarrow> 'a list \<Rightarrow> nat option" where
  "first_index P [] = None"
| "first_index P (x # xs) = (if P x then Some 0 else map_option Suc (first_index P xs))"

definition IndexOf :: "nat \<Rightarrow> TSFTPFileSystem \<Rightarrow> nat option" where
  "IndexOf a fs = first_index (\<lambda>x. x = Some a) (FPacketReservations fs)"

definition set_packet :: "nat \<Rightarrow> TSFTPPacket \<Rightarrow> TSFTPFileSystem \<Rightarrow> TSFTPFileSystem" where
  "set_packet a p fs = fs\<lparr>Packets := (Packets fs)(a := p)\<rparr>"

definition RemoveReservation :: "nat \<Rightarrow> TSFTPFileSystem \<Rightarrow> TSFTPFileSystem" where
  "RemoveReservation reservation fs =
     (let fs = fs\<lparr>FPacketNumbers :=
            fold (\<lambda>i ns. ns[i - 1 := ns ! i]) [reservation + 1..<length (FPacketReservations fs)] (FPacketNumbers fs)\<rparr>;
          fs = (case FPacketReservations fs ! reservation of
                  Some a \<Rightarrow> set_packet a ((Packets fs a)\<lparr>FReservedBy := False\<rparr>) fs
                | None \<Rightarrow> fs)
      in fs\<lparr>FPacketReservations :=
           take reservation (FPacketReservations fs) @ drop (reservation + 1) (FPacketReservations fs)\<rparr>)"

definition ReserveResponse :: "u32 \<Rightarrow> nat option \<Rightarrow> TSFTPFileSystem \<Rightarrow> TSFTPFileSystem res" where
  "ReserveResponse messageNumber response fs =
     rbind
       (case response of
          Some a \<Rightarrow> rbind (SetCapacity 0 (Packets fs a)) (\<lambda>p. Inr (set_packet a (p\<lparr>FReservedBy := True\<rparr>) fs))
        | None \<Rightarrow> Inr fs)
       (\<lambda>fs. let fs = fs\<lparr>FPacketReservations := FPacketReservations fs @ [response]\<rparr>;
                 count = length (FPacketReservations fs);
                 fs = (if count \<ge> length (FPacketNumbers fs)
                       then fs\<lparr>FPacketNumbers :=
                              FPacketNumbers fs @ replicate (count + 10 - length (FPacketNumbers fs)) 0\<rparr>
                       else fs)
             in Inr (fs\<lparr>FPacketNumbers := (FPacketNumbers fs)[count - 1 := messageNumber]\<rparr>))"

definition UnreserveResponse :: "nat \<Rightarrow> TSFTPFileSystem \<Rightarrow> TSFTPFileSystem res" where
  "UnreserveResponse a fs =
     (case IndexOf a fs of
        Some r \<Rightarrow>
          Inr (if FCapacity (Packets fs a) \<noteq> 0 then RemoveReservation r fs
               else fs\<lparr>FPacketReservations := (FPacketReservations fs)[r := None]\<rparr>)
      | None \<Rightarrow> if FCapacity (Packets fs a) \<noteq> 0 then Inl EUndefinedBehaviour else Inr fs)"

definition destroy_packet :: "nat \<Rightarrow> TSFTPFileSystem \<Rightarrow> TSFTPFileSystem res" where
  "destroy_packet a fs = (if FReservedBy (Packets fs a) then UnreserveResponse a fs else Inr fs)"

section \<open>Receiving\<close>

text \<open>The length is signed, the comparison too.\<close>

definition PacketLength :: "u8 list \<Rightarrow> int res" where
  "PacketLength lenBuf =
     (let len = sint (GET_32BIT lenBuf) in if len > SFTP_MAX_PACKET_LEN then Inl EPacketTooBig else Inr len)"

definition size_of_int :: "int \<Rightarrow> nat" where
  "size_of_int i = (if i < 0 then nat (i + 2 ^ 64) else nat i)"

definition PeekPacket :: "TSecureShell \<Rightarrow> bool res" where
  "PeekPacket s =
     (case Peek 4 s of
        None \<Rightarrow> Inr False
      | Some buf \<Rightarrow> rbind (PacketLength (take 4 buf)) (\<lambda>len. Inr (Peek (size_of_int (4 + len)) s \<noteq> None)))"

text \<open>
  \<open>Receive\<close> into the block of a packet. The data is stored as it arrives, so that the block overflows
  when more arrives than it has room for, also when the rest never comes.
\<close>

definition receive_into :: "nat \<Rightarrow> TSFTPPacket \<Rightarrow> TSecureShell \<Rightarrow> (TSFTPPacket \<times> TSecureShell) res" where
  "receive_into len p s =
     (if len = 0 then Inr (p, s)
      else case FData p of
             None \<Rightarrow> Inl EUndefinedBehaviour
           | Some d \<Rightarrow>
               rbind (write_at FSendPrefixLen (take (out_length len) (stream s)) d)
                 (\<lambda>d. rbind (Receive len s) (\<lambda>(_, s). Inr (p\<lparr>FData := Some d\<rparr>, s))))"

definition receive_message :: "TSFTPPacket \<Rightarrow> TSecureShell \<Rightarrow> (TSFTPPacket \<times> TSecureShell) res" where
  "receive_message p s =
     rbind (Receive 4 s) (\<lambda>(lenBuf, s).
     rbind (PacketLength lenBuf) (\<lambda>len.
     rbind (SetCapacity (word_of_int len) p) (\<lambda>p.
     rbind (receive_into (size_of_int len) p s) (\<lambda>(p, s).
     rbind (DataUpdated (word_of_int len) p) (\<lambda>p. Inr (p, s))))))"

text \<open>The search for the reservation a message answers; the first result is \<open>IsReserved\<close>.\<close>

definition dispatch_reserved ::
  "nat \<Rightarrow> nat option \<Rightarrow> TSFTPFileSystem \<Rightarrow> (bool \<times> nat option \<times> TSFTPFileSystem) res" where
  "dispatch_reserved a reservation fs =
     (case first_index (\<lambda>n. n = FMessageNumber (Packets fs a))
             (take (length (FPacketReservations fs)) (FPacketNumbers fs)) of
        None \<Rightarrow> Inr (False, reservation, fs)
      | Some i \<Rightarrow>
          (case FPacketReservations fs ! i of
             Some b \<Rightarrow>
               if b = a then Inr (True, reservation, fs)
               else rbind (Packet_Assign (Packets fs a) (Packets fs b))
                      (\<lambda>q. Inr (True, reservation, set_packet b q fs))
           | None \<Rightarrow>
               Inr (True, map_option (\<lambda>r. if r > i then r - 1 else r) reservation, RemoveReservation i fs)))"

definition receive_step ::
  "nat \<Rightarrow> bool \<Rightarrow> nat option \<Rightarrow> TSFTPFileSystem \<Rightarrow> (bool \<times> nat option \<times> TSFTPFileSystem) res" where
  "receive_step a tryOnly reservation fs =
     rbind (if tryOnly then PeekPacket (FSecureShell fs) else Inr True)
       (\<lambda>available.
          if \<not> available then
            rbind (new_TSFTPPacket SSH_FXP_NONE (FsCodePage fs) (FMessageCounter fs)) (\<lambda>(t, counter).
            rbind (Packet_Assign t (Packets fs a)) (\<lambda>p.
              Inr (False, reservation, set_packet a p (fs\<lparr>FMessageCounter := counter\<rparr>))))
          else
            rbind (receive_message (Packets fs a) (FSecureShell fs)) (\<lambda>(p, s).
              let fs = set_packet a p (fs\<lparr>FSecureShell := s\<rparr>)
              in case reservation of
                   None \<Rightarrow> dispatch_reserved a reservation fs
                 | Some r \<Rightarrow>
                     if FMessageNumber p \<noteq> FPacketNumbers fs ! r then dispatch_reserved a reservation fs
                     else Inr (False, reservation, fs)))"

text \<open>Every further round has consumed at least the four bytes of a length.\<close>

definition unread :: "TSFTPFileSystem \<Rightarrow> nat" where
  "unread fs = length (stream (FSecureShell fs))"

lemma FSecureShell_set_packet [simp]: "FSecureShell (set_packet a p fs) = FSecureShell fs"
  by (simp add: set_packet_def)

lemma FSecureShell_RemoveReservation [simp]: "FSecureShell (RemoveReservation i fs) = FSecureShell fs"
  by (simp add: RemoveReservation_def Let_def split: option.split)

lemma receive_message_shrinks:
  assumes "receive_message p s = Inr (q, s')"
  shows "length (stream s') < length (stream s)"
proof -
  obtain buf s1 n p1 p2 where r: "Receive 4 s = Inr (buf, s1)" "receive_into n p1 s1 = Inr (p2, s')"
    using assms by (auto simp: receive_message_def rbind_eq_Inr_iff split: prod.splits)
  have "length (stream s1) < length (stream s)"
    using Receive_delivers [of 4 s] r(1) by (auto simp: delivers_def split: if_splits)
  moreover have "length (stream s') \<le> length (stream s1)"
    using r(2) by (auto simp: receive_into_def rbind_eq_Inr_iff split: if_splits option.splits prod.splits
        dest!: Receive_shrinks)
  ultimately show ?thesis by simp
qed

lemma dispatch_reserved_shell:
  "dispatch_reserved a r fs = Inr (again, r', fs') \<Longrightarrow> FSecureShell fs' = FSecureShell fs"
  by (auto simp: dispatch_reserved_def rbind_eq_Inr_iff split: option.splits if_splits)

lemma receive_step_unread:
  "receive_step a tryOnly r fs = Inr (True, r', fs') \<Longrightarrow> unread fs' < unread fs"
  by (auto simp: receive_step_def rbind_eq_Inr_iff Let_def unread_def split: if_splits prod.splits option.splits
      dest!: receive_message_shrinks dispatch_reserved_shell)

function receive_loop ::
  "nat \<Rightarrow> bool \<Rightarrow> nat option \<Rightarrow> TSFTPFileSystem \<Rightarrow> (nat option \<times> TSFTPFileSystem) res" where
  "receive_loop a tryOnly reservation fs =
     (case receive_step a tryOnly reservation fs of
        Inl e \<Rightarrow> Inl e
      | Inr (again, reservation', fs') \<Rightarrow>
          if again then receive_loop a tryOnly reservation' fs' else Inr (reservation', fs'))"
  by pat_completeness auto
termination
  by (relation "measure (\<lambda>(_, _, _, fs). unread fs)") (auto simp: receive_step_unread)

declare receive_loop.simps [simp del]

text \<open>
  The principals behind an \<open>SSH_FX_UNKNOWN_PRINCIPAL\<close> status. Each of them takes at least four bytes,
  so that the number of remaining bytes bounds the number of rounds.
\<close>

primrec read_principals :: "nat \<Rightarrow> TSFTPPacket \<Rightarrow> TSFTPPacket res" where
  "read_principals 0 p = Inr p"
| "read_principals (Suc n) p =
     rbind (GetNextData 0 p) (\<lambda>d.
       case d of
         None \<Rightarrow> Inr p
       | Some _ \<Rightarrow> rbind (GetRawByteString p) (\<lambda>(_, p). read_principals n p))"

definition GotStatusPacket :: "int \<Rightarrow> TSFTPPacket \<Rightarrow> int \<Rightarrow> int res" where
  "GotStatusPacket version p allowStatus =
     rbind (GetCardinal p) (\<lambda>(code, p).
       if code \<ge> 64 then Inl EUndefinedBehaviour
       else if (word_of_int allowStatus :: s64) AND push_bit (unat code) 1 = 0 then
         rbind
           (if GetRemainingLength p > 0 then
              rbind (GetRawByteString p) (\<lambda>(_, p).
                if GetRemainingLength p > 0 then
                  rbind (GetRawByteString p) (\<lambda>(_, p).
                    if version \<ge> 5 \<and> code = SFTP_STATUS_UNKNOWN_PRINCIPAL
                    then read_principals (unat (GetRemainingLength p)) p else Inr p)
                else Inr p)
            else Inr p)
           (\<lambda>_. Inl (EStatus (unat code)))
       else Inr (sint code))"

definition check_type :: "int \<Rightarrow> TSFTPPacket \<Rightarrow> int \<Rightarrow> int \<Rightarrow> int res" where
  "check_type version p expectedType allowStatus =
     (if expectedType \<noteq> -1 then
        (if PType p = SSH_FXP_STATUS then
           GotStatusPacket version p
             (if allowStatus < 0 then (if expectedType = 101 then 1 else 0) else allowStatus)
         else if expectedType \<noteq> sint (PType p) then Inl EInvalidType
         else Inr 0)
      else Inr 0)"

definition ReceivePacket ::
  "nat \<Rightarrow> int \<Rightarrow> int \<Rightarrow> bool \<Rightarrow> TSFTPFileSystem \<Rightarrow> (TSFTPFileSystem \<times> int res) res" where
  "ReceivePacket a expectedType allowStatus tryOnly fs =
     (let reservation = IndexOf a fs
      in rbind
           (if reservation = None \<or> FCapacity (Packets fs a) = 0
            then receive_loop a tryOnly reservation fs else Inr (reservation, fs))
           (\<lambda>(reservation, fs).
              if FCapacity (Packets fs a) = 0 \<and> tryOnly then Inr (fs, Inr 0)
              else
                let fs = (case reservation of Some r \<Rightarrow> RemoveReservation r fs | None \<Rightarrow> fs);
                    result = check_type (FVersion fs) (Packets fs a) expectedType allowStatus
                in if result = Inl EInvalidType then Inl EInvalidType else Inr (fs, result)))"

definition ReceiveResponse ::
  "u32 \<Rightarrow> nat \<Rightarrow> int \<Rightarrow> int \<Rightarrow> bool \<Rightarrow> TSFTPFileSystem \<Rightarrow> (TSFTPFileSystem \<times> int res) res" where
  "ReceiveResponse messageNumber response expectedType allowStatus tryOnly fs =
     rbind (ReceivePacket response expectedType allowStatus tryOnly fs)
       (\<lambda>(fs, result).
          case result of
            Inl e \<Rightarrow> Inr (fs, Inl e)
          | Inr code \<Rightarrow>
              if messageNumber \<noteq> FMessageNumber (Packets fs response) then Inl EMessageNumber
              else Inr (fs, Inr code))"

definition SendPacket :: "nat \<Rightarrow> TSFTPFileSystem \<Rightarrow> TSFTPFileSystem res" where
  "SendPacket a fs = rbind (GetSendData (Packets fs a)) (\<lambda>bs. Inr (fs\<lparr>Sent := Sent fs @ [bs]\<rparr>))"

definition SendPacketAndReceiveResponse ::
  "nat \<Rightarrow> nat \<Rightarrow> int \<Rightarrow> int \<Rightarrow> TSFTPFileSystem \<Rightarrow> (TSFTPFileSystem \<times> int res) res" where
  "SendPacketAndReceiveResponse packet response expectedType allowStatus fs =
     rbind (SendPacket packet fs)
       (\<lambda>fs. ReceiveResponse (FMessageNumber (Packets fs packet)) response expectedType allowStatus False fs)"

section \<open>The table of reservations\<close>

text \<open>The message numbers that are waited for, with the packets that wait for them.\<close>

definition table :: "TSFTPFileSystem \<Rightarrow> (u32 \<times> nat option) list" where
  "table fs = zip (FPacketNumbers fs) (FPacketReservations fs)"

definition block_ok :: "TSFTPPacket \<Rightarrow> bool" where
  "block_ok p \<longleftrightarrow> packet_ok (p\<lparr>FPosition := 0\<rparr>)"

definition fs_ok :: "TSFTPFileSystem \<Rightarrow> bool" where
  "fs_ok fs \<longleftrightarrow> length (FPacketReservations fs) \<le> length (FPacketNumbers fs) \<and>
     distinct (map fst (table fs)) \<and> (\<forall>a. count_list (FPacketReservations fs) (Some a) \<le> 1) \<and>
     (\<forall>a. block_ok (Packets fs a))"

definition forget :: "u32 \<Rightarrow> (u32 \<times> nat option) list \<Rightarrow> (u32 \<times> nat option) list" where
  "forget n tbl = filter (\<lambda>(k, _). k \<noteq> n) tbl"

lemma block_ok_reserved [simp]: "block_ok (p\<lparr>FReservedBy := b\<rparr>) = block_ok p"
  by (cases p) (simp add: block_ok_def packet_ok_def split: option.split)

lemma first_index_Some: "first_index P xs = Some i \<Longrightarrow> i < length xs \<and> P (xs ! i) \<and> (\<forall>j < i. \<not> P (xs ! j))"
  by (induction xs arbitrary: i) (auto split: if_splits simp: less_Suc_eq_0_disj)

lemma first_index_is_None: "first_index P xs = None \<longleftrightarrow> (\<forall>x \<in> set xs. \<not> P x)"
  by (induction xs) auto

lemma first_index_eq:
  "i < length xs \<Longrightarrow> P (xs ! i) \<Longrightarrow> (\<And>j. j < i \<Longrightarrow> \<not> P (xs ! j)) \<Longrightarrow> first_index P xs = Some i"
proof (induction xs arbitrary: i)
  case (Cons x xs)
  show ?case
  proof (cases i)
    case (Suc k)
    then have "first_index P xs = Some k" using Cons.IH [of k] Cons.prems by (metis Suc_less_eq length_Cons nth_Cons_Suc)
    then show ?thesis using Suc Cons.prems(3) [of 0] by simp
  qed (use Cons.prems in simp)
qed simp

lemma shift_numbers:
  "r < c \<Longrightarrow> c \<le> length ns \<Longrightarrow>
   fold (\<lambda>i ns. ns[i - 1 := ns ! i]) [r + 1..<c] ns = take r ns @ take (c - r - 1) (drop (r + 1) ns) @ drop (c - 1) ns"
proof (induction c)
  case (Suc c)
  show ?case
  proof (cases "r = c")
    case False
    let ?f = "fold (\<lambda>i ns. ns[i - 1 := ns ! i]) [r + 1..<c] ns"
    have r: "r < c" using Suc.prems False by simp
    have f: "?f = take r ns @ take (c - r - 1) (drop (r + 1) ns) @ drop (c - 1) ns"
      using Suc r by simp
    have "?f[c - 1 := ?f ! c] = take r ns @ take (c - r) (drop (r + 1) ns) @ drop c ns"
    proof (rule nth_equalityI)
      show "length (?f[c - 1 := ?f ! c]) = length (take r ns @ take (c - r) (drop (r + 1) ns) @ drop c ns)"
        unfolding f using Suc.prems r by simp
    next
      fix i assume "i < length (?f[c - 1 := ?f ! c])"
      then have "i < length ns" unfolding f using Suc.prems r by simp
      moreover obtain d where "c = Suc d" using r by (cases c) auto
      ultimately show "?f[c - 1 := ?f ! c] ! i = (take r ns @ take (c - r) (drop (r + 1) ns) @ drop c ns) ! i"
        unfolding f using Suc.prems r by (auto simp: nth_list_update nth_append not_less)
    qed
    then show ?thesis using r by simp
  qed (use Suc.prems in simp)
qed simp

lemma zip_remove:
  assumes "i < length ys" "length ys \<le> length xs"
  shows "zip (take i xs @ take (length ys - i - 1) (drop (i + 1) xs) @ zs) (take i ys @ drop (i + 1) ys) =
    take i (zip xs ys) @ drop (i + 1) (zip xs ys)"
proof -
  have "zip (take (length ys - i - 1) (drop (i + 1) xs) @ zs) (drop (i + 1) ys) =
      zip (drop (i + 1) xs) (drop (i + 1) ys)"
    using assms by (auto simp: zip_append1 intro!: nth_equalityI)
  then show ?thesis using assms by (simp add: take_zip drop_zip)
qed

lemma RemoveReservation_fields:
  "FPacketReservations (RemoveReservation i fs) =
     take i (FPacketReservations fs) @ drop (i + 1) (FPacketReservations fs)"
  "FPacketNumbers (RemoveReservation i fs) =
     fold (\<lambda>i ns. ns[i - 1 := ns ! i]) [i + 1..<length (FPacketReservations fs)] (FPacketNumbers fs)"
  "Packets (RemoveReservation i fs) =
     (case FPacketReservations fs ! i of
        Some a \<Rightarrow> (Packets fs)(a := (Packets fs a)\<lparr>FReservedBy := False\<rparr>) | None \<Rightarrow> Packets fs)"
  "FVersion (RemoveReservation i fs) = FVersion fs"
  by (simp_all add: RemoveReservation_def Let_def set_packet_def split: option.split)

lemma table_RemoveReservation:
  assumes "i < length (FPacketReservations fs)" "length (FPacketReservations fs) \<le> length (FPacketNumbers fs)"
  shows "table (RemoveReservation i fs) = take i (table fs) @ drop (i + 1) (table fs)"
  unfolding table_def RemoveReservation_fields shift_numbers [OF assms]
  by (rule zip_remove [OF assms])

lemma remove_nth_forget:
  "distinct (map fst tbl) \<Longrightarrow> i < length tbl \<Longrightarrow>
   take i tbl @ drop (i + 1) tbl = forget (fst (tbl ! i)) tbl"
proof (induction tbl arbitrary: i)
  case (Cons x tbl)
  show ?case
  proof (cases i)
    case 0
    have "fst x \<notin> fst ` set tbl" using Cons.prems by simp
    then have "\<forall>y \<in> set tbl. (\<lambda>(k, _). k \<noteq> fst x) y" by (auto simp: image_iff split_beta)
    then show ?thesis using 0 by (simp add: forget_def filter_id_conv split_beta)
  next
    case (Suc k)
    then have "tbl ! k \<in> set tbl" using Cons.prems by simp
    then have "fst (tbl ! k) \<noteq> fst x" using Cons.prems(1) by (metis distinct.simps(2) image_eqI list.simps(9) set_map)
    then show ?thesis using Cons.IH [of k] Cons.prems Suc by (auto simp: forget_def split: prod.splits)
  qed
qed simp

lemma fst_table:
  assumes "fs_ok fs" "i < length (FPacketReservations fs)"
  shows "i < length (table fs)" "table fs ! i = (FPacketNumbers fs ! i, FPacketReservations fs ! i)"
  using assms by (simp_all add: fs_ok_def table_def)

lemma zip_take_length: "length ys \<le> length xs \<Longrightarrow> zip (take (length ys) xs) ys = zip xs ys"
  by (rule nth_equalityI) simp_all

lemma count_list_remove: "count_list (take i xs @ drop (i + 1) xs) x \<le> count_list xs x"
proof -
  have "count_list xs x = count_list (take i xs) x + (count_list (take 1 (drop i xs)) x + count_list (drop 1 (drop i xs)) x)"
    by (metis append_take_drop_id count_list_append)
  then show ?thesis by simp
qed

lemma length_shift: "length (fold (\<lambda>i ns. ns[i - 1 := ns ! i]) is ns) = length ns"
  by (induction "is" arbitrary: ns) simp_all

lemma fs_ok_RemoveReservation:
  assumes ok: "fs_ok fs" and i: "i < length (FPacketReservations fs)"
  shows "fs_ok (RemoveReservation i fs)" "table (RemoveReservation i fs) = forget (FPacketNumbers fs ! i) (table fs)"
proof -
  have len: "length (FPacketReservations fs) \<le> length (FPacketNumbers fs)" using ok by (simp add: fs_ok_def)
  have tbl: "table (RemoveReservation i fs) = take i (table fs) @ drop (i + 1) (table fs)"
    by (rule table_RemoveReservation [OF i len])
  also have "\<dots> = forget (FPacketNumbers fs ! i) (table fs)"
    using remove_nth_forget [of "table fs" i] ok fst_table [OF ok i] by (simp add: fs_ok_def)
  finally show t: "table (RemoveReservation i fs) = forget (FPacketNumbers fs ! i) (table fs)" .
  have "distinct (map fst (forget n (table fs)))" for n
    using ok by (simp add: forget_def fs_ok_def distinct_map_filter)
  moreover have "count_list (take i (FPacketReservations fs) @ drop (i + 1) (FPacketReservations fs)) (Some a) \<le> 1" for a
    using ok order_trans [OF count_list_remove, of "FPacketReservations fs" "Some a" 1 i] by (simp add: fs_ok_def)
  moreover have "block_ok (Packets (RemoveReservation i fs) a)" for a
    using ok by (simp add: RemoveReservation_fields fs_ok_def split: option.split)
  ultimately show "fs_ok (RemoveReservation i fs)"
    unfolding fs_ok_def t using i len by (simp add: RemoveReservation_fields length_shift [simplified])
qed

text \<open>Reserving appends an entry.\<close>

lemma ReserveResponse_table:
  assumes ok: "fs_ok fs" and n: "n \<notin> fst ` set (table fs)" and a: "Some a \<notin> set (FPacketReservations fs)"
  shows "\<exists>fs'. ReserveResponse n (Some a) fs = Inr fs' \<and> fs_ok fs' \<and> table fs' = table fs @ [(n, Some a)] \<and>
    FCapacity (Packets fs' a) = 0 \<and> FReservedBy (Packets fs' a) \<and> FSecureShell fs' = FSecureShell fs"
proof -
  let ?q = "(Packets fs a)\<lparr>FPosition := 0\<rparr>"
  obtain p where p: "SetCapacity 0 ?q = Inr p" "packet_ok p" "FCapacity p = 0"
    using SetCapacity_ok [of ?q 0] ok by (auto simp: fs_ok_def block_ok_def)
  then obtain p0 where p0: "SetCapacity 0 (Packets fs a) = Inr p0" "p = p0\<lparr>FPosition := 0\<rparr>"
    using SetCapacity_position [where c = 0 and p = "Packets fs a" and x = 0] by (auto simp: rbind_eq_Inr_iff)
  let ?c = "length (FPacketReservations fs)"
  define ns where "ns = (if Suc ?c \<ge> length (FPacketNumbers fs)
    then FPacketNumbers fs @ replicate (Suc ?c + 10 - length (FPacketNumbers fs)) 0 else FPacketNumbers fs)"
  define fs' where "fs' = fs\<lparr>Packets := (Packets fs)(a := p0\<lparr>FReservedBy := True\<rparr>),
      FPacketReservations := FPacketReservations fs @ [Some a], FPacketNumbers := ns[?c := n]\<rparr>"
  have len: "?c \<le> length (FPacketNumbers fs)" "?c < length ns" using ok by (auto simp: fs_ok_def ns_def)
  have "ReserveResponse n (Some a) fs = Inr fs'"
    using p0(1) by (simp add: ReserveResponse_def set_packet_def Let_def fs'_def ns_def)
  moreover have "take ?c ns = take ?c (FPacketNumbers fs)" using len(1) by (simp add: ns_def)
  then have "ns[?c := n] = take ?c (FPacketNumbers fs) @ n # drop (Suc ?c) ns"
    using len(2) by (simp add: upd_conv_take_nth_drop)
  then have t: "table fs' = table fs @ [(n, Some a)]"
    using zip_take_length [OF len(1)] len(1) by (simp add: table_def fs'_def)
  moreover have "block_ok p0" using p p0 by (simp add: block_ok_def)
  then have "fs_ok fs'"
    unfolding fs_ok_def t using ok n a len by (simp add: fs_ok_def fs'_def count_notin)
  moreover have "FCapacity (Packets fs' a) = 0 \<and> FReservedBy (Packets fs' a) \<and> FSecureShell fs' = FSecureShell fs"
    using p(3) p0(2) by (simp add: fs'_def)
  ultimately show ?thesis by blast
qed

lemma unique_reservation:
  assumes "fs_ok fs" "i < length (FPacketReservations fs)" "j < length (FPacketReservations fs)"
    "FPacketReservations fs ! i = Some a" "FPacketReservations fs ! j = Some a"
  shows "i = j"
proof -
  have "\<not> x < y" if "y < length xs" "xs ! x = Some a" "xs ! y = Some a" "count_list xs (Some a) \<le> 1"
    for x y and xs :: "nat option list"
  proof
    assume "x < y"
    then have "Some a \<in> set (take y xs)" using that by (auto simp: in_set_conv_nth intro!: exI [of _ x])
    then have c: "count_list (take y xs) (Some a) \<noteq> 0" by (simp add: count_list_0_iff)
    have "xs = take y xs @ Some a # drop (Suc y) xs" using that by (metis id_take_nth_drop)
    from arg_cong [OF this, of "\<lambda>xs. count_list xs (Some a)"]
    have "count_list xs (Some a) = count_list (take y xs) (Some a) + Suc (count_list (drop (Suc y) xs) (Some a))"
      by simp
    then show False using that(4) c by linarith
  qed
  then show ?thesis using assms by (metis fs_ok_def nat_neq_iff)
qed

lemma IndexOf_eq:
  assumes "fs_ok fs" "i < length (FPacketReservations fs)" "FPacketReservations fs ! i = Some a"
  shows "IndexOf a fs = Some i"
  unfolding IndexOf_def
proof (rule first_index_eq)
  show "FPacketReservations fs ! j \<noteq> Some a" if "j < i" for j
    using unique_reservation [OF assms(1,2), of j a] assms(2,3) that by auto
qed (use assms(2,3) in simp_all)

lemma first_index_numbers:
  assumes "fs_ok fs"
  shows "first_index (\<lambda>k. k = n) (take (length (FPacketReservations fs)) (FPacketNumbers fs)) = None \<Longrightarrow>
      map_of (table fs) n = None"
    "first_index (\<lambda>k. k = n) (take (length (FPacketReservations fs)) (FPacketNumbers fs)) = Some i \<Longrightarrow>
      i < length (FPacketReservations fs) \<and> FPacketNumbers fs ! i = n \<and> map_of (table fs) n = Some (FPacketReservations fs ! i)"
proof -
  have keys: "map fst (table fs) = take (length (FPacketReservations fs)) (FPacketNumbers fs)"
    using assms by (simp add: table_def fs_ok_def min_def map_fst_zip_take)
  show "map_of (table fs) n = None"
    if "first_index (\<lambda>k. k = n) (take (length (FPacketReservations fs)) (FPacketNumbers fs)) = None"
    using that unfolding first_index_is_None keys [symmetric] by (auto simp: map_of_eq_None_iff)
  show "i < length (FPacketReservations fs) \<and> FPacketNumbers fs ! i = n \<and> map_of (table fs) n = Some (FPacketReservations fs ! i)"
    if "first_index (\<lambda>k. k = n) (take (length (FPacketReservations fs)) (FPacketNumbers fs)) = Some i"
  proof -
    have i: "i < length (FPacketReservations fs)" "FPacketNumbers fs ! i = n"
      using first_index_Some [OF that] by auto
    have "(n, FPacketReservations fs ! i) \<in> set (table fs)"
      using fst_table [OF assms i(1)] i(2) by (metis nth_mem)
    then show ?thesis using i assms by (simp add: fs_ok_def)
  qed
qed

section \<open>Receiving one message\<close>

text \<open>How a message travels, and what the length limit lets through.\<close>

definition frame :: "u8 list \<Rightarrow> u8 list" where
  "frame m = PUT_32BIT (of_nat (length m)) @ m"

definition acceptable :: "u8 list \<Rightarrow> bool" where
  "acceptable m \<longleftrightarrow> message_ok m \<and> length m \<le> 1024000"

lemma PacketLength_frame: "length m \<le> 1024000 \<Longrightarrow> PacketLength (PUT_32BIT (of_nat (length m))) = Inr (int (length m))"
  using sint_word_of_int32 [of "int (length m)"] by (simp add: PacketLength_def)

lemma receive_into_ok:
  assumes "FData p = Some d" "length d = 4 + length m" "m \<noteq> []" "length m < 2 ^ 31" "stream s = m @ rest"
  shows "\<exists>s'. receive_into (length m) p s = Inr (p\<lparr>FData := Some (take 4 d @ m)\<rparr>, s') \<and> stream s' = rest"
proof -
  obtain s' where s': "Receive (length m) s = Inr (m, s')" "stream s' = rest"
    using Receive_append [OF assms(4,5)] by blast
  have "write_at 4 (take (out_length (length m)) (stream s)) d = Inr (take 4 d @ m)"
    using assms out_length_id [OF assms(4)] by (simp add: write_at_def)
  then show ?thesis using assms s' by (simp add: receive_into_def)
qed

lemma receive_message_ok:
  assumes ok: "block_ok p" and st: "stream s = frame m @ rest" and m: "acceptable m"
  shows "\<exists>q s'. receive_message p s = Inr (q, s') \<and> stream s' = rest \<and> packet_ok q \<and> payload q = m \<and>
    FMessageNumber q = message_number m \<and> PType q = ucast (hd m) \<and> FReservedBy q = FReservedBy p \<and>
    FCapacity q \<noteq> 0"
proof -
  let ?n = "length m" and ?w = "of_nat (length m) :: u32"
  have n: "0 < ?n" "?n \<le> 1024000" using m by (auto simp: acceptable_def message_ok_def)
  have un: "unat ?w = ?n" using n unat_add_nat [of 0 ?n] by simp
  obtain s1 where s1: "Receive 4 s = Inr (PUT_32BIT ?w, s1)" "stream s1 = m @ rest"
    using Receive_append [of 4 s "PUT_32BIT ?w" "m @ rest"] st by (auto simp: frame_def)
  have "packet_ok (p\<lparr>FPosition := 0\<rparr>)" using ok by (simp add: block_ok_def)
  then obtain q0 where q0: "SetCapacity ?w (p\<lparr>FPosition := 0\<rparr>) = Inr q0" "packet_ok q0" "FCapacity q0 = ?w"
      "same_header (p\<lparr>FPosition := 0\<rparr>) q0"
    using SetCapacity_ok [of "p\<lparr>FPosition := 0\<rparr>" ?w] n un by auto
  then obtain p1 where p1: "SetCapacity ?w p = Inr p1" "q0 = p1\<lparr>FPosition := 0\<rparr>"
    using SetCapacity_position [where c = ?w and p = p and x = 0] by (auto simp: rbind_eq_Inr_iff)
  have w0: "?w \<noteq> 0" using n un by (metis less_numeral_extra(3) unat_0)
  then obtain d where d: "FData p1 = Some d" "length d = 4 + ?n"
    using q0(2,3) p1(2) un by (auto simp: packet_ok_def split: option.splits)
  let ?p2 = "p1\<lparr>FData := Some (take 4 d @ m)\<rparr>"
  obtain s2 where s2: "receive_into ?n p1 s1 = Inr (?p2, s2)" "stream s2 = rest"
    using receive_into_ok [OF d _ _ s1(2)] n by auto
  have "packet_ok (?p2\<lparr>FPosition := 0, FLength := ?w\<rparr>)" "payload (?p2\<lparr>FPosition := 0, FLength := ?w\<rparr>) = m"
    using q0(3) p1(2) d(2) un w0 by (auto simp: packet_ok_def payload_def)
  from DataUpdated_ok [OF this] m obtain q where q: "DataUpdated ?w ?p2 = Inr q" "packet_ok q" "payload q = m"
      "PType q = ucast (hd m)" "FMessageNumber q = message_number m" "FReservedBy q = FReservedBy ?p2"
      "FCapacity q = FCapacity ?p2" by (auto simp: acceptable_def)
  have "FReservedBy q0 = FReservedBy p" using q0(4) by (simp add: same_header_def)
  then have "FReservedBy q = FReservedBy p" "FCapacity q \<noteq> 0"
    using q(6,7) p1(2) q0(3) w0 by simp_all
  moreover have "receive_message p s = Inr (q, s2)"
    using s1(1) PacketLength_frame [OF n(2)] p1(1) s2(1) q(1) by (simp add: receive_message_def size_of_int_def)
  ultimately show ?thesis using s2(2) q by blast
qed

lemma receive_message_closed: "stream s = [] \<Longrightarrow> receive_message p s = Inl EConnectionClosed"
  using Receive_short [of 4 s] by (simp add: receive_message_def)

section \<open>Out-of-order responses\<close>

text \<open>
  The contract of the reservation table. Messages arrive in any order. One that somebody else reserved
  is kept for its owner, one whose owner is gone is dropped, and the wait goes on; the awaited one ends
  it. A message nobody asked for is an error.
\<close>

fun dispatch ::
  "u32 \<Rightarrow> u8 list list \<Rightarrow> (u32 \<times> nat option) list \<Rightarrow> (nat \<Rightarrow> u8 list) \<Rightarrow>
   (u8 list \<times> u8 list list \<times> (u32 \<times> nat option) list \<times> (nat \<Rightarrow> u8 list)) res" where
  "dispatch n [] tbl inbox = Inl EConnectionClosed"
| "dispatch n (m # ms) tbl inbox =
     (if message_number m = n then Inr (m, ms, forget n tbl, inbox)
      else case map_of tbl (message_number m) of
             None \<Rightarrow> Inl EMessageNumber
           | Some None \<Rightarrow> dispatch n ms (forget (message_number m) tbl) inbox
           | Some (Some b) \<Rightarrow> dispatch n ms tbl (inbox(b := m)))"

text \<open>The state of a wait: packet \<open>a\<close> has reserved number \<open>n\<close>, and the messages \<open>ms\<close> are to come.\<close>

definition waiting :: "nat \<Rightarrow> nat \<Rightarrow> u32 \<Rightarrow> u8 list list \<Rightarrow> (nat \<Rightarrow> u8 list) \<Rightarrow> TSFTPFileSystem \<Rightarrow> bool" where
  "waiting a r n ms inbox fs \<longleftrightarrow>
     fs_ok fs \<and> r < length (FPacketReservations fs) \<and> FPacketReservations fs ! r = Some a \<and>
     FPacketNumbers fs ! r = n \<and> stream (FSecureShell fs) = concat (map frame ms) \<and>
     (\<forall>m \<in> set ms. acceptable m) \<and> (\<forall>b. b \<noteq> a \<longrightarrow> payload (Packets fs b) = inbox b)"

text \<open>What the packet \<open>a\<close> holds after a message was received into it.\<close>

definition holds :: "TSFTPPacket \<Rightarrow> u8 list \<Rightarrow> bool" where
  "holds p m \<longleftrightarrow> packet_ok p \<and> payload p = m \<and> FMessageNumber p = message_number m \<and>
     PType p = ucast (hd m) \<and> FCapacity p \<noteq> 0"

lemma packet_ok_block_ok: "packet_ok p \<Longrightarrow> block_ok p"
  by (simp add: block_ok_def)

lemma fs_ok_set_packet: "fs_ok fs \<Longrightarrow> block_ok p \<Longrightarrow> fs_ok (set_packet a p (fs\<lparr>FSecureShell := s\<rparr>))"
  by (simp add: fs_ok_def table_def set_packet_def)

lemma set_packet_fields [simp]:
  "FPacketReservations (set_packet a p fs) = FPacketReservations fs"
  "FPacketNumbers (set_packet a p fs) = FPacketNumbers fs"
  "Packets (set_packet a p fs) = (Packets fs)(a := p)"
  "table (set_packet a p fs) = table fs"
  "FVersion (set_packet a p fs) = FVersion fs"
  by (simp_all add: set_packet_def table_def)

lemma receive_into_waiting:
  assumes w: "waiting a r n (m # ms) inbox fs"
  obtains p s where "receive_message (Packets fs a) (FSecureShell fs) = Inr (p, s)"
    "waiting a r n ms inbox (set_packet a p (fs\<lparr>FSecureShell := s\<rparr>))" "holds p m"
proof -
  have m: "block_ok (Packets fs a)" "stream (FSecureShell fs) = frame m @ concat (map frame ms)" "acceptable m"
    using w by (simp_all add: waiting_def fs_ok_def)
  from receive_message_ok [OF this] obtain p s where
    ps: "receive_message (Packets fs a) (FSecureShell fs) = Inr (p, s)" "stream s = concat (map frame ms)" "holds p m"
    by (auto simp: holds_def)
  moreover have "waiting a r n ms inbox (set_packet a p (fs\<lparr>FSecureShell := s\<rparr>))"
    using w ps(2,3) fs_ok_set_packet [of fs p a s] packet_ok_block_ok [of p] by (simp add: waiting_def holds_def)
  ultimately show ?thesis using that by blast
qed

lemma waiting_remove:
  assumes w: "waiting a r n ms inbox fs" and i: "i < length (FPacketReservations fs)" "FPacketReservations fs ! i = None"
  shows "waiting a (if r > i then r - 1 else r) n ms inbox (RemoveReservation i fs)"
proof -
  have ok: "fs_ok fs" and r: "r < length (FPacketReservations fs)" "FPacketReservations fs ! r = Some a"
      "FPacketNumbers fs ! r = n" using w by (simp_all add: waiting_def)
  have ri: "r \<noteq> i" using r i by auto
  have len: "length (FPacketReservations fs) \<le> length (FPacketNumbers fs)" using ok by (simp add: fs_ok_def)
  let ?r = "if r > i then r - 1 else r"
  have "?r < length (FPacketReservations (RemoveReservation i fs)) \<and>
      FPacketReservations (RemoveReservation i fs) ! ?r = Some a"
    using r i ri by (auto simp: RemoveReservation_fields nth_append)
  moreover have "FPacketNumbers (RemoveReservation i fs) ! ?r = n"
    unfolding RemoveReservation_fields shift_numbers [OF i(1) len]
    using r i ri len by (auto simp: nth_append)
  ultimately show ?thesis
    using w fs_ok_RemoveReservation [OF ok i(1)] i(2) by (simp add: waiting_def RemoveReservation_fields)
qed

lemma waiting_store:
  assumes w: "waiting a r n ms inbox fs" and h: "holds (Packets fs a) m" "acceptable m" and b: "b \<noteq> a"
  obtains q where "Packet_Assign (Packets fs a) (Packets fs b) = Inr q"
    "waiting a r n ms (inbox(b := m)) (set_packet b q fs)" "holds q m"
proof -
  let ?b = "(Packets fs b)\<lparr>FPosition := 0\<rparr>"
  have l: "length m \<le> 1024000" "message_ok m" using h(2) by (simp_all add: acceptable_def)
  have "packet_ok ?b" using w by (simp add: waiting_def fs_ok_def block_ok_def)
  moreover have "unat (FLength (Packets fs a)) + 260 < 2 ^ 32"
    using h(1) length_payload [of "Packets fs a"] l by (simp add: holds_def)
  ultimately obtain q where q: "Packet_Assign (Packets fs a) ?b = Inr q" "packet_ok q" "payload q = m" "holds q m"
    using Packet_Assign_ok [of "Packets fs a" ?b] h l by (auto simp: holds_def)
  moreover have "Packet_Assign (Packets fs a) (Packets fs b) = Inr q"
    using q(1) Packet_Assign_position [where source = "Packets fs a" and p = "Packets fs b" and x = 0] by simp
  moreover have "waiting a r n ms (inbox(b := m)) (set_packet b q fs)"
    using w q(2,3) b packet_ok_block_ok [of q] fs_ok_set_packet [of fs q b "FSecureShell fs"]
    by (simp add: waiting_def)
  ultimately show ?thesis using that by blast
qed

text \<open>One round of the loop follows the contract.\<close>

lemma receive_step_waiting:
  assumes w: "waiting a r n (m # ms) inbox fs"
  shows "\<exists>p s. let fs1 = set_packet a p (fs\<lparr>FSecureShell := s\<rparr>) in
    waiting a r n ms inbox fs1 \<and> table fs1 = table fs \<and> holds p m \<and>
    receive_step a False (Some r) fs =
      (if message_number m = n then Inr (False, Some r, fs1) else dispatch_reserved a (Some r) fs1)"
proof -
  obtain p s where p: "receive_message (Packets fs a) (FSecureShell fs) = Inr (p, s)"
      "waiting a r n ms inbox (set_packet a p (fs\<lparr>FSecureShell := s\<rparr>))" "holds p m"
    using receive_into_waiting [OF w] by blast
  have "FPacketNumbers fs ! r = n" using w by (simp add: waiting_def)
  then have "receive_step a False (Some r) fs =
      (if message_number m = n then Inr (False, Some r, set_packet a p (fs\<lparr>FSecureShell := s\<rparr>))
       else dispatch_reserved a (Some r) (set_packet a p (fs\<lparr>FSecureShell := s\<rparr>)))"
    using p(1,3) by (auto simp: receive_step_def holds_def Let_def)
  moreover have "table (set_packet a p (fs\<lparr>FSecureShell := s\<rparr>)) = table fs" by (simp add: table_def)
  ultimately show ?thesis using p(2,3) by (auto simp: Let_def)
qed

lemma dispatch_reserved_waiting:
  assumes w: "waiting a r n ms inbox fs" and h: "holds (Packets fs a) m" "acceptable m" and n: "message_number m \<noteq> n"
  shows "case map_of (table fs) (message_number m) of
      None \<Rightarrow> dispatch_reserved a (Some r) fs = Inr (False, Some r, fs)
    | Some None \<Rightarrow> \<exists>r' fs'. dispatch_reserved a (Some r) fs = Inr (True, Some r', fs') \<and> waiting a r' n ms inbox fs' \<and>
        table fs' = forget (message_number m) (table fs)
    | Some (Some b) \<Rightarrow> \<exists>fs'. dispatch_reserved a (Some r) fs = Inr (True, Some r, fs') \<and>
        waiting a r n ms (inbox(b := m)) fs' \<and> table fs' = table fs \<and> b \<noteq> a \<and> holds (Packets fs' b) m \<and>
        (\<forall>c. c \<noteq> b \<longrightarrow> Packets fs' c = Packets fs c)"
proof -
  have ok: "fs_ok fs" using w by (simp add: waiting_def)
  have num: "FMessageNumber (Packets fs a) = message_number m" using h by (simp add: holds_def)
  note fi = first_index_numbers [OF ok, of "message_number m"]
  show ?thesis
  proof (cases "first_index (\<lambda>k. k = message_number m) (take (length (FPacketReservations fs)) (FPacketNumbers fs))")
    case None
    then show ?thesis using fi(1) num by (simp add: dispatch_reserved_def)
  next
    case (Some i)
    note i = fi(2) [OF Some]
    show ?thesis
    proof (cases "FPacketReservations fs ! i")
      case None
      then have "dispatch_reserved a (Some r) fs = Inr (True, Some (if r > i then r - 1 else r), RemoveReservation i fs)"
        using Some num by (simp add: dispatch_reserved_def)
      then show ?thesis
        using i None waiting_remove [OF w _ None] fs_ok_RemoveReservation(2) [OF ok, of i] by auto
    next
      case b: (Some b)
      then have ba: "b \<noteq> a"
        using w i n unique_reservation [OF ok, of i r a] by (auto simp: waiting_def)
      obtain q where q: "Packet_Assign (Packets fs a) (Packets fs b) = Inr q"
          "waiting a r n ms (inbox(b := m)) (set_packet b q fs)" "holds q m"
        using waiting_store [OF w h ba] by blast
      then show ?thesis using Some num i b ba by (simp add: dispatch_reserved_def)
    qed
  qed
qed

text \<open>The loop does what the contract says.\<close>

definition loop_result ::
  "nat \<Rightarrow> u32 \<Rightarrow> (u8 list \<times> u8 list list \<times> (u32 \<times> nat option) list \<times> (nat \<Rightarrow> u8 list)) res \<Rightarrow>
   (nat option \<times> TSFTPFileSystem) res \<Rightarrow> bool" where
  "loop_result a n spec result \<longleftrightarrow>
     (case spec of
        Inr (m, rest, tbl, inbox) \<Rightarrow>
          (\<exists>r fs. result = Inr (Some r, fs) \<and> waiting a r n rest inbox fs \<and> forget n (table fs) = tbl \<and>
             holds (Packets fs a) m \<and> message_number m = n)
      | Inl e \<Rightarrow>
          if e = EMessageNumber then
            (\<exists>r m ms inbox fs. result = Inr (Some r, fs) \<and> waiting a r n ms inbox fs \<and> holds (Packets fs a) m \<and>
               message_number m \<noteq> n)
          else result = Inl e)"

lemma receive_loop_dispatch:
  "waiting a r n ms inbox fs \<Longrightarrow>
   loop_result a n (dispatch n ms (table fs) inbox) (receive_loop a False (Some r) fs)"
proof (induction ms arbitrary: r inbox fs)
  case Nil
  then have "receive_step a False (Some r) fs = Inl EConnectionClosed"
    by (simp add: receive_step_def waiting_def receive_message_closed)
  then show ?case by (simp add: receive_loop.simps [of a] loop_result_def)
next
  case (Cons m ms)
  obtain fs1 where fs1: "waiting a r n ms inbox fs1" "table fs1 = table fs" "holds (Packets fs1 a) m"
    and step: "receive_step a False (Some r) fs =
      (if message_number m = n then Inr (False, Some r, fs1) else dispatch_reserved a (Some r) fs1)"
    using receive_step_waiting [OF Cons.prems] by (auto simp: Let_def)
  have acc: "acceptable m" using Cons.prems by (simp add: waiting_def)
  show ?case
  proof (cases "message_number m = n")
    case True
    then show ?thesis
      using fs1 step by (auto simp: receive_loop.simps [of a _ _ fs] loop_result_def)
  next
    case False
    note d = dispatch_reserved_waiting [OF fs1(1,3) acc False, unfolded fs1(2)]
    consider "map_of (table fs) (message_number m) = None"
      | "map_of (table fs) (message_number m) = Some None"
      | b where "map_of (table fs) (message_number m) = Some (Some b)"
      by (metis option.exhaust)
    then show ?thesis
    proof cases
      case 1
      then have "receive_loop a False (Some r) fs = Inr (Some r, fs1)"
        using d False step by (simp add: receive_loop.simps [of a _ _ fs])
      then show ?thesis using 1 False fs1 by (auto simp: loop_result_def)
    next
      case 2
      then obtain r' fs' where "receive_step a False (Some r) fs = Inr (True, Some r', fs')"
        and w: "waiting a r' n ms inbox fs'" "table fs' = forget (message_number m) (table fs)"
        using d False step by auto
      then have "receive_loop a False (Some r) fs = receive_loop a False (Some r') fs'"
        by (simp add: receive_loop.simps [of a _ _ fs])
      then show ?thesis using Cons.IH [OF w(1)] 2 False w(2) by simp
    next
      case 3
      then obtain fs' where "receive_step a False (Some r) fs = Inr (True, Some r, fs')"
        and w: "waiting a r n ms (inbox(b := m)) fs'" "table fs' = table fs"
        using d False step by auto
      then have "receive_loop a False (Some r) fs = receive_loop a False (Some r) fs'"
        by (simp add: receive_loop.simps [of a _ _ fs])
      then show ?thesis using Cons.IH [OF w(1)] 3 False w(2) by (simp add: fun_upd_def)
    qed
  qed
qed

lemma waiting_done:
  assumes "waiting a r n ms inbox fs" "holds (Packets fs a) m"
  shows "fs_ok (RemoveReservation r fs)" "table (RemoveReservation r fs) = forget n (table fs)"
    "stream (FSecureShell (RemoveReservation r fs)) = concat (map frame ms)"
    "holds (Packets (RemoveReservation r fs) a) m"
    "b \<noteq> a \<Longrightarrow> payload (Packets (RemoveReservation r fs) b) = inbox b"
  using assms fs_ok_RemoveReservation [of fs r] by (auto simp: waiting_def RemoveReservation_fields holds_def)

lemma ReceivePacket_waiting:
  assumes "waiting a r n ms inbox fs" "FCapacity (Packets fs a) = 0"
  shows "ReceivePacket a expected allow False fs =
    rbind (receive_loop a False (Some r) fs) (\<lambda>(reservation, fs).
      let fs = (case reservation of Some r \<Rightarrow> RemoveReservation r fs | None \<Rightarrow> fs);
          result = check_type (FVersion fs) (Packets fs a) expected allow
      in if result = Inl EInvalidType then Inl EInvalidType else Inr (fs, result))"
proof -
  have "IndexOf a fs = Some r" using assms IndexOf_eq [of fs r a] by (simp add: waiting_def)
  then show ?thesis using assms(2) by (simp add: ReceivePacket_def)
qed

section \<open>The invariant under any input\<close>

text \<open>The server may send anything; no stream is longer than \<open>2 ^ 63\<close> bytes.\<close>

lemma out_length_negative: "- (2 ^ 31) \<le> i \<Longrightarrow> i < 0 \<Longrightarrow> out_length (size_of_int i) = size_of_int i"
proof -
  assume i: "- (2 ^ 31) \<le> i" "i < 0"
  have "(of_nat (size_of_int i) :: u32) = word_of_int (i + 2 ^ 64)"
    using i by (simp add: size_of_int_def of_nat_nat)
  also have "\<dots> = word_of_int i" by (simp add: word_of_int_eq_iff take_bit_eq_mod)
  finally have "sint (of_nat (size_of_int i) :: u32) = i" using i sint_word_of_int32 [of i] by simp
  then show ?thesis using i by (simp only: out_length_def Let_def) (simp add: size_of_int_def)
qed

lemma PacketLength_bounds: "PacketLength buf = Inr len \<Longrightarrow> - (2 ^ 31) \<le> len \<and> len \<le> 1024000"
  using sint_ge [of "GET_32BIT buf"] by (auto simp: PacketLength_def Let_def split: if_splits)

lemma DataUpdated_Inr:
  assumes "packet_ok (p\<lparr>FPosition := 0, FLength := n\<rparr>)" "DataUpdated n p = Inr q"
  shows "packet_ok q \<and> message_ok (payload q) \<and> FLength q = n \<and> FMessageNumber q = message_number (payload q)"
proof -
  let ?p = "p\<lparr>FPosition := 0, FLength := n\<rparr>" and ?bs = "payload (p\<lparr>FPosition := 0, FLength := n\<rparr>)"
  have rem: "remaining ?p = ?bs" by (simp add: remaining_def)
  have "message_ok ?bs"
  proof (rule ccontr)
    assume n: "\<not> message_ok ?bs"
    then obtain b bs where b: "?bs = b # bs" "b \<noteq> 2" "length bs < 4"
      using assms(2) rem GetByte_conv [OF assms(1)]
      by (cases ?bs) (auto simp: DataUpdated_def message_ok_def)
    let ?p1 = "(DataConsumed 1 ?p)\<lparr>PType := ucast b\<rparr>"
    have "packet_ok ?p1" "remaining ?p1 = bs"
      using DataConsumed_ok [OF assms(1), of 1] rem b(1) by (simp_all add: remaining_header)
    then have "GetCardinal ?p1 = Inl EPacketTooSmall" using GetCardinal_conv [of ?p1] b(3) by simp
    then show False
      using assms(2) b rem GetByte_conv [OF assms(1)] ucast_u8_eq_2 [of b]
      by (auto simp: DataUpdated_def Let_def)
  qed
  then show ?thesis using DataUpdated_ok [OF assms(1) refl] assms(2) by auto
qed

lemma receive_message_Inr:
  assumes ok: "block_ok p" and r: "receive_message p s = Inr (q, s')" and small: "length (stream s) < 2 ^ 63"
  shows "packet_ok q \<and> message_ok (payload q) \<and> unat (FLength q) \<le> 1024000"
proof -
  obtain buf s1 len p1 p2 where
    r1: "Receive 4 s = Inr (buf, s1)" "PacketLength buf = Inr len" "SetCapacity (word_of_int len) p = Inr p1"
      "receive_into (size_of_int len) p1 s1 = Inr (p2, s')" "DataUpdated (word_of_int len) p2 = Inr q"
    using r by (auto simp: receive_message_def rbind_eq_Inr_iff split: prod.splits)
  note b = PacketLength_bounds [OF r1(2)]
  have s1: "length (stream s1) < 2 ^ 63" using Receive_shrinks [OF r1(1)] small by simp
  have len: "0 \<le> len"
  proof (rule ccontr)
    assume neg: "\<not> 0 \<le> len"
    then have o: "out_length (size_of_int len) = size_of_int len" using b out_length_negative by simp
    have big: "2 ^ 63 \<le> size_of_int len" using neg b by (simp add: size_of_int_def)
    then have "Receive (size_of_int len) s1 = Inl EConnectionClosed"
      using Receive_delivers_out_length [of "size_of_int len" s1] o s1 by (simp add: delivers_def split: if_splits)
    then show False using r1(4) big by (auto simp: receive_into_def rbind_eq_Inr_iff split: option.splits)
  qed
  let ?w = "word_of_int len :: u32"
  have w: "unat ?w = nat len" using len b unat_add_nat [of 0 "nat len"] by simp
  have "nat len < 4294967292" using b by linarith
  then obtain q0 where q0: "SetCapacity ?w (p\<lparr>FPosition := 0\<rparr>) = Inr q0" "packet_ok q0" "FCapacity q0 = ?w"
    using SetCapacity_ok [of "p\<lparr>FPosition := 0\<rparr>" ?w] ok b w by (auto simp: block_ok_def)
  then have q01: "q0 = p1\<lparr>FPosition := 0\<rparr>"
    using SetCapacity_position [where c = ?w and p = p and x = 0] r1(3) by (auto simp: rbind_eq_Inr_iff)
  have "packet_ok (p2\<lparr>FPosition := 0, FLength := ?w\<rparr>)"
    using r1(4) q0(2,3) q01
    by (auto simp: receive_into_def rbind_eq_Inr_iff packet_ok_def write_at_def split: if_splits option.splits)
  from DataUpdated_Inr [OF this r1(5)] show ?thesis using w b by (simp add: nat_le_iff)
qed

lemma new_TSFTPPacket_ok:
  "\<exists>p counter'. new_TSFTPPacket SSH_FXP_NONE cp counter = Inr (p, counter') \<and> packet_ok p \<and>
     message_ok (payload p) \<and> unat (FLength p) = 5 \<and> PType p = SSH_FXP_NONE \<and> hd (payload p) = 0 \<and> \<not> FReservedBy p"
proof -
  let ?i = "(Packet_Init cp)\<lparr>PType := 0\<rparr>"
  have "packet_ok ?i" "payload ?i = []" "room ?i 1" by (simp_all add: packet_ok_def payload_def room_def Packet_Init_def)
  then obtain p1 where p1: "AddByte 0 ?i = Inr p1" "packet_ok p1" "payload p1 = [0]" "same_header ?i p1"
    using byte.add_ok [of ?i 0] by auto
  have "unat (FLength p1) = 1" using length_payload [OF p1(2)] p1(3) by simp
  define p2 where "p2 = p1\<lparr>FMessageNumber := push_bit 8 counter + PType p1\<rparr>"
  have "packet_ok p2" "payload p2 = [0]" "room p2 4" using p1 \<open>unat (FLength p1) = 1\<close> by (simp_all add: p2_def room_def)
  then obtain p3 where p3: "AddCardinal (FMessageNumber p2) p2 = Inr p3" "packet_ok p3"
      "payload p3 = 0 # PUT_32BIT (FMessageNumber p2)" "same_header p2 p3"
    using cardinal.add_ok [of p2 "FMessageNumber p2"] by auto
  have "new_TSFTPPacket SSH_FXP_NONE cp counter = Inr (p3, counter + 1)"
    using p1(1,4) p3(1)
    by (simp add: new_TSFTPPacket_def ChangeType_def SetCapacity_def Packet_Init_def same_header_def AssignNumber_def p2_def)
  moreover have "unat (FLength p3) = 5" using length_payload [OF p3(2)] p3(3) by simp
  ultimately show ?thesis
    using p1(4) p3 by (simp add: message_ok_def same_header_def p2_def Packet_Init_def)
qed

lemma block_ok_Assign:
  assumes "packet_ok source" "block_ok p" "message_ok (payload source)" "unat (FLength source) \<le> 1024000"
    "Packet_Assign source p = Inr q"
  shows "packet_ok q"
proof -
  have "Packet_Assign source (p\<lparr>FPosition := 0\<rparr>) = Inr q"
    using assms(5) Packet_Assign_position [where source = source and p = p and x = 0] by simp
  then show ?thesis
    using Packet_Assign_ok [of source "p\<lparr>FPosition := 0\<rparr>"] assms by (auto simp: block_ok_def)
qed

definition own_index :: "nat \<Rightarrow> nat option \<Rightarrow> TSFTPFileSystem \<Rightarrow> bool" where
  "own_index a r fs \<longleftrightarrow>
     (\<forall>i. r = Some i \<longrightarrow> i < length (FPacketReservations fs) \<and> FPacketReservations fs ! i = Some a)"

lemma own_index_remove:
  assumes "own_index a (Some r) fs" "i < length (FPacketReservations fs)" "FPacketReservations fs ! i = None"
  shows "own_index a (Some (if r > i then r - 1 else r)) (RemoveReservation i fs)"
proof -
  have "r \<noteq> i" using assms by (auto simp: own_index_def)
  then show ?thesis
    using assms by (cases "r > i") (auto simp: own_index_def RemoveReservation_fields nth_append)
qed

lemma dispatch_reserved_ok:
  assumes ok: "fs_ok fs" and p: "packet_ok (Packets fs a)" "message_ok (payload (Packets fs a))"
      "unat (FLength (Packets fs a)) \<le> 1024000"
    and r: "dispatch_reserved a r fs = Inr (again, r', fs')"
    and v: "own_index a r fs"
  shows "fs_ok fs' \<and> own_index a r' fs'"
proof (cases "first_index (\<lambda>n. n = FMessageNumber (Packets fs a)) (take (length (FPacketReservations fs)) (FPacketNumbers fs))")
  case None
  then show ?thesis using r ok v by (auto simp: dispatch_reserved_def)
next
  case (Some i)
  then have i: "i < length (FPacketReservations fs)" using first_index_Some [OF Some] by simp
  show ?thesis
  proof (cases "FPacketReservations fs ! i")
    case None
    then have "fs' = RemoveReservation i fs" "r' = map_option (\<lambda>r. if r > i then r - 1 else r) r"
      using r Some by (auto simp: dispatch_reserved_def)
    then show ?thesis
      using fs_ok_RemoveReservation(1) [OF ok i] own_index_remove [OF _ i None] v
      by (cases r) (simp_all add: own_index_def [of _ None])
  next
    case b: (Some b)
    show ?thesis
    proof (cases "b = a")
      case False
      then obtain q where "Packet_Assign (Packets fs a) (Packets fs b) = Inr q" "fs' = set_packet b q fs" "r' = r"
        using r Some b by (auto simp: dispatch_reserved_def rbind_eq_Inr_iff)
      moreover from this have "packet_ok q"
        using block_ok_Assign [OF p(1) _ p(2,3)] ok by (auto simp: fs_ok_def)
      ultimately show ?thesis
        using ok v fs_ok_set_packet [OF ok packet_ok_block_ok, of q b "FSecureShell fs"] by (simp add: own_index_def)
    qed (use r Some b ok v in \<open>auto simp: dispatch_reserved_def\<close>)
  qed
qed

lemma receive_step_ok:
  assumes ok: "fs_ok fs" "unread fs < 2 ^ 63" "own_index a r fs" and r: "receive_step a tryOnly r fs = Inr (again, r', fs')"
  shows "fs_ok fs' \<and> own_index a r' fs'"
proof -
  consider t counter p where "new_TSFTPPacket SSH_FXP_NONE (FsCodePage fs) (FMessageCounter fs) = Inr (t, counter)"
      "Packet_Assign t (Packets fs a) = Inr p" "r' = r" "fs' = set_packet a p (fs\<lparr>FMessageCounter := counter\<rparr>)"
    | p s where "receive_message (Packets fs a) (FSecureShell fs) = Inr (p, s)"
      "dispatch_reserved a r (set_packet a p (fs\<lparr>FSecureShell := s\<rparr>)) = Inr (again, r', fs') \<or>
       r' = r \<and> fs' = set_packet a p (fs\<lparr>FSecureShell := s\<rparr>)"
    using r by (auto simp: receive_step_def rbind_eq_Inr_iff Let_def split: if_splits prod.splits option.splits)
  then show ?thesis
  proof cases
    case 1
    have "packet_ok t" "message_ok (payload t)" "unat (FLength t) \<le> 1024000"
      using 1(1) new_TSFTPPacket_ok [of "FsCodePage fs" "FMessageCounter fs"] by auto
    then have "packet_ok p" using block_ok_Assign [OF _ _ _ _ 1(2)] ok by (simp add: fs_ok_def)
    then show ?thesis using 1(3,4) ok packet_ok_block_ok [of p] by (simp add: fs_ok_def table_def own_index_def)
  next
    case 2
    have "block_ok (Packets fs a)" using ok by (simp add: fs_ok_def)
    then have p: "packet_ok p" "message_ok (payload p)" "unat (FLength p) \<le> 1024000"
      using receive_message_Inr [OF _ 2(1)] ok(2) by (auto simp: unread_def)
    let ?fs = "set_packet a p (fs\<lparr>FSecureShell := s\<rparr>)"
    have "fs_ok ?fs" "own_index a r ?fs"
      using fs_ok_set_packet [OF ok(1) packet_ok_block_ok, OF p(1)] ok(3) by (simp_all add: own_index_def)
    then show ?thesis using 2(2) dispatch_reserved_ok [of ?fs a] p by auto
  qed
qed

lemma receive_loop_ok:
  "fs_ok fs \<Longrightarrow> unread fs < 2 ^ 63 \<Longrightarrow> own_index a r fs \<Longrightarrow> receive_loop a tryOnly r fs = Inr (r', fs') \<Longrightarrow>
   fs_ok fs' \<and> own_index a r' fs'"
proof (induction a tryOnly r fs rule: receive_loop.induct)
  case (1 a tryOnly r fs)
  from "1.prems"(4) obtain again r1 fs1 where step: "receive_step a tryOnly r fs = Inr (again, r1, fs1)"
    by (auto simp: receive_loop.simps [of a tryOnly r fs] split: sum.splits)
  have ok: "fs_ok fs1 \<and> own_index a r1 fs1"
    by (rule receive_step_ok [OF "1.prems"(1-3) step])
  show ?case
  proof (cases again)
    case True
    then have "unread fs1 < 2 ^ 63" using receive_step_unread [of a tryOnly r fs] step "1.prems"(2) by fastforce
    then show ?thesis
      using "1.IH" [OF step refl _ True] ok step True "1.prems"(4) by (simp add: receive_loop.simps [of a tryOnly r fs])
  next
    case False
    then show ?thesis using ok step "1.prems"(4) by (simp add: receive_loop.simps [of a tryOnly r fs])
  qed
qed

lemma IndexOf_own: "own_index a (IndexOf a fs) fs"
  using first_index_Some [of "\<lambda>x. x = Some a" "FPacketReservations fs"] by (auto simp: own_index_def IndexOf_def)

lemma ReceivePacket_ok:
  assumes ok: "fs_ok fs" "unread fs < 2 ^ 63" and r: "ReceivePacket a expected allow tryOnly fs = Inr (fs', result)"
  shows "fs_ok fs'"
proof -
  let ?done = "\<lambda>(reservation, fs1).
    fs' = fs1 \<or> (\<exists>i. reservation = Some i \<and> fs' = RemoveReservation i fs1)"
  obtain x where x: "(if IndexOf a fs = None \<or> FCapacity (Packets fs a) = 0
        then receive_loop a tryOnly (IndexOf a fs) fs else Inr (IndexOf a fs, fs)) = Inr x" "?done x"
    using r unfolding ReceivePacket_def Let_def rbind_eq_Inr_iff by (auto split: if_splits option.splits)
  obtain r' fs1 where r': "receive_loop a tryOnly (IndexOf a fs) fs = Inr (r', fs1) \<or> r' = IndexOf a fs \<and> fs1 = fs"
      "?done (r', fs1)"
    using x by (cases x) (auto split: if_splits)
  then have "fs_ok fs1" "own_index a r' fs1"
    using receive_loop_ok [OF ok IndexOf_own] ok IndexOf_own [of a fs] by auto
  then show ?thesis using r'(2) fs_ok_RemoveReservation(1) by (auto simp: own_index_def)
qed

lemma fs_ok_destroy:
  assumes "fs_ok fs" "destroy_packet a fs = Inr fs'"
  shows "fs_ok fs'"
proof -
  have none: "fs_ok (fs\<lparr>FPacketReservations := (FPacketReservations fs)[i := None]\<rparr>)" for i
  proof -
    have "map fst (zip xs (ys[i := y])) = map fst (zip xs ys)" for xs :: "u32 list" and ys and y :: "nat option"
      by (simp add: map_fst_zip_take)
    moreover have "count_list (xs[i := None]) (Some b) \<le> count_list xs (Some b)" for xs :: "nat option list" and b
      by (induction xs arbitrary: i) (auto split: nat.split simp: le_SucI)
    ultimately show ?thesis using assms(1) order_trans by (simp add: fs_ok_def table_def) blast
  qed
  show ?thesis
    using assms none IndexOf_own [of a fs] fs_ok_RemoveReservation(1) [of fs]
    by (auto simp: destroy_packet_def UnreserveResponse_def own_index_def split: if_splits option.splits)
qed

text \<open>
  What happens to the state between connecting and closing: requests reserve their responses with
  numbers that are not in use, packets are destroyed, responses are waited for, data arrives, and
  packets that nobody waits for are filled.
\<close>

inductive session_step :: "TSFTPFileSystem \<Rightarrow> TSFTPFileSystem \<Rightarrow> bool" where
  reserve: "n \<notin> fst ` set (table fs) \<Longrightarrow> Some a \<notin> set (FPacketReservations fs) \<Longrightarrow>
    ReserveResponse n (Some a) fs = Inr fs' \<Longrightarrow> session_step fs fs'"
| destroy: "destroy_packet a fs = Inr fs' \<Longrightarrow> session_step fs fs'"
| receive: "ReceivePacket a expected allow tryOnly fs = Inr (fs', result) \<Longrightarrow> unread fs < 2 ^ 63 \<Longrightarrow> session_step fs fs'"
| arrive: "session_step fs (fs\<lparr>FSecureShell := s\<rparr>)"
| fill: "packet_ok p \<Longrightarrow> session_step fs (set_packet a p fs)"

lemma session_step_ok: "session_step fs fs' \<Longrightarrow> fs_ok fs \<Longrightarrow> fs_ok fs'"
proof (induction rule: session_step.induct)
  case (reserve n fs a fs')
  then show ?case using ReserveResponse_table [of fs n a] by auto
next
  case (arrive fs s)
  then show ?case by (simp add: fs_ok_def table_def)
next
  case (fill p fs a)
  then show ?case using fs_ok_set_packet [of fs p a "FSecureShell fs"] packet_ok_block_ok [of p] by simp
qed (auto intro: fs_ok_destroy ReceivePacket_ok)

section \<open>Block sizes fit\<close>

lemma cmod_16: "0 \<le> n \<Longrightarrow> cmod n 16 = n mod 16"
  by (simp add: cmod_def minus_mult_div_eq_mod)

lemma RoundToBlock_dvd: "0 \<le> n \<Longrightarrow> 16 dvd RoundToBlock n"
  unfolding RoundToBlock_def Let_def by (simp add: cmod_16) presburger

lemma unat_round: "16 dvd n \<Longrightarrow> unat (word_of_int n :: u32) \<le> 2 ^ 32 - 16"
proof -
  assume "16 dvd n"
  then have "16 dvd take_bit 32 n" by (simp add: take_bit_eq_mod dvd_mod_iff)
  moreover have "0 \<le> take_bit 32 n" "take_bit 32 n < 2 ^ 32" by (simp_all add: take_bit_eq_mod)
  ultimately have "take_bit 32 n \<le> 2 ^ 32 - 16" by (simp del: take_bit_eq_mod) presburger
  moreover have "unat (word_of_int n :: u32) = nat (take_bit 32 n)" by (simp add: unsigned_of_int)
  ultimately show ?thesis by (simp add: nat_le_iff)
qed

lemma RoundToBlockDown_bounds: "0 \<le> n \<Longrightarrow> 0 \<le> RoundToBlockDown n \<and> RoundToBlockDown n \<le> n"
  by (simp add: RoundToBlockDown_def cmod_16 zmod_le_nonneg_dividend)

lemma RoundToBlockDown_word: "word_of_int (RoundToBlockDown (uint w)) \<le> (w :: u32)"
proof -
  have b: "0 \<le> RoundToBlockDown (uint w)" "RoundToBlockDown (uint w) \<le> uint w"
    using RoundToBlockDown_bounds [of "uint w"] by simp_all
  moreover have "uint w < 2 ^ 32" using uint_lt2p [of w] by simp
  ultimately have "uint (word_of_int (RoundToBlockDown (uint w)) :: u32) = RoundToBlockDown (uint w)"
    by (simp add: unsigned_of_int take_bit_int_eq_self)
  then show ?thesis using b by (simp add: word_le_def)
qed

lemma desired_block_no_wrap: "0 \<le> cps \<Longrightarrow> unat (desired_block cps) \<le> 2 ^ 32 - 16"
  using unat_round [OF RoundToBlock_dvd, of cps] by (simp add: desired_block_def Let_def)

lemma limit_block_le: "limit_block ov m result \<le> result"
  using order_trans [OF RoundToBlockDown_word] by (auto simp: limit_block_def Let_def)

lemma limit_block_fits:
  "limit_block ov m result = 0 \<or> ov + 9 \<le> m \<and> limit_block ov m result \<le> m - (ov + 9)"
  using RoundToBlockDown_word by (auto simp: limit_block_def Let_def not_less)

lemma block_fits:
  fixes x l v :: u32
  assumes "x \<le> l - v" "v \<le> l"
  shows "unat x + unat v \<le> unat l"
proof -
  have "unat (l - v) = unat l - unat v" using assms(2) by (simp add: unat_sub)
  then show ?thesis using assms by (simp add: word_le_nat_alt)
qed

lemma TransferBlockSize_no_wrap:
  "0 \<le> cps \<Longrightarrow> (\<And>x. adj x \<le> x) \<Longrightarrow> unat (TransferBlockSize ov cps cm fm adj) \<le> 2 ^ 32 - 16"
proof -
  assume cps: "0 \<le> cps" and adj: "adj x \<le> x" for x
  have "adj (limit_block ov m (desired_block cps)) \<le> desired_block cps" for m
    by (rule order_trans [OF adj limit_block_le])
  then have "TransferBlockSize ov cps cm fm adj \<le> desired_block cps"
    using adj by (simp add: TransferBlockSize_def Let_def)
  then show ?thesis using desired_block_no_wrap [OF cps] by (simp add: word_le_nat_alt)
qed

lemma TransferBlockSize_limit:
  assumes adj: "\<And>x. adj x \<le> x" and "l \<in> {cm, fm}" "l > 0"
  shows "TransferBlockSize ov cps cm fm adj = 0 \<or> unat (TransferBlockSize ov cps cm fm adj) + unat (ov + 9) \<le> unat l"
proof -
  define m where "m = (if fm > 0 \<and> (fm < cm \<or> \<not> cm > 0) then fm else cm)"
  define x where "x = limit_block ov m (desired_block cps)"
  have m: "m > 0" "m \<le> l" using assms(2,3) by (auto simp: m_def not_less word_gt_0)
  then have t: "TransferBlockSize ov cps cm fm adj = adj x"
    by (auto simp: TransferBlockSize_def Let_def m_def x_def split: if_splits)
  have "adj x = 0" if "x = 0" using adj [of x] that by simp
  moreover have "unat (adj x) + unat (ov + 9) \<le> unat l" if "ov + 9 \<le> m" "x \<le> m - (ov + 9)"
    using block_fits [of "adj x" m "ov + 9"] adj [of x] that m(2) by (simp add: word_le_nat_alt)
  ultimately show ?thesis using t limit_block_fits [of ov m "desired_block cps"] by (auto simp: x_def)
qed

section \<open>Properties\<close>

text \<open>C2: Waiting for a response implements the contract of the reservation table for every order in
  which the responses arrive. If the awaited response is among the acceptable messages to come and
  only reserved ones precede it, it ends up in the waiting packet, its reservation is gone, the
  responses that overtook it are in the packets that reserved them, those whose packets are gone are
  dropped, and the rest of the stream is untouched; a message nobody asked for and the end of the
  connection are errors.\<close>

theorem ReceiveResponse_implements_dispatch:
  assumes "waiting a r n ms inbox fs" "FCapacity (Packets fs a) = 0"
  shows "case dispatch n ms (table fs) inbox of
      Inl e \<Rightarrow> ReceiveResponse n a (-1) allow False fs = Inl e
    | Inr (m, rest, tbl, inbox') \<Rightarrow>
        \<exists>fs'. ReceiveResponse n a (-1) allow False fs = Inr (fs', Inr 0) \<and> fs_ok fs' \<and> table fs' = tbl \<and>
          stream (FSecureShell fs') = concat (map frame rest) \<and> payload (Packets fs' a) = m \<and>
          message_number m = n \<and> (\<forall>b. b \<noteq> a \<longrightarrow> payload (Packets fs' b) = inbox' b)"
proof (cases "dispatch n ms (table fs) inbox")
  case (Inl e)
  note l = receive_loop_dispatch [OF assms(1), unfolded Inl loop_result_def]
  show ?thesis
  proof (cases "e = EMessageNumber")
    case True
    then obtain r' m ms' inbox' fs' where w: "receive_loop a False (Some r) fs = Inr (Some r', fs')"
        "waiting a r' n ms' inbox' fs'" "holds (Packets fs' a) m" "message_number m \<noteq> n"
      using l by auto
    then show ?thesis
      using Inl True waiting_done(4) [OF w(2,3)]
      by (simp add: ReceiveResponse_def ReceivePacket_waiting [OF assms] check_type_def holds_def)
  next
    case False
    then show ?thesis using l Inl by (simp add: ReceiveResponse_def ReceivePacket_waiting [OF assms])
  qed
next
  case (Inr x)
  obtain m rest tbl inbox' where x: "x = (m, rest, tbl, inbox')" by (cases x)
  note l = receive_loop_dispatch [OF assms(1), unfolded Inr x loop_result_def]
  then obtain r' fs' where w: "receive_loop a False (Some r) fs = Inr (Some r', fs')"
      "waiting a r' n rest inbox' fs'" "holds (Packets fs' a) m" "message_number m = n" "forget n (table fs') = tbl"
    by auto
  note fin = waiting_done [OF w(2,3)]
  have "ReceiveResponse n a (-1) allow False fs = Inr (RemoveReservation r' fs', Inr 0)"
    using w(1,4) fin(4) by (simp add: ReceiveResponse_def ReceivePacket_waiting [OF assms] check_type_def holds_def)
  then show ?thesis using Inr x fin w(4,5) by (auto simp: holds_def)
qed

text \<open>
  Three requests are open, 261, 517 and 773; the packet of the third is gone. Their responses arrive in
  the opposite order, cut into pieces.
\<close>

definition three_requests :: TSFTPFileSystem where
  "three_requests =
     \<lparr>FSecureShell = \<lparr>Pending = [0, 0, 0], Arriving = [[5, 101, 0, 0, 3, 5, 0, 0, 0, 6, 103], [0, 0, 2, 5, 7, 0, 0],
         [0, 6, 103, 0, 0, 1, 5, 9]]\<rparr>,
      FPacketReservations = [Some 1, None, Some 2], FPacketNumbers = [261, 773, 517, 0],
      Packets = (\<lambda>_. Packet_Init 0), FMessageCounter = 4, FsCodePage = 0, FVersion = 3, Sent = []\<rparr>"

lemma three_requests_waiting:
  "waiting 1 0 261 [[101, 0, 0, 3, 5], [103, 0, 0, 2, 5, 7], [103, 0, 0, 1, 5, 9]] (\<lambda>_. []) three_requests"
proof -
  have "stream (FSecureShell three_requests) =
      concat (map frame [[101, 0, 0, 3, 5], [103, 0, 0, 2, 5, 7], [103, 0, 0, 1, 5, 9]])" by code_simp
  moreover have "block_ok (Packet_Init 0)" by code_simp
  ultimately show ?thesis
    by (simp add: waiting_def fs_ok_def three_requests_def table_def acceptable_def message_ok_def)
qed

theorem ReceiveResponse_implements_dispatch_witness:
  "\<exists>fs'. ReceiveResponse 261 1 (-1) 0 False three_requests = Inr (fs', Inr 0) \<and>
     payload (Packets fs' 1) = [103, 0, 0, 1, 5, 9] \<and> payload (Packets fs' 2) = [103, 0, 0, 2, 5, 7] \<and>
     table fs' = [(517, Some 2)]"
proof -
  have n: "message_number [101, 0, 0, 3, 5] = 773" "message_number [103, 0, 0, 2, 5, 7] = 517"
      "message_number [103, 0, 0, 1, 5, 9] = 261" by code_simp+
  have "table three_requests = [(261, Some 1), (773, None), (517, Some 2)]" by code_simp
  then have "dispatch 261 [[101, 0, 0, 3, 5], [103, 0, 0, 2, 5, 7], [103, 0, 0, 1, 5, 9]] (table three_requests) (\<lambda>_. [])
      = Inr ([103, 0, 0, 1, 5, 9], [], [(517, Some 2)], (\<lambda>_. [])(2 := [103, 0, 0, 2, 5, 7]))"
    by (simp add: n forget_def)
  moreover have "FCapacity (Packets three_requests 1) = 0" by code_simp
  ultimately show ?thesis
    using ReceiveResponse_implements_dispatch [OF three_requests_waiting, of 0] by auto
qed

text \<open>C20: The limit on the length of a packet does not hold for lengths of 2 GiB and more, because the
  length is compared as a signed number. A server that announces 4294967295 bytes makes the client
  allocate a block of 3 bytes and write what follows behind it.\<close>

theorem announced_length_overflows:
  "receive_message (Packet_Init cp) \<lparr>Pending = [255, 255, 255, 255, x] @ xs, Arriving = pieces\<rparr> = Inl EUndefinedBehaviour"
proof -
  let ?s = "\<lparr>Pending = [255, 255, 255, 255, x] @ xs, Arriving = pieces\<rparr>"
  have "out_length 4 = 4" by (simp add: out_length_id)
  then have r: "Receive 4 ?s = Inr ([255, 255, 255, 255], \<lparr>Pending = x # xs, Arriving = pieces\<rparr>)"
    by (simp add: Receive_def Let_def wait_loop.simps [of 0])
  have len: "PacketLength [255, 255, 255, 255] = Inr (- 1)" by code_simp
  have pos: "(0 :: u32) < - 1" by code_simp
  have rep: "replicate (unat (3 :: u32)) (0 :: u8) = [0, 0, 0]" by code_simp
  have "SetCapacity (word_of_int (- 1)) (Packet_Init cp) =
      Inr ((Packet_Init cp)\<lparr>FCapacity := - 1, FData := Some [0, 0, 0]\<rparr>)"
    using rep by (simp add: SetCapacity_def Packet_Init_def pos)
  then show ?thesis using r len by (simp add: receive_message_def receive_into_def size_of_int_def write_at_def)
qed



text \<open>C11: A block never exceeds the limits. The response to a read request of a download fits the
  longest packet the client accepts, and the block the read limit of the server; a write request with
  its handle and data fits the packet size of the connection and the one that was configured or
  announced.\<close>

theorem block_sizes_fit:
  assumes cps: "0 \<le> cps" and adj: "\<And>x. adj x \<le> x"
  shows "unat (DownloadBlockSize maxRead cps cm fm adj) + 9 \<le> 1024000 \<and>
    (maxRead = Some m \<and> m > 0 \<longrightarrow> DownloadBlockSize maxRead cps cm fm adj \<le> m) \<and>
    (l \<in> {cm, fm} \<and> l > 0 \<and> h < 2 ^ 31 \<longrightarrow>
       UploadBlockSize h cps cm fm adj = 0 \<or> unat (UploadBlockSize h cps cm fm adj) + h + 25 \<le> unat l)"
proof (intro conjI impI)
  define t where "t = TransferBlockSize 4 cps cm fm adj"
  define x where "x = (case maxRead of Some m \<Rightarrow> if m > 0 \<and> t > m then m else t | None \<Rightarrow> t)"
  have x: "x \<le> t" by (auto simp: x_def split: option.split)
  then have "unat x \<le> 2 ^ 32 - 16"
    using TransferBlockSize_no_wrap [OF cps adj, of 4 cm fm] by (simp add: t_def word_le_nat_alt)
  then have x9: "unat (x + 9) = unat x + 9" using unat_add_nat [of x 9] by simp
  have d: "DownloadBlockSize maxRead cps cm fm adj = (if x + 9 > 1024000 then 1024000 - 9 else x)"
    unfolding DownloadBlockSize_def Let_def x_def t_def ..
  show "unat (DownloadBlockSize maxRead cps cm fm adj) + 9 \<le> 1024000"
    unfolding d using x9 by (simp add: word_less_nat_alt)
  show "DownloadBlockSize maxRead cps cm fm adj \<le> m" if "maxRead = Some m \<and> m > 0"
  proof -
    have "x \<le> m" using that by (auto simp: x_def not_less)
    then show ?thesis unfolding d using x9 by (simp add: word_less_nat_alt word_le_nat_alt)
  qed
  show "UploadBlockSize h cps cm fm adj = 0 \<or> unat (UploadBlockSize h cps cm fm adj) + h + 25 \<le> unat l"
    if "l \<in> {cm, fm} \<and> l > 0 \<and> h < 2 ^ 31"
  proof -
    have "unat (4 + 8 + 4 + of_nat h + 9 :: u32) = h + 25" using that unat_add_nat [of 0 "h + 25"] by (simp add: ac_simps)
    then show ?thesis
      using TransferBlockSize_limit [of adj l cm fm "4 + 8 + 4 + of_nat h" cps] adj that
      by (auto simp: UploadBlockSize_def)
  qed
qed

theorem block_sizes_fit_witness:
  "unat (DownloadBlockSize (Some 65536) 5000000 0 300000 id) + 9 \<le> 1024000 \<and>
   DownloadBlockSize (Some 65536) 5000000 0 300000 id \<le> 65536 \<and>
   unat (UploadBlockSize 4 5000000 0 300000 id) + 4 + 25 \<le> 300000"
proof -
  have "UploadBlockSize 4 5000000 0 300000 id \<noteq> 0" by code_simp
  then show ?thesis
    using block_sizes_fit [of 5000000 id "Some 65536" 0 300000 65536 300000 4] by simp
qed

text \<open>When a response is only to be taken if it is there already, and it is not, the packet that
  waits for it is filled with an empty message that is then taken for the response: the wait for the
  answer to a write request ends in the fatal error about an unexpected packet type. The branch for
  this case, which tests for a packet without content, is not reached.\<close>

lemma try_only_is_fatal:
  assumes "IndexOf a fs = Some r" "FCapacity (Packets fs a) = 0" "block_ok (Packets fs a)"
    "length (Pending (FSecureShell fs)) < 4"
  shows "ReceivePacket a 101 allow True fs = Inl EInvalidType"
proof -
  obtain t counter where t: "new_TSFTPPacket SSH_FXP_NONE (FsCodePage fs) (FMessageCounter fs) = Inr (t, counter)"
      "packet_ok t" "message_ok (payload t)" "unat (FLength t) = 5" "hd (payload t) = 0"
    using new_TSFTPPacket_ok by blast
  obtain p where p: "Packet_Assign t ((Packets fs a)\<lparr>FPosition := 0\<rparr>) = Inr p" "PType p = 0" "FCapacity p \<noteq> 0"
    using Packet_Assign_ok [OF t(2) _ t(3), of "(Packets fs a)\<lparr>FPosition := 0\<rparr>"] assms(3) t(4,5)
    by (auto simp: block_ok_def)
  then have "receive_step a True (Some r) fs = Inr (False, Some r, set_packet a p (fs\<lparr>FMessageCounter := counter\<rparr>))"
    using t(1) assms(4) Packet_Assign_position [where source = t and p = "Packets fs a" and x = 0]
    by (simp add: receive_step_def PeekPacket_def Peek_def)
  then have "receive_loop a True (Some r) fs = Inr (Some r, set_packet a p (fs\<lparr>FMessageCounter := counter\<rparr>))"
    by (simp add: receive_loop.simps [of a])
  moreover have "PType (Packets (RemoveReservation r (set_packet a p (fs\<lparr>FMessageCounter := counter\<rparr>))) a) = 0"
    using p(2) by (simp add: RemoveReservation_fields split: option.split)
  ultimately show ?thesis
    using assms(1,2) p(3) by (simp add: ReceivePacket_def check_type_def Let_def)
qed

lemma try_only_is_fatal_witness:
  "ReceivePacket 1 101 (-1) True three_requests = Inl EInvalidType"
proof (rule try_only_is_fatal)
  show "IndexOf 1 three_requests = Some 0" by code_simp
qed code_simp+

text \<open>A request without a reservation waits while the response to a reserved one arrives first.\<close>

definition overtaken_request :: TSFTPFileSystem where
  "overtaken_request =
     \<lparr>FSecureShell = \<lparr>Pending = [0, 0, 0, 6, 103, 0, 0, 2, 5, 7, 0, 0, 0, 6, 103, 0, 0, 1, 5, 9], Arriving = []\<rparr>,
      FPacketReservations = [Some 2], FPacketNumbers = [517, 0],
      Packets = (\<lambda>a. if a = 2 then (Packet_Init 0)\<lparr>FReservedBy := True\<rparr> else Packet_Init 0),
      FMessageCounter = 4, FsCodePage = 0, FVersion = 3, Sent = []\<rparr>"

text \<open>A response that overtakes the answer to a request without a reservation is copied with the
  marks of the packet it was received into, so that the packet it is stored in is not marked as
  reserved any more. The destructor of this packet then does not release the reservation, and the
  table keeps the address of a destroyed packet.\<close>

lemma overtaken_reservation_leaks:
  "case ReceiveResponse 261 1 (-1) 0 False overtaken_request of
     Inr (fs, Inr _) \<Rightarrow>
       payload (Packets fs 2) = [103, 0, 0, 2, 5, 7] \<and> \<not> FReservedBy (Packets fs 2) \<and>
       (case destroy_packet 2 fs of Inr fs \<Rightarrow> FPacketReservations fs = [Some 2] | Inl _ \<Rightarrow> False)
   | _ \<Rightarrow> False"
  by code_simp

end
