(* ===== verification/SftpQueue.thy ===== *)
theory SftpQueue
  imports SftpFs
begin

text \<open>
  The queues that keep several SFTP requests under way: \<open>TSFTPQueue\<close>, \<open>TSFTPFixedLenQueue\<close> and
  \<open>TSFTPDownloadQueue\<close> of \<open>src/core/SftpFileSystem.cpp\<close>. The download queue is modelled with the
  members it inherits. New packets are placed at fresh addresses; \<open>sizes\<close> gives what the successive
  calls of \<open>DownloadBlockSize\<close> return.
\<close>

record TSFTPDownloadQueue =
  FRequests :: "(u32 \<times> u32) list"  \<comment> \<open>message numbers of the requests, with their tokens, the block sizes\<close>
  FResponses :: "nat list"            \<comment> \<open>addresses of the packets for the responses\<close>
  FMissedRequests :: int
  FOffset :: int
  FTransferred :: int
  FPartSize :: int
  FHandle :: "u8 list"
  Asked :: nat                        \<comment> \<open>calls of \<open>DownloadBlockSize\<close> so far\<close>
  Fresh :: nat                        \<comment> \<open>all addresses from here on are unused\<close>

abbreviation (input) asEOF :: int where "asEOF \<equiv> 2"

section \<open>Requests\<close>

definition read_request :: "u8 list \<Rightarrow> int \<Rightarrow> u32 \<Rightarrow> u32 \<Rightarrow> TSFTPPacket \<Rightarrow> (TSFTPPacket \<times> u32) res" where
  "read_request handle offset len counter request =
     rbind (ChangeType SSH_FXP_READ counter request) (\<lambda>(request, counter).
     rbind (AddString handle request) (\<lambda>request.
     rbind (AddInt64 (word_of_int offset) request) (\<lambda>request.
     rbind (AddCardinal len request) (\<lambda>request. Inr (request, counter)))))"

text \<open>The offset and length of the next request, if there is one.\<close>

definition InitRequest :: "u32 \<Rightarrow> TSFTPDownloadQueue \<Rightarrow> (int \<times> u32) option \<times> TSFTPDownloadQueue" where
  "InitRequest blockSize q =
     (let q = q\<lparr>Asked := Asked q + 1\<rparr>;
          blockSize =
            (if FPartSize q \<ge> 0 then
               (let remaining = (FOffset q + FPartSize q) - FTransferred q
                in if remaining < uint blockSize then word_of_int remaining else blockSize)
             else blockSize)
      in if blockSize > 0
         then (Some (FTransferred q, blockSize), q\<lparr>FTransferred := FTransferred q + uint blockSize\<rparr>)
         else (None, q))"

definition SendRequest ::
  "(nat \<Rightarrow> u32) \<Rightarrow> TSFTPDownloadQueue \<Rightarrow> TSFTPFileSystem \<Rightarrow> (bool \<times> TSFTPDownloadQueue \<times> TSFTPFileSystem) res" where
  "SendRequest sizes q fs =
     rbind (new_TSFTPPacket SSH_FXP_NONE (FsCodePage fs) (FMessageCounter fs)) (\<lambda>(request, counter).
       case InitRequest (sizes (Asked q)) q of
         (None, q) \<Rightarrow> Inr (False, q, fs\<lparr>FMessageCounter := counter\<rparr>)
       | (Some (offset, len), q) \<Rightarrow>
           rbind (read_request (FHandle q) offset len counter request) (\<lambda>(request, counter).
           rbind (new_TSFTPPacket SSH_FXP_NONE (FsCodePage fs) counter) (\<lambda>(response, counter).
             let a = Fresh q;
                 q = q\<lparr>FRequests := FRequests q @ [(FMessageNumber request, len)],
                        FResponses := FResponses q @ [a], Fresh := a + 1\<rparr>;
                 fs = set_packet a response (fs\<lparr>FMessageCounter := counter\<rparr>)
             in rbind (ReserveResponse (FMessageNumber request) (Some a) fs) (\<lambda>fs.
                rbind (GetSendData request) (\<lambda>bs. Inr (True, q, fs\<lparr>Sent := Sent fs @ [bs]\<rparr>))))))"

text \<open>The loop of \<open>TSFTPFixedLenQueue::SendRequests\<close> counts the missed requests down.\<close>

primrec send_missed ::
  "nat \<Rightarrow> (nat \<Rightarrow> u32) \<Rightarrow> bool \<Rightarrow> TSFTPDownloadQueue \<Rightarrow> TSFTPFileSystem \<Rightarrow>
   (bool \<times> TSFTPDownloadQueue \<times> TSFTPFileSystem) res" where
  "send_missed 0 sizes result q fs = Inr (result, q, fs)"
| "send_missed (Suc n) sizes result q fs =
     rbind (SendRequest sizes q fs) (\<lambda>(sent, q, fs).
       if sent then send_missed n sizes True (q\<lparr>FMissedRequests := FMissedRequests q - 1\<rparr>) fs
       else Inr (result, q, fs))"

definition SendRequests ::
  "(nat \<Rightarrow> u32) \<Rightarrow> TSFTPDownloadQueue \<Rightarrow> TSFTPFileSystem \<Rightarrow> (bool \<times> TSFTPDownloadQueue \<times> TSFTPFileSystem) res" where
  "SendRequests sizes q fs =
     (let q = q\<lparr>FMissedRequests := FMissedRequests q + 1\<rparr>
      in send_missed (nat (FMissedRequests q)) sizes False q fs)"

definition Queue_Init ::
  "int \<Rightarrow> u8 list \<Rightarrow> int \<Rightarrow> int \<Rightarrow> (nat \<Rightarrow> u32) \<Rightarrow> TSFTPDownloadQueue \<Rightarrow> TSFTPFileSystem \<Rightarrow>
   (bool \<times> TSFTPDownloadQueue \<times> TSFTPFileSystem) res" where
  "Queue_Init queueLen handle offset partSize sizes q fs =
     SendRequests sizes
       (q\<lparr>FHandle := handle, FOffset := offset, FTransferred := offset, FPartSize := partSize,
          FMissedRequests := queueLen - 1\<rparr>) fs"

section \<open>Responses\<close>

definition Queue_End :: "TSFTPPacket \<Rightarrow> bool" where
  "Queue_End response \<longleftrightarrow> PType response \<noteq> SSH_FXP_DATA"

text \<open>
  The first request and its response leave the queue before the response is waited for. The result is
  a copy of the response, the size that was asked for and whether the queue goes on; a status that is
  thrown is the inner \<open>Inl\<close>. The packet of the response is destroyed at the end in both cases.
\<close>

definition Queue_ReceivePacket ::
  "(nat \<Rightarrow> u32) \<Rightarrow> TSFTPDownloadQueue \<Rightarrow> TSFTPFileSystem \<Rightarrow>
   (TSFTPDownloadQueue \<times> TSFTPFileSystem \<times> (TSFTPPacket \<times> u32 \<times> bool) res) res" where
  "Queue_ReceivePacket sizes q fs =
     (case (FRequests q, FResponses q) of
        ((messageNumber, token) # requests, a # responses) \<Rightarrow>
          (let q = q\<lparr>FRequests := requests, FResponses := responses\<rparr>
           in rbind (ReceiveResponse messageNumber a 103 asEOF False fs) (\<lambda>(fs, result).
              case result of
                Inl e \<Rightarrow> rbind (destroy_packet a fs) (\<lambda>fs. Inr (q, fs, Inl e))
              | Inr _ \<Rightarrow>
                  let response = Packets fs a; go = \<not> Queue_End response
                  in rbind (if go then SendRequests sizes q fs else Inr (False, q, fs)) (\<lambda>(_, q, fs).
                     rbind (destroy_packet a fs) (\<lambda>fs. Inr (q, fs, Inr (response, token, go))))))
      | _ \<Rightarrow> Inl EUndefinedBehaviour)"

text \<open>
  \<open>DisposeUntil\<close>: the oldest responses are waited for until at most \<open>count\<close> are left. An error is
  ignored when everything is to be disposed of without a check of the type.
\<close>

function DisposeUntil ::
  "nat \<Rightarrow> int \<Rightarrow> TSFTPDownloadQueue \<Rightarrow> TSFTPFileSystem \<Rightarrow> (TSFTPDownloadQueue \<times> TSFTPFileSystem \<times> unit res) res" where
  "DisposeUntil count expectedType q fs =
     (if length (FRequests q) > count then
        (case (FRequests q, FResponses q) of
           ((messageNumber, token) # requests, a # responses) \<Rightarrow>
             rbind (ReceiveResponse messageNumber a expectedType (-1) False fs) (\<lambda>(fs, result).
             rbind (destroy_packet a fs) (\<lambda>fs.
               let q' = q\<lparr>FRequests := requests, FResponses := responses\<rparr>
               in case result of
                    Inl e \<Rightarrow>
                      if expectedType < 0 \<and> count = 0 then DisposeUntil count expectedType q' fs
                      else Inr (q', fs, Inl e)
                  | Inr _ \<Rightarrow> DisposeUntil count expectedType q' fs))
         | _ \<Rightarrow> Inl EUndefinedBehaviour)
      else Inr (q, fs, Inr ()))"
  by pat_completeness auto
termination
  by (relation "measure (\<lambda>(_, _, q, _). length (FRequests q))") (auto dest!: arg_cong [of _ _ length])

declare DisposeUntil.simps [simp del]

section \<open>The requests of a download\<close>

text \<open>The ranges that up to \<open>n\<close> requests ask for.\<close>

primrec requests :: "nat \<Rightarrow> (nat \<Rightarrow> u32) \<Rightarrow> TSFTPDownloadQueue \<Rightarrow> (int \<times> u32) list" where
  "requests 0 sizes q = []"
| "requests (Suc n) sizes q =
     (case InitRequest (sizes (Asked q)) q of
        (None, q) \<Rightarrow> []
      | (Some r, q) \<Rightarrow> r # requests n sizes q)"

lemma uint_word_of_small: "0 \<le> i \<Longrightarrow> i < uint w \<Longrightarrow> uint (word_of_int i :: u32) = i" for w :: u32
  using uint_lt2p [of w] by (simp add: unsigned_of_int take_bit_int_eq_self)

lemma InitRequest_part:
  assumes "0 \<le> FPartSize q" "FTransferred q \<le> FOffset q + FPartSize q" "0 < bs"
  defines "rest \<equiv> FOffset q + FPartSize q - FTransferred q"
  shows "rest = 0 \<Longrightarrow> InitRequest bs q = (None, q\<lparr>Asked := Asked q + 1\<rparr>)"
    and "0 < rest \<Longrightarrow> \<exists>len. InitRequest bs q =
      (Some (FTransferred q, len), q\<lparr>Asked := Asked q + 1, FTransferred := FTransferred q + uint len\<rparr>) \<and>
      0 < uint len \<and> uint len \<le> rest"
proof -
  have r: "0 \<le> rest" using assms(2) by (simp add: rest_def)
  have i: "InitRequest bs q =
    (let len = (if rest < uint bs then word_of_int rest else bs)
     in if len > 0 then (Some (FTransferred q, len), q\<lparr>Asked := Asked q + 1, FTransferred := FTransferred q + uint len\<rparr>)
        else (None, q\<lparr>Asked := Asked q + 1\<rparr>))"
    using assms(1) by (simp add: InitRequest_def rest_def Let_def)
  have s: "0 < uint bs" using assms(3) by (simp add: word_less_def)
  show "InitRequest bs q = (None, q\<lparr>Asked := Asked q + 1\<rparr>)" if "rest = 0"
    unfolding i that using s by simp
  show "\<exists>len. InitRequest bs q =
      (Some (FTransferred q, len), q\<lparr>Asked := Asked q + 1, FTransferred := FTransferred q + uint len\<rparr>) \<and>
      0 < uint len \<and> uint len \<le> rest" if "0 < rest"
  proof (cases "rest < uint bs")
    case True
    then show ?thesis using uint_word_of_small [OF r True] that unfolding i by (simp add: word_less_def)
  next
    case False
    then show ?thesis unfolding i using s assms(3) by simp
  qed
qed

lemma requests_tile:
  assumes "0 \<le> FPartSize q" "FTransferred q \<le> FOffset q + FPartSize q" "\<And>k. 0 < sizes k"
    "nat (FOffset q + FPartSize q - FTransferred q) \<le> n"
  shows "concat (map (\<lambda>(off, len). [off..off + uint len - 1]) (requests n sizes q)) =
    [FTransferred q..FOffset q + FPartSize q - 1]"
  using assms(1,2,4)
proof (induction n arbitrary: q)
  case (Suc n)
  note init = InitRequest_part [OF Suc.prems(1,2) assms(3) [of "Asked q"]]
  show ?case
  proof (cases "FTransferred q = FOffset q + FPartSize q")
    case False
    then obtain len where i: "InitRequest (sizes (Asked q)) q =
        (Some (FTransferred q, len), q\<lparr>Asked := Asked q + 1, FTransferred := FTransferred q + uint len\<rparr>)"
        "0 < uint len" "uint len \<le> FOffset q + FPartSize q - FTransferred q"
      using init(2) Suc.prems(2) by auto
    let ?q = "q\<lparr>Asked := Asked q + 1, FTransferred := FTransferred q + uint len\<rparr>"
    have "concat (map (\<lambda>(off, len). [off..off + uint len - 1]) (requests n sizes ?q)) =
        [FTransferred q + uint len..FOffset q + FPartSize q - 1]"
      using Suc.IH [of ?q] Suc.prems i(2,3) by (simp add: nat_le_iff)
    moreover have "[FTransferred q..FOffset q + FPartSize q - 1] =
        [FTransferred q..FTransferred q + uint len - 1] @ [FTransferred q + uint len..FOffset q + FPartSize q - 1]"
      using upto_split2 [of "FTransferred q" "FTransferred q + uint len - 1" "FOffset q + FPartSize q - 1"] i(2,3) by simp
    ultimately show ?thesis using i(1) by simp
  qed (use init(1) in simp)
qed simp

section \<open>Responses in the order of the requests\<close>

text \<open>
  The requests under way, with their numbers and the packets for their responses; \<open>answer\<close> gives the
  responses of the server and \<open>ms\<close> those that have not been received, in the order they arrive.
\<close>

definition open_requests :: "(u32 \<Rightarrow> u8 list) \<Rightarrow> (u32 \<times> nat) list \<Rightarrow> u8 list list \<Rightarrow> bool" where
  "open_requests answer reqs ms \<longleftrightarrow>
     distinct (map fst reqs) \<and> distinct (map snd reqs) \<and> distinct ms \<and>
     (\<forall>m \<in> set ms. acceptable m \<and> answer (message_number m) = m \<and> message_number m \<in> fst ` set reqs) \<and>
     (\<forall>(n, a) \<in> set reqs. message_number (answer n) = n)"

definition stored :: "(u32 \<Rightarrow> u8 list) \<Rightarrow> (u32 \<times> nat) list \<Rightarrow> u8 list list \<Rightarrow> TSFTPFileSystem \<Rightarrow> bool" where
  "stored answer reqs ms fs \<longleftrightarrow>
     (\<forall>(n, a) \<in> set reqs.
        if answer n \<in> set ms then FCapacity (Packets fs a) = 0 else holds (Packets fs a) (answer n))"

lemma storedI:
  "(\<And>n a. (n, a) \<in> set reqs \<Longrightarrow>
     if answer n \<in> set ms then FCapacity (Packets fs a) = 0 else holds (Packets fs a) (answer n)) \<Longrightarrow>
   stored answer reqs ms fs"
  by (auto simp: stored_def)

lemma storedD:
  "stored answer reqs ms fs \<Longrightarrow> (n, a) \<in> set reqs \<Longrightarrow>
   if answer n \<in> set ms then FCapacity (Packets fs a) = 0 else holds (Packets fs a) (answer n)"
  by (auto simp: stored_def)

definition reserved :: "(u32 \<times> nat) list \<Rightarrow> u8 list list \<Rightarrow> TSFTPFileSystem \<Rightarrow> bool" where
  "reserved reqs ms fs \<longleftrightarrow> fs_ok fs \<and> table fs = map (\<lambda>(n, a). (n, Some a)) reqs \<and>
     stream (FSecureShell fs) = concat (map frame ms)"

lemma reserved_waiting:
  assumes "reserved ((n, a) # reqs) ms fs" "\<forall>m \<in> set ms. acceptable m"
  shows "waiting a 0 n ms (\<lambda>b. payload (Packets fs b)) fs"
proof -
  have t: "table fs = (n, Some a) # map (\<lambda>(n, a). (n, Some a)) reqs" "fs_ok fs" using assms by (simp_all add: reserved_def)
  then have "0 < length (FPacketReservations fs)" by (auto simp: table_def)
  moreover from this have "FPacketNumbers fs ! 0 = n" "FPacketReservations fs ! 0 = Some a"
    using fst_table [OF t(2), of 0] t(1) by simp_all
  ultimately show ?thesis using assms by (simp add: waiting_def reserved_def)
qed

lemma map_of_reqs: "distinct (map fst reqs) \<Longrightarrow> (k, b) \<in> set reqs \<Longrightarrow> map_of (map (\<lambda>(n, a). (n, Some a)) reqs) k = Some (Some b)"
  by (induction reqs) (auto simp: rev_image_eqI)

lemma open_requestsD:
  assumes "open_requests answer ((n, a) # reqs) ms"
  shows "message_number (answer n) = n"
    and "(k, b) \<in> set reqs \<Longrightarrow> message_number (answer k) = k \<and> k \<noteq> n \<and> b \<noteq> a"
    and "(k, b) \<in> set reqs \<Longrightarrow> (k, c) \<in> set reqs \<Longrightarrow> b = c"
    and "(k, b) \<in> set reqs \<Longrightarrow> (k', b) \<in> set reqs \<Longrightarrow> k = k'"
    and "m \<in> set ms \<Longrightarrow> acceptable m \<and> answer (message_number m) = m"
    and "m \<in> set ms \<Longrightarrow> message_number m \<noteq> n \<Longrightarrow> \<exists>b. (message_number m, b) \<in> set reqs"
proof -
  have d: "distinct (map fst reqs)" "distinct (map snd reqs)" "n \<notin> fst ` set reqs" "a \<notin> snd ` set reqs"
      "\<forall>(n, a) \<in> set reqs. message_number (answer n) = n"
    using assms by (simp_all add: open_requests_def)
  show "message_number (answer n) = n" using assms by (simp add: open_requests_def)
  show "message_number (answer k) = k \<and> k \<noteq> n \<and> b \<noteq> a" if "(k, b) \<in> set reqs"
    using d(3,4) bspec [OF d(5) that] imageI [OF that, of fst] imageI [OF that, of snd] by auto
  show "b = c" if "(k, b) \<in> set reqs" "(k, c) \<in> set reqs" by (rule eq_key_imp_eq_value [OF d(1) that])
  show "k = k'" if "(k, b) \<in> set reqs" "(k', b) \<in> set reqs"
    using d(2) that inj_onD [of snd "set reqs" "(k, b)" "(k', b)"] by (simp add: distinct_map)
  show "acceptable m \<and> answer (message_number m) = m" if "m \<in> set ms" using assms that by (simp add: open_requests_def)
  show "\<exists>b. (message_number m, b) \<in> set reqs" if "m \<in> set ms" "message_number m \<noteq> n"
  proof -
    have "message_number m \<in> insert n (fst ` set reqs)" using assms that(1) unfolding open_requests_def by simp
    then show ?thesis using that(2) by auto
  qed
qed

text \<open>
  Waiting for the oldest request stores the responses to the others that come before, and changes
  nothing else.
\<close>

lemma receive_loop_in_order:
  assumes "reserved ((n, a) # reqs) ms fs" "open_requests answer ((n, a) # reqs) ms" "stored answer reqs ms fs"
    "answer n \<in> set ms"
  shows "\<exists>fs' ms'. receive_loop a False (Some 0) fs = Inr (Some 0, fs') \<and> holds (Packets fs' a) (answer n) \<and>
    reserved ((n, a) # reqs) ms' fs' \<and> open_requests answer ((n, a) # reqs) ms' \<and> stored answer reqs ms' fs' \<and>
    answer n \<notin> set ms'"
  using assms
proof (induction ms arbitrary: fs)
  case (Cons m ms)
  note o = open_requestsD [OF Cons.prems(2)]
  have acc: "acceptable m" "answer (message_number m) = m" using o(5) [of m] by simp_all
  have dm: "m \<notin> set ms" and op: "open_requests answer ((n, a) # reqs) ms"
    using Cons.prems(2) by (simp_all add: open_requests_def)
  have "waiting a 0 n (m # ms) (\<lambda>b. payload (Packets fs b)) fs"
    using reserved_waiting [OF Cons.prems(1)] o(5) by blast
  from receive_step_waiting [OF this] obtain p s where
    fs1: "waiting a 0 n ms (\<lambda>b. payload (Packets fs b)) (set_packet a p (fs\<lparr>FSecureShell := s\<rparr>))"
    and t1: "table (set_packet a p (fs\<lparr>FSecureShell := s\<rparr>)) = table fs" and h: "holds p m"
    and step: "receive_step a False (Some 0) fs =
      (if message_number m = n then Inr (False, Some 0, set_packet a p (fs\<lparr>FSecureShell := s\<rparr>))
       else dispatch_reserved a (Some 0) (set_packet a p (fs\<lparr>FSecureShell := s\<rparr>)))"
    by (auto simp: Let_def)
  let ?fs1 = "set_packet a p (fs\<lparr>FSecureShell := s\<rparr>)"
  have same: "Packets ?fs1 b = Packets fs b" if "(k, b) \<in> set reqs" for k b using o(2) [OF that] by simp
  show ?case
  proof (cases "message_number m = n")
    case True
    have "if answer k \<in> set ms then FCapacity (Packets ?fs1 b) = 0 else holds (Packets ?fs1 b) (answer k)"
      if kb: "(k, b) \<in> set reqs" for k b
    proof -
      have "answer k \<noteq> m" using o(2) [OF kb] True by auto
      then show ?thesis using storedD [OF Cons.prems(3) kb] unfolding same [OF kb] by simp
    qed
    then have "stored answer reqs ms ?fs1" by (rule storedI)
    moreover have "reserved ((n, a) # reqs) ms ?fs1"
      using fs1 t1 Cons.prems(1) by (simp add: reserved_def waiting_def)
    moreover have "answer n \<notin> set ms" using dm acc(2) True by simp
    moreover have "receive_loop a False (Some 0) fs = Inr (Some 0, ?fs1)"
      using step True by (simp add: receive_loop.simps [of a _ _ fs])
    moreover have "holds (Packets ?fs1 a) (answer n)" using h acc(2) True by simp
    ultimately show ?thesis using op by blast
  next
    case False
    then obtain b where b: "(message_number m, b) \<in> set reqs" using o(6) [of m] by auto
    have "distinct (map fst reqs)" using op by (simp add: open_requests_def)
    from map_of_reqs [OF this b] have mo: "map_of (table ?fs1) (message_number m) = Some (Some b)"
      using False t1 Cons.prems(1) by (simp add: reserved_def)
    have "holds (Packets ?fs1 a) m" using h by simp
    from dispatch_reserved_waiting [OF fs1 this acc(1) False, unfolded mo] obtain fs' where
      d: "dispatch_reserved a (Some 0) ?fs1 = Inr (True, Some 0, fs')" "table fs' = table ?fs1" "holds (Packets fs' b) m"
        "\<forall>c. c \<noteq> b \<longrightarrow> Packets fs' c = Packets ?fs1 c"
      and w: "waiting a 0 n ms ((\<lambda>b. payload (Packets fs b))(b := m)) fs'"
      by auto
    have "reserved ((n, a) # reqs) ms fs'"
      using w d(2) t1 Cons.prems(1) by (simp add: reserved_def waiting_def)
    moreover have "stored answer reqs ms fs'"
    proof -
      have "if answer k \<in> set ms then FCapacity (Packets fs' c) = 0 else holds (Packets fs' c) (answer k)"
        if kc: "(k, c) \<in> set reqs" for k c
      proof (cases "k = message_number m")
        case True
        then have "c = b" using o(3) b kc by blast
        then show ?thesis using d(3) acc(2) True dm by simp
      next
        case False
        then have "answer k \<noteq> m" using o(2) [OF kc] by auto
        moreover have "c \<noteq> b" using False b kc o(4) by blast
        then have "Packets fs' c = Packets fs c" using d(4) same [OF kc] by simp
        ultimately show ?thesis using storedD [OF Cons.prems(3) kc] by simp
      qed
      then show ?thesis by (rule storedI)
    qed
    moreover have "answer n \<in> set ms" using Cons.prems(4) False o(1) by auto
    moreover have "receive_loop a False (Some 0) fs = receive_loop a False (Some 0) fs'"
      using step False d(1) by (simp add: receive_loop.simps [of a _ _ fs])
    ultimately show ?thesis using Cons.IH [OF _ op] by simp
  qed
qed simp

text \<open>All that holds between two calls of the queue.\<close>

definition in_flight :: "(u32 \<Rightarrow> u8 list) \<Rightarrow> (u32 \<times> nat) list \<Rightarrow> u8 list list \<Rightarrow> TSFTPFileSystem \<Rightarrow> bool" where
  "in_flight answer reqs ms fs \<longleftrightarrow> reserved reqs ms fs \<and> open_requests answer reqs ms \<and> stored answer reqs ms fs"

lemma reserved_remove:
  assumes "reserved ((n, a) # reqs) ms fs" "open_requests answer ((n, a) # reqs) ms" "stored answer reqs ms fs"
    "answer n \<notin> set ms" "holds (Packets fs a) (answer n)"
  shows "in_flight answer reqs ms (RemoveReservation 0 fs)"
    and "\<not> FReservedBy (Packets (RemoveReservation 0 fs) a)" and "holds (Packets (RemoveReservation 0 fs) a) (answer n)"
proof -
  note o = open_requestsD [OF assms(2)]
  have w: "waiting a 0 n ms (\<lambda>b. payload (Packets fs b)) fs"
    by (rule reserved_waiting [OF assms(1)]) (use o(5) in blast)
  note fin = waiting_done [OF w assms(5)]
  have r0: "FPacketReservations fs ! 0 = Some a" using w by (simp add: waiting_def)
  have "table (RemoveReservation 0 fs) = map (\<lambda>(n, a). (n, Some a)) reqs"
  proof -
    have "filter (\<lambda>(k, _). k \<noteq> n) (map (\<lambda>(n, a). (n, Some a)) reqs) = map (\<lambda>(n, a). (n, Some a)) reqs"
      using o(2) by (auto simp: filter_id_conv)
    then show ?thesis using fin(2) assms(1) by (simp add: reserved_def forget_def)
  qed
  then have "reserved reqs ms (RemoveReservation 0 fs)" using fin(1,3) by (simp add: reserved_def)
  moreover have "message_number m \<noteq> n" if "m \<in> set ms" for m using o(5) [OF that] assms(4) that by metis
  then have "open_requests answer reqs ms" using assms(2) unfolding open_requests_def by auto
  moreover have "stored answer reqs ms (RemoveReservation 0 fs)"
  proof (rule storedI)
    fix k b
    assume kb: "(k, b) \<in> set reqs"
    have "Packets (RemoveReservation 0 fs) b = Packets fs b"
      using o(2) [OF kb] r0 by (simp add: RemoveReservation_fields)
    then show "if answer k \<in> set ms then FCapacity (Packets (RemoveReservation 0 fs) b) = 0
        else holds (Packets (RemoveReservation 0 fs) b) (answer k)"
      using storedD [OF assms(3) kb] by simp
  qed
  ultimately show "in_flight answer reqs ms (RemoveReservation 0 fs)" by (simp add: in_flight_def)
  show "\<not> FReservedBy (Packets (RemoveReservation 0 fs) a)" using r0 by (simp add: RemoveReservation_fields)
  show "holds (Packets (RemoveReservation 0 fs) a) (answer n)" by (rule fin(4))
qed

lemma ReceiveResponse_in_order:
  assumes f: "in_flight answer ((n, a) # reqs) ms fs" and data: "hd (answer n) = 103"
  shows "\<exists>fs' ms'. ReceiveResponse n a 103 allow False fs = Inr (fs', Inr 0) \<and> in_flight answer reqs ms' fs' \<and>
    holds (Packets fs' a) (answer n) \<and> \<not> FReservedBy (Packets fs' a)"
proof -
  have f': "reserved ((n, a) # reqs) ms fs" "open_requests answer ((n, a) # reqs) ms" "stored answer ((n, a) # reqs) ms fs"
    using f by (simp_all add: in_flight_def)
  note o = open_requestsD [OF f'(2)]
  have st: "stored answer reqs ms fs" using f'(3) by (simp add: stored_def)
  have "waiting a 0 n ms (\<lambda>b. payload (Packets fs b)) fs"
    by (rule reserved_waiting [OF f'(1)]) (use o(5) in blast)
  then have ix: "IndexOf a fs = Some 0" by (intro IndexOf_eq) (simp_all add: waiting_def)
  obtain fs1 ms' where l: "(if FCapacity (Packets fs a) = 0 then receive_loop a False (Some 0) fs else Inr (Some 0, fs)) =
        Inr (Some 0, fs1)" "holds (Packets fs1 a) (answer n)" "reserved ((n, a) # reqs) ms' fs1"
      "open_requests answer ((n, a) # reqs) ms'" "stored answer reqs ms' fs1" "answer n \<notin> set ms'"
  proof (cases "answer n \<in> set ms")
    case True
    then have "FCapacity (Packets fs a) = 0" using storedD [OF f'(3), of n a] by simp
    then show ?thesis using receive_loop_in_order [OF f'(1,2) st True] that by auto
  next
    case False
    then have "holds (Packets fs a) (answer n)" using storedD [OF f'(3), of n a] by simp
    then show ?thesis using that [of fs ms] f' st False by (simp add: holds_def)
  qed
  note fin = reserved_remove [OF l(3-6,2)]
  have "PType (Packets (RemoveReservation 0 fs1) a) = 103" using fin(3) data by (simp add: holds_def)
  then have "ReceivePacket a 103 allow False fs = Inr (RemoveReservation 0 fs1, Inr 0)"
    using ix l(1) by (simp add: ReceivePacket_def check_type_def Let_def)
  moreover have "FMessageNumber (Packets (RemoveReservation 0 fs1) a) = n" using fin(3) o(1) by (simp add: holds_def)
  ultimately show ?thesis using fin by (auto simp: ReceiveResponse_def)
qed

text \<open>Once all of the part is requested, the queue only asks again and again whether there is more.\<close>

definition complete :: "TSFTPDownloadQueue \<Rightarrow> bool" where
  "complete q \<longleftrightarrow> 0 \<le> FPartSize q \<and> FTransferred q = FOffset q + FPartSize q"

lemma in_flight_counter: "in_flight answer reqs ms (fs\<lparr>FMessageCounter := counter\<rparr>) = in_flight answer reqs ms fs"
proof -
  have "reserved reqs ms (fs\<lparr>FMessageCounter := counter\<rparr>) = reserved reqs ms fs"
    by (simp add: reserved_def fs_ok_def table_def)
  moreover have "stored answer reqs ms (fs\<lparr>FMessageCounter := counter\<rparr>) = stored answer reqs ms fs"
    by (simp add: stored_def)
  ultimately show ?thesis by (simp add: in_flight_def)
qed

lemma SendRequests_complete:
  assumes q: "complete q" and sizes: "\<And>k. 0 < sizes k" and f: "in_flight answer reqs ms fs"
  shows "\<exists>result q' fs'. SendRequests sizes q fs = Inr (result, q', fs') \<and> complete q' \<and> in_flight answer reqs ms fs' \<and>
    FRequests q' = FRequests q \<and> FResponses q' = FResponses q \<and> Packets fs' = Packets fs"
proof -
  let ?q = "q\<lparr>FMissedRequests := FMissedRequests q + 1\<rparr>"
  have c: "complete ?q" using q by (simp add: complete_def)
  show ?thesis
  proof (cases "nat (FMissedRequests ?q)")
    case 0
    then show ?thesis using c f by (auto simp: SendRequests_def)
  next
    case (Suc n)
    obtain p counter where p: "new_TSFTPPacket SSH_FXP_NONE (FsCodePage fs) (FMessageCounter fs) = Inr (p, counter)"
      using new_TSFTPPacket_ok by blast
    have "InitRequest (sizes (Asked ?q)) ?q = (None, ?q\<lparr>Asked := Asked ?q + 1\<rparr>)"
      using InitRequest_part(1) [of ?q "sizes (Asked ?q)"] c sizes by (simp add: complete_def)
    then have "SendRequest sizes ?q fs = Inr (False, ?q\<lparr>Asked := Asked ?q + 1\<rparr>, fs\<lparr>FMessageCounter := counter\<rparr>)"
      using p by (simp add: SendRequest_def)
    moreover have "in_flight answer reqs ms (fs\<lparr>FMessageCounter := counter\<rparr>)"
      using f in_flight_counter by simp
    ultimately show ?thesis using c Suc by (auto simp: SendRequests_def complete_def)
  qed
qed

lemma Queue_ReceivePacket_in_order:
  assumes q: "complete q" and sizes: "\<And>k. 0 < sizes k"
    and rq: "FRequests q = (n, len) # rs" "FResponses q = a # as"
    and f: "in_flight answer ((n, a) # reqs) ms fs" and data: "hd (answer n) = 103"
  shows "\<exists>q' fs' ms' p. Queue_ReceivePacket sizes q fs = Inr (q', fs', Inr (p, len, True)) \<and> payload p = answer n \<and>
    complete q' \<and> FRequests q' = rs \<and> FResponses q' = as \<and> in_flight answer reqs ms' fs'"
proof -
  obtain fs1 ms1 where r: "ReceiveResponse n a 103 asEOF False fs = Inr (fs1, Inr 0)" "in_flight answer reqs ms1 fs1"
      "holds (Packets fs1 a) (answer n)" "\<not> FReservedBy (Packets fs1 a)"
    using ReceiveResponse_in_order [OF f data] by blast
  let ?q = "q\<lparr>FRequests := rs, FResponses := as\<rparr>"
  have "complete ?q" using q by (simp add: complete_def)
  from SendRequests_complete [where sizes = sizes, OF this sizes r(2)] obtain result q2 fs2 where
    s: "SendRequests sizes ?q fs1 = Inr (result, q2, fs2)" "complete q2" "in_flight answer reqs ms1 fs2"
      "FRequests q2 = rs" "FResponses q2 = as" "Packets fs2 = Packets fs1" by auto
  have "\<not> Queue_End (Packets fs1 a)" using r(3) data by (simp add: Queue_End_def holds_def)
  moreover have "destroy_packet a fs2 = Inr fs2" using r(4) s(6) by (simp add: destroy_packet_def)
  ultimately have "Queue_ReceivePacket sizes q fs = Inr (q2, fs2, Inr (Packets fs1 a, len, True))"
    using rq r(1) s(1) by (simp add: Queue_ReceivePacket_def Let_def)
  moreover have "payload (Packets fs1 a) = answer n" using r(3) by (simp add: holds_def)
  ultimately show ?thesis using s by blast
qed

text \<open>The loop of the download: the contents of the next \<open>k\<close> responses with the sizes asked for.\<close>

primrec drain :: "nat \<Rightarrow> (nat \<Rightarrow> u32) \<Rightarrow> TSFTPDownloadQueue \<Rightarrow> TSFTPFileSystem \<Rightarrow> (u8 list \<times> u32) list res" where
  "drain 0 sizes q fs = Inr []"
| "drain (Suc k) sizes q fs =
     rbind (Queue_ReceivePacket sizes q fs) (\<lambda>(q, fs, result).
     rbind result (\<lambda>(p, len, go).
       if go then rbind (drain k sizes q fs) (\<lambda>rest. Inr ((payload p, len) # rest)) else Inr [(payload p, len)]))"

section \<open>Properties\<close>

text \<open>C7: The requests of a download cover the part of the file exactly: the ranges asked for, one after
  the other, are the part from its offset to its end, with no gap, no overlap and nothing beyond,
  whatever block sizes the transfer uses. It takes at most as many requests as the part has bytes.\<close>

theorem download_requests_tile:
  assumes "0 \<le> FPartSize q" "FTransferred q = FOffset q" "\<And>k. 0 < sizes k" "nat (FPartSize q) \<le> n"
  shows "concat (map (\<lambda>(off, len). [off..off + uint len - 1]) (requests n sizes q)) =
    [FOffset q..FOffset q + FPartSize q - 1]"
  using requests_tile [of q sizes n] assms by simp

definition sample_queue :: TSFTPDownloadQueue where
  "sample_queue = \<lparr>FRequests = [], FResponses = [], FMissedRequests = 0, FOffset = 10, FTransferred = 10, FPartSize = 7,
     FHandle = [1], Asked = 0, Fresh = 5\<rparr>"

theorem download_requests_tile_witness:
  "requests 7 (\<lambda>k. if k = 0 then 4 else 2) sample_queue = [(10, 4), (14, 2), (16, 1)] \<and>
   concat (map (\<lambda>(off, len). [off..off + uint len - 1]) (requests 7 (\<lambda>k. if k = 0 then 4 else 2) sample_queue)) = [10..16]"
proof
  show "requests 7 (\<lambda>k. if k = 0 then 4 else 2) sample_queue = [(10, 4), (14, 2), (16, 1)]" by code_simp
  show "concat (map (\<lambda>(off, len). [off..off + uint len - 1]) (requests 7 (\<lambda>k. if k = 0 then 4 else 2) sample_queue)) = [10..16]"
    using download_requests_tile [of sample_queue "\<lambda>k. if k = 0 then 4 else 2" 7] by (simp add: sample_queue_def)
qed


text \<open>Two requests are open, and the second is answered first.\<close>

definition swapped_answers :: TSFTPFileSystem where
  "swapped_answers =
     \<lparr>FSecureShell = \<lparr>Pending = [], Arriving = [[0, 0, 0, 6, 103, 0, 0, 2, 5, 7, 0, 0, 0, 6], [103, 0, 0, 1, 5, 9]]\<rparr>,
      FPacketReservations = [Some 1, Some 2], FPacketNumbers = [261, 517, 0],
      Packets = (\<lambda>_. Packet_Init 0), FMessageCounter = 4, FsCodePage = 0, FVersion = 3, Sent = []\<rparr>"


end
