(* ===== verification/MemoryStream.thy ===== *)
theory MemoryStream
  imports NB_Prelude
begin

text \<open>
  Streams of \<open>src/base/Classes.cpp\<close>: \<open>TMemoryStream\<close>, a stream in a block of memory that grows, and the
  operations of \<open>TStream\<close> that are built from reading and writing. The block is the list of its bytes,
  so its length is \<open>FCapacity\<close>. What the system allocator leaves in memory it adds to a block is
  unknown, it is given by the parameter \<open>dirt\<close>; that an allocation fails is not modelled. An access
  outside of the block is \<open>EUndefinedBehaviour\<close>. Sizes are natural numbers: no caller passes a
  negative one. The position can be moved in front of the stream and is an integer.
\<close>

unbundle bit_operations_syntax

section \<open>Blocks of memory\<close>

definition memmove :: "nat \<Rightarrow> nat \<Rightarrow> nat \<Rightarrow> u8 list \<Rightarrow> u8 list res" where
  "memmove dest src n m =
     (if dest + n \<le> length m \<and> src + n \<le> length m
      then Inr (take dest m @ take n (drop src m) @ drop (dest + n) m)
      else Inl EUndefinedBehaviour)"

definition memwrite :: "nat \<Rightarrow> u8 list \<Rightarrow> u8 list \<Rightarrow> u8 list res" where
  "memwrite dest data m =
     (if dest + length data \<le> length m
      then Inr (take dest m @ data @ drop (dest + length data) m)
      else Inl EUndefinedBehaviour)"

definition realloc :: "(nat \<Rightarrow> u8) \<Rightarrow> nat \<Rightarrow> u8 list \<Rightarrow> u8 list" where
  "realloc dirt n m = take n m @ map dirt [length m..<n]"

section \<open>\<open>TMemoryStream\<close>\<close>

datatype TSeekOrigin = soBeginning | soCurrent | soEnd

record TMemoryStream =
  FMemory :: "u8 list"
  FSize :: nat
  FPosition :: int

definition new_TMemoryStream :: TMemoryStream where
  "new_TMemoryStream = \<lparr>FMemory = [], FSize = 0, FPosition = 0\<rparr>"

abbreviation (input) FCapacity :: "TMemoryStream \<Rightarrow> nat" where
  "FCapacity s \<equiv> length (FMemory s)"

abbreviation (input) MemoryDelta :: int where "MemoryDelta \<equiv> 0x2000"

definition round_capacity :: "nat \<Rightarrow> nat" where
  "round_capacity n = nat ((int n + (MemoryDelta - 1)) AND NOT (MemoryDelta - 1))"

definition Stream_Realloc :: "(nat \<Rightarrow> u8) \<Rightarrow> nat \<Rightarrow> TMemoryStream \<Rightarrow> u8 list" where
  "Stream_Realloc dirt newCapacity s =
     (let newCapacity = (if newCapacity > 0 \<and> newCapacity \<noteq> FSize s then round_capacity newCapacity else newCapacity)
      in if newCapacity \<noteq> FCapacity s then
           (if newCapacity = 0 then []
            else if FCapacity s = 0 then replicate newCapacity 0
            else realloc dirt newCapacity (FMemory s))
         else FMemory s)"

definition Stream_SetCapacity :: "(nat \<Rightarrow> u8) \<Rightarrow> nat \<Rightarrow> TMemoryStream \<Rightarrow> TMemoryStream" where
  "Stream_SetCapacity dirt newCapacity s = s\<lparr>FMemory := Stream_Realloc dirt newCapacity s\<rparr>"

definition Stream_Seek :: "int \<Rightarrow> TSeekOrigin \<Rightarrow> TMemoryStream \<Rightarrow> int \<times> TMemoryStream" where
  "Stream_Seek offset origin s =
     (let position = (case origin of
            soBeginning \<Rightarrow> offset
          | soCurrent \<Rightarrow> FPosition s + offset
          | soEnd \<Rightarrow> int (FSize s) + offset)
      in (position, s\<lparr>FPosition := position\<rparr>))"

definition Stream_SetSize :: "(nat \<Rightarrow> u8) \<Rightarrow> nat \<Rightarrow> TMemoryStream \<Rightarrow> TMemoryStream" where
  "Stream_SetSize dirt newSize s =
     (let oldPosition = FPosition s;
          s = (Stream_SetCapacity dirt newSize s)\<lparr>FSize := newSize\<rparr>
      in if oldPosition > int newSize then snd (Stream_Seek 0 soEnd s) else s)"

definition Stream_Clear :: "(nat \<Rightarrow> u8) \<Rightarrow> TMemoryStream \<Rightarrow> TMemoryStream" where
  "Stream_Clear dirt s = (Stream_SetCapacity dirt 0 s)\<lparr>FSize := 0, FPosition := 0\<rparr>"

definition Stream_Read :: "nat \<Rightarrow> TMemoryStream \<Rightarrow> (u8 list \<times> TMemoryStream) res" where
  "Stream_Read count s =
     (if FPosition s \<ge> 0 \<and> int (FSize s) - FPosition s > 0 then
        (let result = (if int (FSize s) - FPosition s > int count then count else nat (int (FSize s) - FPosition s));
             position = nat (FPosition s)
         in if position + result \<le> FCapacity s
            then Inr (take result (drop position (FMemory s)), s\<lparr>FPosition := FPosition s + int result\<rparr>)
            else Inl EUndefinedBehaviour)
      else Inr ([], s))"

definition Stream_Write :: "(nat \<Rightarrow> u8) \<Rightarrow> u8 list \<Rightarrow> TMemoryStream \<Rightarrow> (nat \<times> TMemoryStream) res" where
  "Stream_Write dirt data s =
     (let newPos = FPosition s + int (length data)
      in if FPosition s \<ge> 0 \<and> newPos > 0 then
           (let s = (if newPos > int (FSize s) then
                       (if newPos > int (FCapacity s) then Stream_SetCapacity dirt (nat newPos) s else s)\<lparr>FSize := nat newPos\<rparr>
                     else s)
            in rbind (memwrite (nat (FPosition s)) data (FMemory s)) (\<lambda>m.
               Inr (length data, s\<lparr>FMemory := m, FPosition := newPos\<rparr>)))
         else Inr (0, s))"

section \<open>Operations of every stream\<close>

text \<open>
  The operations of \<open>TStream\<close> call the virtual functions for reading and writing. These are
  parameters: \<open>read\<close> takes the number of bytes that are wanted and the stream and returns the bytes
  with the new stream, \<open>wr\<close> takes the bytes and returns their number.
\<close>

definition ReadBuffer :: "(nat \<Rightarrow> 's \<Rightarrow> (u8 list \<times> 's) res) \<Rightarrow> nat \<Rightarrow> 's \<Rightarrow> (u8 list \<times> 's) res" where
  "ReadBuffer read count s =
     (if count \<noteq> 0 then
        rbind (read count s) (\<lambda>(data, s). if length data \<noteq> count then Inl EReadError else Inr (data, s))
      else Inr ([], s))"

definition WriteBuffer :: "(u8 list \<Rightarrow> 'd \<Rightarrow> (nat \<times> 'd) res) \<Rightarrow> u8 list \<Rightarrow> 'd \<Rightarrow> 'd res" where
  "WriteBuffer wr data d =
     (if length data \<noteq> 0 then
        rbind (wr data d) (\<lambda>(n, d). if n \<noteq> length data then Inl EWriteError else Inr d)
      else Inr d)"

text \<open>The loop for a count of zero repeats as long as less than a whole buffer is read.\<close>

partial_function (option) copy_all ::
  "(nat \<Rightarrow> 's \<Rightarrow> (u8 list \<times> 's) res) \<Rightarrow> (u8 list \<Rightarrow> 'd \<Rightarrow> (nat \<times> 'd) res) \<Rightarrow> nat \<Rightarrow> nat \<Rightarrow> 's \<Rightarrow> 'd \<Rightarrow>
   (nat \<times> 's \<times> 'd) res option" where
  "copy_all read wr bufferSize result s d =
     (case read bufferSize s of
        Inl e \<Rightarrow> Some (Inl e)
      | Inr (data, s) \<Rightarrow>
          (case (if length data > 0 then WriteBuffer wr data d else Inr d) of
             Inl e \<Rightarrow> Some (Inl e)
           | Inr d \<Rightarrow>
               if length data < bufferSize then copy_all read wr bufferSize (result + length data) s d
               else Some (Inr (result + length data, s, d))))"

text \<open>The loop for a given count; the buffer is never empty.\<close>

function copy_count ::
  "(nat \<Rightarrow> 's \<Rightarrow> (u8 list \<times> 's) res) \<Rightarrow> (u8 list \<Rightarrow> 'd \<Rightarrow> (nat \<times> 'd) res) \<Rightarrow> nat \<Rightarrow> nat \<Rightarrow> nat \<Rightarrow> 's \<Rightarrow> 'd \<Rightarrow>
   (nat \<times> 's \<times> 'd) res" where
  "copy_count read wr bufferSize count result s d =
     (if count > 0 \<and> bufferSize > 0 then
        (let i = (if count > bufferSize then bufferSize else count)
         in rbind (ReadBuffer read i s) (\<lambda>(data, s).
            rbind (WriteBuffer wr data d) (\<lambda>d. copy_count read wr bufferSize (count - i) (result + i) s d)))
      else Inr (result, s, d))"
  by pat_completeness auto
termination
  by (relation "measure (\<lambda>(_, _, _, count, _). count)") auto

declare copy_count.simps [simp del]

abbreviation (input) MaxSize :: nat where "MaxSize \<equiv> 0x20000"

definition CopyFrom ::
  "(nat \<Rightarrow> 's \<Rightarrow> (u8 list \<times> 's) res) \<Rightarrow> ('s \<Rightarrow> 's) \<Rightarrow> (u8 list \<Rightarrow> 'd \<Rightarrow> (nat \<times> 'd) res) \<Rightarrow> nat \<Rightarrow> 's \<Rightarrow> 'd \<Rightarrow>
   (nat \<times> 's \<times> 'd) res option" where
  "CopyFrom read rewind wr count s d =
     (let s = (if count = 0 then rewind s else s);
          bufferSize = (if count > 0 \<and> count < MaxSize then count else MaxSize)
      in if count = 0 then copy_all read wr bufferSize 0 s d
         else Some (copy_count read wr bufferSize count 0 s d))"

section \<open>Facts about blocks\<close>

lemma memmove_simp: "dest + n \<le> length m \<Longrightarrow> src + n \<le> length m \<Longrightarrow>
    memmove dest src n m = Inr (take dest m @ take n (drop src m) @ drop (dest + n) m)"
  by (simp add: memmove_def)

lemma memwrite_simp: "dest + length data \<le> length m \<Longrightarrow>
    memwrite dest data m = Inr (take dest m @ data @ drop (dest + length data) m)"
  by (simp add: memwrite_def)

lemma length_realloc [simp]: "length (realloc dirt n m) = n"
  by (simp add: realloc_def)

lemma take_realloc: "k \<le> n \<Longrightarrow> k \<le> length m \<Longrightarrow> take k (realloc dirt n m) = take k m"
  by (simp add: realloc_def min_def)

lemma round_capacity: "round_capacity n = (n + 8191) div 8192 * 8192"
proof -
  have "(x :: int) AND NOT (2 ^ 13 - 1) = x div 2 ^ 13 * 2 ^ 13" for x
  proof -
    have "x AND NOT (mask 13) = push_bit 13 (drop_bit 13 x)"
      by (rule bit_eqI) (auto simp: bit_simps)
    then show ?thesis by (simp add: mask_eq_exp_minus_1 push_bit_eq_mult drop_bit_eq_div)
  qed
  from this [of "int n + 8191"] show ?thesis
    by (simp add: round_capacity_def nat_mult_distrib nat_div_distrib nat_add_distrib)
qed

lemma round_capacity_ge: "n \<le> round_capacity n"
  using div_mult_mod_eq [of "n + 8191" 8192] mod_less_divisor [of 8192 "n + 8191"] unfolding round_capacity by linarith

section \<open>The stream in memory\<close>

text \<open>The invariant of the type: the size never exceeds the block.\<close>

definition stream_ok :: "TMemoryStream \<Rightarrow> bool" where
  "stream_ok s \<longleftrightarrow> FSize s \<le> FCapacity s"

definition content :: "TMemoryStream \<Rightarrow> u8 list" where
  "content s = take (FSize s) (FMemory s)"

text \<open>The position is inside the stream or at its end.\<close>

definition in_stream :: "TMemoryStream \<Rightarrow> bool" where
  "in_stream s \<longleftrightarrow> stream_ok s \<and> 0 \<le> FPosition s \<and> FPosition s \<le> int (FSize s)"

lemma length_content [simp]: "stream_ok s \<Longrightarrow> length (content s) = FSize s"
  by (simp add: content_def stream_ok_def)

lemma Stream_Realloc_length: "n \<le> length (Stream_Realloc dirt n s)"
  using round_capacity_ge [of n] by (simp add: Stream_Realloc_def Let_def)

lemma Stream_Realloc_take:
  "k \<le> n \<Longrightarrow> k \<le> FCapacity s \<Longrightarrow> take k (Stream_Realloc dirt n s) = take k (FMemory s)"
  using round_capacity_ge [of n] by (auto simp: Stream_Realloc_def Let_def take_realloc)

lemma Stream_SetSize_simps [simp]:
  "FSize (Stream_SetSize dirt n s) = n"
  "FPosition (Stream_SetSize dirt n s) = min (FPosition s) (int n)"
  "FMemory (Stream_SetSize dirt n s) = Stream_Realloc dirt n s"
  by (simp_all add: Stream_SetSize_def Stream_SetCapacity_def Stream_Seek_def Let_def min_def)

lemma Stream_SetSize_ok: "stream_ok (Stream_SetSize dirt n s)"
  by (simp add: stream_ok_def Stream_Realloc_length)

lemma Stream_SetSize_content:
  assumes "stream_ok s"
  shows "take (FSize s) (content (Stream_SetSize dirt n s)) = take n (content s)"
proof -
  have "take (min n (FSize s)) (Stream_Realloc dirt n s) = take (min n (FSize s)) (FMemory s)"
    using assms by (intro Stream_Realloc_take) (auto simp: stream_ok_def)
  then show ?thesis by (simp add: content_def min.commute)
qed

lemma Stream_Read_spec:
  assumes "stream_ok s" "0 \<le> FPosition s"
  shows "Stream_Read n s =
    Inr (take n (drop (nat (FPosition s)) (content s)),
         s\<lparr>FPosition := FPosition s + int (length (take n (drop (nat (FPosition s)) (content s))))\<rparr>)"
proof (cases "FPosition s < int (FSize s)")
  case True
  define p where "p = nat (FPosition s)"
  define k where "k = min n (FSize s - p)"
  have p: "FPosition s = int p" "p < FSize s" "FSize s \<le> FCapacity s" "nat (int p) = p"
    using True assms by (auto simp: p_def stream_ok_def)
  have r: "(if int (FSize s) - int p > int n then n else nat (int (FSize s) - int p)) = k"
    using p(2) by (auto simp: k_def)
  have t: "take n (drop p (content s)) = take k (drop p (FMemory s))"
    by (simp add: content_def drop_take min.commute k_def)
  have l: "length (take k (drop p (FMemory s))) = k" "p + k \<le> FCapacity s" using p(2,3) by (auto simp: k_def)
  have "int p \<ge> 0 \<and> int (FSize s) - int p > 0" using p by simp
  then show ?thesis unfolding Stream_Read_def p(1,4) r Let_def t l(1) using l(2) by simp
next
  case False
  then have "drop (nat (FPosition s)) (content s) = []" using assms by (simp add: content_def)
  then show ?thesis using False by (simp add: Stream_Read_def)
qed

lemma Stream_Read_negative: "FPosition s < 0 \<Longrightarrow> Stream_Read n s = Inr ([], s)"
  by (simp add: Stream_Read_def)

lemma Stream_Write_spec:
  assumes "stream_ok s" "0 \<le> FPosition s"
  shows "\<exists>s'. Stream_Write dirt data s = Inr (length data, s') \<and> stream_ok s' \<and>
    FPosition s' = FPosition s + int (length data) \<and>
    (FPosition s \<le> int (FSize s) \<longrightarrow>
       content s' = take (nat (FPosition s)) (content s) @ data @ drop (nat (FPosition s) + length data) (content s))"
proof (cases "FPosition s + int (length data) > 0")
  case True
  define p where "p = nat (FPosition s)"
  define t where "t = (if p + length data > FSize s then
       (if p + length data > FCapacity s then Stream_SetCapacity dirt (p + length data) s else s)\<lparr>FSize := p + length data\<rparr>
     else s)"
  have p: "FPosition s = int p" using assms by (simp add: p_def)
  have ok: "p + length data \<le> FCapacity t" "FSize t = max (FSize s) (p + length data)" "FSize t \<le> FCapacity t"
      "FPosition t = int p"
    using assms(1) Stream_Realloc_length [of "p + length data" dirt s]
    by (auto simp: t_def p stream_ok_def Stream_SetCapacity_def)
  have tk: "take (FSize s) (FMemory t) = take (FSize s) (FMemory s)"
    using assms(1) by (auto simp: t_def stream_ok_def Stream_SetCapacity_def Stream_Realloc_take)
  define s' where "s' = t\<lparr>FMemory := take p (FMemory t) @ data @ drop (p + length data) (FMemory t),
      FPosition := int (p + length data)\<rparr>"
  have np: "FPosition s + int (length data) = int (p + length data)" using p by simp
  have t: "(if int (p + length data) > int (FSize s) then
      (if int (p + length data) > int (FCapacity s) then Stream_SetCapacity dirt (p + length data) s else s)
        \<lparr>FSize := p + length data\<rparr> else s) = t"
    by (simp only: t_def of_nat_less_iff)
  have "Stream_Write dirt data s = Inr (length data, s')"
    using True p unfolding Stream_Write_def np Let_def t ok(4) nat_int memwrite_simp [OF ok(1)] rbind_simps s'_def by simp
  moreover have "stream_ok s'" using ok by (simp add: s'_def stream_ok_def)
  moreover have "content s' = take p (content s) @ data @ drop (p + length data) (content s)" if "p \<le> FSize s"
  proof -
    define n where "n = length data"
    have n: "length data = n" "length (take p (FMemory t)) = p" "FSize t - (p + n) = FSize s - (p + n)" "p + n \<le> FSize t"
      using ok that by (auto simp: n_def)
    have "content s' = take p (FMemory t) @ data @ take (FSize t - (p + n)) (drop (p + n) (FMemory t))"
      using n by (simp add: content_def s'_def)
    also have "take (FSize t - (p + n)) (drop (p + n) (FMemory t)) = drop (p + n) (take (FSize s) (FMemory t))"
      by (simp only: n(3) drop_take)
    also have "take p (FMemory t) = take p (take (FSize s) (FMemory t))" using that by (simp add: min_def)
    finally show ?thesis by (simp only: tk content_def n(1))
  qed
  moreover have "FPosition s' = int p + int (length data)" by (simp add: s'_def)
  ultimately show ?thesis unfolding p by auto
next
  case False
  then have "length data = 0" "FPosition s = 0" using assms by linarith+
  then show ?thesis using assms by (auto simp: Stream_Write_def)
qed

section \<open>Streams by their contract\<close>

text \<open>
  What a stream promises that is read, and what one promises that is written: reading gives the next
  bytes, as many as there are, and writing appends all bytes to what is in front of the position.
\<close>

locale byte_source =
  fixes read :: "nat \<Rightarrow> 's \<Rightarrow> (u8 list \<times> 's) res"
    and good :: "'s \<Rightarrow> bool"
    and rest :: "'s \<Rightarrow> u8 list"
  assumes read_next: "good s \<Longrightarrow> \<exists>s'. read n s = Inr (take n (rest s), s') \<and> good s' \<and> rest s' = drop n (rest s)"
begin

lemma ReadBuffer_next:
  assumes "good s"
  shows "if n \<le> length (rest s)
    then \<exists>s'. ReadBuffer read n s = Inr (take n (rest s), s') \<and> good s' \<and> rest s' = drop n (rest s)
    else ReadBuffer read n s = Inl EReadError"
  using read_next [OF assms, of n] assms by (auto simp: ReadBuffer_def)

end

locale byte_sink =
  fixes wr :: "u8 list \<Rightarrow> 'd \<Rightarrow> (nat \<times> 'd) res"
    and writable :: "'d \<Rightarrow> bool"
    and written :: "'d \<Rightarrow> u8 list"
  assumes write_all: "writable d \<Longrightarrow> \<exists>d'. wr data d = Inr (length data, d') \<and> writable d' \<and> written d' = written d @ data"
begin

lemma WriteBuffer_all:
  "writable d \<Longrightarrow> \<exists>d'. WriteBuffer wr data d = Inr d' \<and> writable d' \<and> written d' = written d @ data"
  using write_all [of d data] by (cases "data = []") (auto simp: WriteBuffer_def)

end

locale stream_copy = byte_source + byte_sink
begin

text \<open>With a count, exactly that many bytes are copied, or the source is too short.\<close>

lemma copy_count_copies:
  assumes "good s" "writable d" "bufferSize > 0"
  shows "if count \<le> length (rest s)
    then \<exists>s' d'. copy_count read wr bufferSize count result s d = Inr (result + count, s', d') \<and>
      good s' \<and> rest s' = drop count (rest s) \<and> writable d' \<and> written d' = written d @ take count (rest s)
    else copy_count read wr bufferSize count result s d = Inl EReadError"
  using assms(1,2)
proof (induction count arbitrary: result s d rule: less_induct)
  case (less count)
  show ?case
  proof (cases "count = 0")
    case True
    then show ?thesis using less.prems by (simp add: copy_count.simps)
  next
    case False
    define i where "i = min bufferSize count"
    have i: "0 < i" "i \<le> count" "(if count > bufferSize then bufferSize else count) = i"
      using False assms(3) by (auto simp: i_def)
    show ?thesis
    proof (cases "i \<le> length (rest s)")
      case True
      then obtain s' where s': "ReadBuffer read i s = Inr (take i (rest s), s')" "good s'" "rest s' = drop i (rest s)"
        using ReadBuffer_next [OF less.prems(1), of i] by auto
      obtain d' where d': "WriteBuffer wr (take i (rest s)) d = Inr d'" "writable d'" "written d' = written d @ take i (rest s)"
        using WriteBuffer_all [OF less.prems(2)] by blast
      have step: "copy_count read wr bufferSize count result s d = copy_count read wr bufferSize (count - i) (result + i) s' d'"
        using False assms(3) s'(1) d'(1) by (simp add: copy_count.simps [of _ _ _ count] i(3))
      have "take i (rest s) @ take (count - i) (drop i (rest s)) = take count (rest s)"
        using i(2) by (metis le_add_diff_inverse take_add)
      then show ?thesis
        using less.IH [of "count - i" s' d' "result + i"] i s'(2,3) d'(2,3) True unfolding step by (auto split: if_splits)
    next
      case False
      then have "ReadBuffer read i s = Inl EReadError" using ReadBuffer_next [OF less.prems(1), of i] by simp
      then show ?thesis using False i assms(3) by (simp add: copy_count.simps [of _ _ _ count])
    qed
  qed
qed

text \<open>
  Without a count, a source that is shorter than the buffer is read for ever: the end of the data is
  taken for a reason to go on. A longer one is copied up to the size of the buffer.
\<close>

lemma copy_all_step:
  assumes "good s" "writable d" "length (rest s) < n"
  obtains s' d' where "read n s = Inr (rest s, s')" "good s'" "rest s' = []"
    "(if length (rest s) > 0 then WriteBuffer wr (rest s) d else Inr d) = Inr d'" "writable d'"
proof -
  obtain s' where s': "read n s = Inr (rest s, s')" "good s'" "rest s' = []"
    using read_next [OF assms(1), of n] assms(3) by auto
  obtain d' where d': "(if length (rest s) > 0 then WriteBuffer wr (rest s) d else Inr d) = Inr d'" "writable d'"
    using WriteBuffer_all [OF assms(2), of "rest s"] assms(2) by (cases "rest s = []") auto
  show ?thesis using that s' d' by blast
qed

lemma copy_all_short:
  assumes "good s" "writable d" "length (rest s) < n"
  shows "copy_all read wr n result s d = None"
proof -
  have "\<not> (read' = read \<and> wr' = wr \<and> good s \<and> writable d \<and> length (rest s) < n)"
    if "copy_all read' wr' n result s d = Some r" for read' wr' n result s d r
    using _ that
  proof (rule copy_all.raw_induct
      [where P = "\<lambda>read' wr' n _ s d _. \<not> (read' = read \<and> wr' = wr \<and> good s \<and> writable d \<and> length (rest s) < n)"])
    fix f read' wr' n result s d r
    assume IH: "\<And>read' wr' n result s d r. f read' wr' n result s d = Some r \<Longrightarrow>
        \<not> (read' = read \<and> wr' = wr \<and> good s \<and> writable d \<and> length (rest s) < n)"
      and r: "(case read' n s of Inl e \<Rightarrow> Some (Inl e)
        | Inr (data, s) \<Rightarrow>
            (case (if length data > 0 then WriteBuffer wr' data d else Inr d) of Inl e \<Rightarrow> Some (Inl e)
             | Inr d \<Rightarrow> if length data < n then f read' wr' n (result + length data) s d
                        else Some (Inr (result + length data, s, d)))) = Some r"
    show "\<not> (read' = read \<and> wr' = wr \<and> good s \<and> writable d \<and> length (rest s) < n)"
    proof
      assume a: "read' = read \<and> wr' = wr \<and> good s \<and> writable d \<and> length (rest s) < n"
      then obtain s' d' where n: "read n s = Inr (rest s, s')" "good s'" "rest s' = []"
          "(if length (rest s) > 0 then WriteBuffer wr (rest s) d else Inr d) = Inr d'" "writable d'"
        using copy_all_step by blast
      then have "f read wr n (result + length (rest s)) s' d' = Some r" using r a by (cases "rest s = []") simp_all
      then show False using IH n(2,3,5) a by fastforce
    qed
  qed
  then show ?thesis using assms by (cases "copy_all read wr n result s d") auto
qed

lemma copy_all_long:
  assumes "good s" "writable d" "n \<le> length (rest s)"
  shows "\<exists>s' d'. copy_all read wr n result s d = Some (Inr (result + n, s', d')) \<and>
    rest s' = drop n (rest s) \<and> written d' = written d @ take n (rest s)"
proof -
  define bs where "bs = take n (rest s)"
  have bs: "length bs = n" using assms(3) by (simp add: bs_def)
  obtain s' where s': "read n s = Inr (bs, s')" "good s'" "rest s' = drop n (rest s)"
    using read_next [OF assms(1), of n] by (auto simp: bs_def)
  obtain d' where d': "(if length bs > 0 then WriteBuffer wr bs d else Inr d) = Inr d'" "written d' = written d @ bs"
    using WriteBuffer_all [OF assms(2), of bs] by (cases "bs = []") auto
  have "copy_all read wr n result s d = Some (Inr (result + n, s', d'))"
    unfolding copy_all.simps [of read wr n result s d] s'(1) sum.case prod.case d'(1) using bs by simp
  then show ?thesis using s'(3) d'(2) unfolding bs_def by blast
qed

text \<open>Both cases of a copy without a count.\<close>

lemma copy_all_copies:
  assumes "good s" "writable d"
  shows "if length (rest s) < n then copy_all read wr n result s d = None
    else \<exists>s' d'. copy_all read wr n result s d = Some (Inr (result + n, s', d')) \<and> written d' = written d @ take n (rest s)"
proof (cases "length (rest s) < n")
  case True
  then show ?thesis using copy_all_short [OF assms] by simp
next
  case False
  then show ?thesis using copy_all_long [OF assms, of n result] unfolding not_less by auto
qed

lemma CopyFrom_zero_copies:
  assumes "good (rewind s)" "writable d"
  shows "if length (rest (rewind s)) < MaxSize then CopyFrom read rewind wr 0 s d = None
    else \<exists>s' d'. CopyFrom read rewind wr 0 s d = Some (Inr (MaxSize, s', d')) \<and>
      written d' = written d @ take MaxSize (rest (rewind s))"
proof -
  have "CopyFrom read rewind wr 0 s d = copy_all read wr MaxSize 0 (rewind s) d" by (simp add: CopyFrom_def)
  then show ?thesis using copy_all_copies [OF assms, of MaxSize 0] by (simp only: add_0)
qed

lemma CopyFrom_count_copies:
  assumes "good s" "writable d" "count > 0"
  shows "if count \<le> length (rest s)
    then \<exists>s' d'. CopyFrom read rewind wr count s d = Some (Inr (count, s', d')) \<and>
      good s' \<and> rest s' = drop count (rest s) \<and> writable d' \<and> written d' = written d @ take count (rest s)
    else CopyFrom read rewind wr count s d = Some (Inl EReadError)"
proof -
  define n where "n = (if count < MaxSize then count else MaxSize)"
  have n: "n > 0" using assms(3) by (simp add: n_def)
  have "CopyFrom read rewind wr count s d = Some (copy_count read wr n count 0 s d)"
    using assms(3) by (simp add: CopyFrom_def n_def)
  then show ?thesis using copy_count_copies [OF assms(1,2) n, of count 0] by (simp only: add_0 option.inject)
qed

end

text \<open>The stream in memory keeps both contracts.\<close>

definition readable :: "TMemoryStream \<Rightarrow> bool" where
  "readable s \<longleftrightarrow> stream_ok s \<and> 0 \<le> FPosition s"

definition unread :: "TMemoryStream \<Rightarrow> u8 list" where
  "unread s = drop (nat (FPosition s)) (content s)"

definition written_part :: "TMemoryStream \<Rightarrow> u8 list" where
  "written_part s = take (nat (FPosition s)) (content s)"

lemma Stream_Read_unread:
  assumes "readable s"
  shows "\<exists>s'. Stream_Read n s = Inr (take n (unread s), s') \<and> readable s' \<and> unread s' = drop n (unread s)"
proof -
  define k where "k = length (take n (unread s))"
  let ?s = "s\<lparr>FPosition := FPosition s + int k\<rparr>"
  have "Stream_Read n s = Inr (take n (unread s), ?s)"
    using Stream_Read_spec [of s n] assms by (simp add: readable_def unread_def k_def)
  moreover have "readable ?s" using assms by (simp add: readable_def stream_ok_def)
  moreover have "unread ?s = drop k (unread s)"
    using assms by (simp add: unread_def readable_def content_def nat_add_distrib add.commute)
  moreover have "drop k (unread s) = drop n (unread s)" by (simp add: k_def min_def)
  ultimately show ?thesis by auto
qed

lemma Stream_Write_written:
  assumes "in_stream s"
  shows "\<exists>s'. Stream_Write dirt data s = Inr (length data, s') \<and> in_stream s' \<and> written_part s' = written_part s @ data"
proof -
  define p where "p = nat (FPosition s)"
  have p: "stream_ok s" "0 \<le> FPosition s" "FPosition s \<le> int (FSize s)" "FPosition s = int p" "p \<le> FSize s"
    using assms by (auto simp: in_stream_def p_def)
  obtain s' where s': "Stream_Write dirt data s = Inr (length data, s')" "stream_ok s'"
      "FPosition s' = int (p + length data)"
      "content s' = take p (content s) @ data @ drop (p + length data) (content s)"
    using Stream_Write_spec [OF p(1,2), of dirt data] p(3,4) by auto
  have l: "length (take p (content s)) = p" using p(1,5) by simp
  then have "written_part s' = written_part s @ data" unfolding written_part_def s'(3,4) nat_int p(4) by simp
  moreover have "p + length data \<le> length (content s')" unfolding s'(4) using l by simp
  ultimately show ?thesis using s'(1-3) by (auto simp: in_stream_def)
qed

interpretation mem: stream_copy Stream_Read readable unread "Stream_Write dirt" in_stream written_part for dirt
  by unfold_locales (rule Stream_Read_unread Stream_Write_written; assumption)+

section \<open>Properties\<close>

text \<open>C21: The type invariant of memory streams, the size within the allocated block, holds for a new
  stream and is kept by every operation, wherever the position has been moved. No operation on such a
  stream accesses memory outside of the block.\<close>

theorem memory_stream_type:
  assumes "stream_ok s"
  shows "stream_ok new_TMemoryStream \<and> stream_ok (Stream_SetSize dirt n s) \<and> stream_ok (Stream_Clear dirt s) \<and>
    stream_ok (snd (Stream_Seek offset origin s)) \<and>
    (\<exists>bs s'. Stream_Read n s = Inr (bs, s') \<and> stream_ok s' \<and> length bs \<le> n) \<and>
    (\<exists>k s'. Stream_Write dirt bytes s = Inr (k, s') \<and> stream_ok s' \<and> k \<le> length bytes)"
proof (intro conjI)
  show "stream_ok new_TMemoryStream" by (simp add: stream_ok_def new_TMemoryStream_def)
  show "stream_ok (Stream_SetSize dirt n s)" by (rule Stream_SetSize_ok)
  show "stream_ok (Stream_Clear dirt s)" by (simp add: stream_ok_def Stream_Clear_def)
  show "stream_ok (snd (Stream_Seek offset origin s))" using assms by (simp add: stream_ok_def Stream_Seek_def Let_def)
  show "\<exists>bs s'. Stream_Read n s = Inr (bs, s') \<and> stream_ok s' \<and> length bs \<le> n"
    using Stream_Read_unread [of s n] Stream_Read_negative [of s n] assms
    by (cases "0 \<le> FPosition s") (auto simp: readable_def)
  show "\<exists>k s'. Stream_Write dirt bytes s = Inr (k, s') \<and> stream_ok s' \<and> k \<le> length bytes"
    using Stream_Write_spec [OF assms, of dirt bytes] assms
    by (cases "0 \<le> FPosition s") (auto simp: Stream_Write_def Let_def)
qed

theorem memory_stream_type_witness:
  "\<exists>k s'. Stream_Write (\<lambda>_. 7) [1, 2] \<lparr>FMemory = [9], FSize = 1, FPosition = 3\<rparr> = Inr (k, s') \<and> stream_ok s'"
proof -
  have "stream_ok \<lparr>FMemory = [9], FSize = 1, FPosition = 3\<rparr>" by (simp add: stream_ok_def)
  from memory_stream_type [OF this] show ?thesis by blast
qed

text \<open>C22: Copying a given number of bytes between two memory streams takes exactly the next bytes of the
  source and puts them at the position of the destination, in pieces of the buffer size; when the
  source has fewer bytes, the copy ends with a read error.\<close>

theorem CopyFrom_copies:
  assumes "readable s" "in_stream d" "count > 0"
  shows "if count \<le> length (unread s)
    then \<exists>s' d'. CopyFrom Stream_Read rewind (Stream_Write dirt) count s d = Some (Inr (count, s', d')) \<and>
      unread s' = drop count (unread s) \<and> written_part d' = written_part d @ take count (unread s) \<and> readable s' \<and> in_stream d'
    else CopyFrom Stream_Read rewind (Stream_Write dirt) count s d = Some (Inl EReadError)"
  using mem.CopyFrom_count_copies [OF assms, of rewind dirt] by (auto split: if_splits)

theorem CopyFrom_copies_witness:
  "\<exists>s' d'. CopyFrom Stream_Read id (Stream_Write (\<lambda>_. 0)) 2
     \<lparr>FMemory = [1, 2, 3], FSize = 3, FPosition = 1\<rparr> new_TMemoryStream = Some (Inr (2, s', d')) \<and> written_part d' = [2, 3]"
proof -
  have "readable \<lparr>FMemory = [1, 2, 3], FSize = 3, FPosition = 1\<rparr>" by (simp add: readable_def stream_ok_def)
  moreover have "in_stream new_TMemoryStream" by (simp add: in_stream_def stream_ok_def new_TMemoryStream_def)
  moreover have "unread \<lparr>FMemory = [1, 2, 3], FSize = 3, FPosition = 1\<rparr> = [2, 3]" "written_part new_TMemoryStream = []"
    by (simp_all add: unread_def content_def written_part_def new_TMemoryStream_def)
  ultimately show ?thesis using CopyFrom_copies [of _ new_TMemoryStream 2 id "\<lambda>_. 0"] by fastforce
qed

text \<open>C23: A count of zero stands for the whole source, but the loop for it goes on as long as less than a
  buffer has been read. A source shorter than the buffer, in particular an empty one, is therefore
  read for ever, and a longer one is copied only up to the size of the buffer.\<close>

theorem CopyFrom_whole_source:
  assumes "stream_ok s" "in_stream d"
  defines "rewind \<equiv> \<lambda>s. snd (Stream_Seek 0 soBeginning s)"
  shows "if length (content s) < MaxSize
    then CopyFrom Stream_Read rewind (Stream_Write dirt) 0 s d = None
    else \<exists>s' d'. CopyFrom Stream_Read rewind (Stream_Write dirt) 0 s d = Some (Inr (MaxSize, s', d')) \<and>
      written_part d' = written_part d @ take MaxSize (content s)"
proof -
  have r: "readable (rewind s)" "unread (rewind s) = content s"
    using assms(1) by (simp_all add: rewind_def Stream_Seek_def readable_def stream_ok_def unread_def content_def)
  show ?thesis using mem.CopyFrom_zero_copies [of rewind s, OF r(1) assms(2), of dirt] unfolding r(2) .
qed

theorem CopyFrom_whole_source_witness:
  "CopyFrom Stream_Read (\<lambda>s. snd (Stream_Seek 0 soBeginning s)) (Stream_Write (\<lambda>_. 0)) 0
     new_TMemoryStream new_TMemoryStream = None"
proof -
  have "stream_ok new_TMemoryStream" "in_stream new_TMemoryStream" "content new_TMemoryStream = []"
    by (simp_all add: stream_ok_def in_stream_def content_def new_TMemoryStream_def)
  then show ?thesis using CopyFrom_whole_source [of new_TMemoryStream new_TMemoryStream "\<lambda>_. 0"] by simp
qed

end
