(* ===== verification/FileBuffer.thy ===== *)
theory FileBuffer
  imports MemoryStream
begin

text \<open>
  The block buffer of file transfers, \<open>TFileBuffer\<close> of \<open>src/base/FileBuffer.cpp\<close>, with the conversion
  of line ends. Its only member is a memory stream, so a buffer is one. The conversion loops work in
  place: they insert and delete bytes at the current index and read the block again. Reads are at
  indices below the size. An index counts up from 0 and is a natural number; where the source
  steps back from 0 in order to stay there, the loop goes on at 0. The section behind shows that the
  loops compute functions on lists, and what these mean for a text that is converted in blocks.
\<close>

type_synonym TFileBuffer = TMemoryStream

datatype TEOLType = eolLF | eolCRLF | eolCR

abbreviation (input) LF :: u8 where "LF \<equiv> 10"
abbreviation (input) CR :: u8 where "CR \<equiv> 13"

section \<open>Size, insertion and deletion\<close>

definition SetSize :: "(nat \<Rightarrow> u8) \<Rightarrow> nat \<Rightarrow> TFileBuffer \<Rightarrow> TFileBuffer" where
  "SetSize dirt n b = (if FSize b \<noteq> n then Stream_SetSize dirt n b else b)"

definition Reset :: "TFileBuffer \<Rightarrow> TFileBuffer" where
  "Reset b = snd (Stream_Seek 0 soBeginning b)"

definition ProcessRead :: "(nat \<Rightarrow> u8) \<Rightarrow> nat \<Rightarrow> nat \<Rightarrow> TFileBuffer \<Rightarrow> TFileBuffer" where
  "ProcessRead dirt len result b =
     snd (Stream_Seek (int result) soCurrent
       (if result \<noteq> len then SetSize dirt (FSize b - len + result) b else b))"

definition NeedSpace :: "(nat \<Rightarrow> u8) \<Rightarrow> nat \<Rightarrow> TFileBuffer \<Rightarrow> TFileBuffer" where
  "NeedSpace dirt len b = SetSize dirt (nat (FPosition b + int len)) b"

text \<open>The bytes are received into the block at the position.\<close>

definition receive_at :: "(nat \<Rightarrow> u8) \<Rightarrow> nat \<Rightarrow> u8 list \<Rightarrow> TFileBuffer \<Rightarrow> TFileBuffer res" where
  "receive_at dirt len data b =
     rbind (memwrite (nat (FPosition b)) data (FMemory b)) (\<lambda>m.
       Inr (ProcessRead dirt len (length data) (b\<lparr>FMemory := m\<rparr>)))"

definition ReadStream ::
  "(nat \<Rightarrow> u8) \<Rightarrow> (nat \<Rightarrow> 's \<Rightarrow> (u8 list \<times> 's) res) \<Rightarrow> nat \<Rightarrow> bool \<Rightarrow> 's \<Rightarrow> TFileBuffer \<Rightarrow>
   (nat \<times> 's \<times> TFileBuffer) res" where
  "ReadStream dirt read len forceLen s b =
     (let b = NeedSpace dirt len b
      in rbind (if forceLen then ReadBuffer read len s else read len s) (\<lambda>(data, s).
         rbind (receive_at dirt len data b) (\<lambda>b. Inr (length data, s, b))))"

definition LoadStream ::
  "(nat \<Rightarrow> u8) \<Rightarrow> (nat \<Rightarrow> 's \<Rightarrow> (u8 list \<times> 's) res) \<Rightarrow> nat \<Rightarrow> bool \<Rightarrow> 's \<Rightarrow> TFileBuffer \<Rightarrow>
   (nat \<times> 's \<times> TFileBuffer) res" where
  "LoadStream dirt read len forceLen s b = ReadStream dirt read len forceLen s (snd (Stream_Seek 0 soBeginning b))"

text \<open>The callback of a transfer gives bytes as a stream does.\<close>

definition LoadFromIn ::
  "(nat \<Rightarrow> u8) \<Rightarrow> (nat \<Rightarrow> 's \<Rightarrow> (u8 list \<times> 's) res) \<Rightarrow> nat \<Rightarrow> 's \<Rightarrow> TFileBuffer \<Rightarrow> (nat \<times> 's \<times> TFileBuffer) res" where
  "LoadFromIn dirt onTransferIn len s b =
     (let b = NeedSpace dirt len (snd (Stream_Seek 0 soBeginning b))
      in rbind (onTransferIn len s) (\<lambda>(data, s).
         rbind (receive_at dirt len data b) (\<lambda>b. Inr (length data, s, b))))"

definition Buffer_Insert :: "(nat \<Rightarrow> u8) \<Rightarrow> nat \<Rightarrow> u8 list \<Rightarrow> TFileBuffer \<Rightarrow> TFileBuffer res" where
  "Buffer_Insert dirt index buf b =
     (if index \<le> FSize b then
        (let b = SetSize dirt (FSize b + length buf) b
         in rbind (memmove (index + length buf) index (FSize b - index - length buf) (FMemory b)) (\<lambda>m.
            rbind (memwrite index buf m) (\<lambda>m. Inr (b\<lparr>FMemory := m\<rparr>))))
      else Inl EUndefinedBehaviour)"

definition Buffer_Delete :: "(nat \<Rightarrow> u8) \<Rightarrow> nat \<Rightarrow> nat \<Rightarrow> TFileBuffer \<Rightarrow> TFileBuffer res" where
  "Buffer_Delete dirt index len b =
     (if index + len \<le> FSize b then
        rbind (memmove index (index + len) (FSize b - index - len) (FMemory b)) (\<lambda>m.
          Inr (SetSize dirt (FSize b - len) (b\<lparr>FMemory := m\<rparr>)))
      else Inl EUndefinedBehaviour)"

text \<open>Bytes are written from the block at the position.\<close>

definition sent_bytes :: "nat \<Rightarrow> TFileBuffer \<Rightarrow> u8 list res" where
  "sent_bytes len b =
     (if FPosition b \<ge> 0 \<and> nat (FPosition b) + len \<le> FCapacity b
      then Inr (take len (drop (nat (FPosition b)) (FMemory b))) else Inl EUndefinedBehaviour)"

definition WriteToStream ::
  "(u8 list \<Rightarrow> 'd \<Rightarrow> (nat \<times> 'd) res) \<Rightarrow> nat \<Rightarrow> 'd \<Rightarrow> TFileBuffer \<Rightarrow> ('d \<times> TFileBuffer) res" where
  "WriteToStream wr len d b =
     rbind (sent_bytes len b) (\<lambda>data. rbind (WriteBuffer wr data d) (\<lambda>d.
       Inr (d, snd (Stream_Seek (int len) soCurrent b))))"

definition WriteToOut :: "(u8 list \<Rightarrow> 'd \<Rightarrow> 'd) \<Rightarrow> nat \<Rightarrow> 'd \<Rightarrow> TFileBuffer \<Rightarrow> ('d \<times> TFileBuffer) res" where
  "WriteToOut onTransferOut len d b =
     rbind (sent_bytes len b) (\<lambda>data. Inr (onTransferOut data d, snd (Stream_Seek (int len) soCurrent b)))"

section \<open>Conversion of line ends\<close>

text \<open>Strings of C: the second character of a line end of one character is the terminator.\<close>

fun EOLToStr :: "TEOLType \<Rightarrow> u8 \<times> u8" where
  "EOLToStr eolLF = (LF, 0)"
| "EOLToStr eolCRLF = (CR, LF)"
| "EOLToStr eolCR = (CR, 0)"

abbreviation (input) byte_at :: "nat \<Rightarrow> TFileBuffer \<Rightarrow> u8" where
  "byte_at i b \<equiv> FMemory b ! i"

definition poke :: "nat \<Rightarrow> u8 \<Rightarrow> TFileBuffer \<Rightarrow> TFileBuffer res" where
  "poke i c b = rbind (memwrite i [c] (FMemory b)) (\<lambda>m. Inr (b\<lparr>FMemory := m\<rparr>))"

lemma SetSize_FSize [simp]: "FSize (SetSize dirt n b) = n"
  by (simp add: SetSize_def)

lemma Buffer_Insert_FSize: "Buffer_Insert dirt i buf b = Inr b' \<Longrightarrow> FSize b' = FSize b + length buf"
  by (auto simp: Buffer_Insert_def Let_def rbind_eq_Inr_iff split: if_splits)

lemma Buffer_Delete_FSize: "Buffer_Delete dirt i n b = Inr b' \<Longrightarrow> FSize b' = FSize b - n \<and> i + n \<le> FSize b"
  by (auto simp: Buffer_Delete_def rbind_eq_Inr_iff split: if_splits)

lemma poke_FSize: "poke i c b = Inr b' \<Longrightarrow> FSize b' = FSize b"
  by (auto simp: poke_def rbind_eq_Inr_iff)

text \<open>Line ends of one character.\<close>

function convert_one_loop ::
  "(nat \<Rightarrow> u8) \<Rightarrow> u8 \<Rightarrow> u8 \<times> u8 \<Rightarrow> bool \<Rightarrow> nat \<Rightarrow> bool \<Rightarrow> TFileBuffer \<Rightarrow> (TFileBuffer \<times> bool) res" where
  "convert_one_loop dirt s d prevToken index token b =
     (if \<not> index < FSize b then Inr (b, token)
      else if index + 1 < FSize b \<and> byte_at index b = fst d \<and> byte_at (index + 1) b = snd d then
        convert_one_loop dirt s d prevToken (index + 2) token b
      else if index = 0 \<and> prevToken \<and> byte_at index b = snd d then
        rbind (Buffer_Delete dirt index 1 b) (\<lambda>b. convert_one_loop dirt s d prevToken index token b)
      else if byte_at index b = fst d \<and> index + 1 = FSize b \<and> snd d \<noteq> 0 then
        rbind (Buffer_Insert dirt (index + 1) [snd d] b) (\<lambda>b. convert_one_loop dirt s d prevToken (index + 2) True b)
      else if byte_at index b = s then
        rbind (poke index (fst d) b) (\<lambda>b.
          if snd d \<noteq> 0 then
            rbind (Buffer_Insert dirt (index + 1) [snd d] b) (\<lambda>b. convert_one_loop dirt s d prevToken (index + 2) token b)
          else convert_one_loop dirt s d prevToken (index + 1) token b)
      else convert_one_loop dirt s d prevToken (index + 1) token b)"
  by pat_completeness auto
termination
  by (relation "measure (\<lambda>(_, _, _, _, index, _, b). FSize b - index)")
     (auto dest!: Buffer_Insert_FSize Buffer_Delete_FSize poke_FSize)

text \<open>Line ends of two characters; the result has the index behind the loop.\<close>

function convert_two_loop ::
  "(nat \<Rightarrow> u8) \<Rightarrow> u8 \<times> u8 \<Rightarrow> u8 \<times> u8 \<Rightarrow> nat \<Rightarrow> TFileBuffer \<Rightarrow> (nat \<times> TFileBuffer) res" where
  "convert_two_loop dirt s d index b =
     (if \<not> index + 1 < FSize b then Inr (index, b)
      else if byte_at index b = fst s \<and> byte_at (index + 1) b = snd s then
        rbind (poke index (fst d) b) (\<lambda>b.
          if snd d \<noteq> 0 then rbind (poke (index + 1) (snd d) b) (\<lambda>b. convert_two_loop dirt s d (index + 2) b)
          else rbind (Buffer_Delete dirt (index + 1) 1 b) (\<lambda>b. convert_two_loop dirt s d (index + 1) b))
      else convert_two_loop dirt s d (index + 1) b)"
  by pat_completeness auto
termination
  by (relation "measure (\<lambda>(_, _, _, index, b). FSize b - index)")
     (auto dest!: Buffer_Delete_FSize poke_FSize)

declare convert_one_loop.simps [simp del] convert_two_loop.simps [simp del]

definition remove_marks :: "(nat \<Rightarrow> u8) \<Rightarrow> bool \<Rightarrow> bool \<Rightarrow> TFileBuffer \<Rightarrow> TFileBuffer res" where
  "remove_marks dirt removeBOM removeCtrlZ b =
     rbind (if removeBOM \<and> FSize b \<ge> 3 \<and> take 3 (FMemory b) = [0xEF, 0xBB, 0xBF]
            then Buffer_Delete dirt 0 3 b else Inr b) (\<lambda>b.
       if removeCtrlZ \<and> FSize b > 0 \<and> byte_at (FSize b - 1) b = 0x1A
       then Buffer_Delete dirt (FSize b - 1) 1 b else Inr b)"

definition Convert ::
  "(nat \<Rightarrow> u8) \<Rightarrow> TEOLType \<Rightarrow> TEOLType \<Rightarrow> bool \<Rightarrow> bool \<Rightarrow> bool \<Rightarrow> TFileBuffer \<Rightarrow> (TFileBuffer \<times> bool) res" where
  "Convert dirt source dest removeBOM removeCtrlZ token b =
     rbind (remove_marks dirt removeBOM removeCtrlZ b) (\<lambda>b.
       let s = EOLToStr source; d = EOLToStr dest
       in if s = d then Inr (b, token)
          else if snd s = 0 then convert_one_loop dirt (fst s) d token 0 False b
          else rbind (convert_two_loop dirt s d 0 b) (\<lambda>(index, b).
               rbind (if index < FSize b \<and> byte_at index b = fst s then Buffer_Delete dirt index 1 b else Inr b) (\<lambda>b.
                 Inr (b, token))))"

section \<open>The operations on the content\<close>

lemma take_prefix: "length xs = n \<Longrightarrow> take n (xs @ ys) = xs"
  by simp

lemma memory_content: "stream_ok b \<Longrightarrow> i < FSize b \<Longrightarrow> FMemory b ! i = content b ! i"
  by (simp add: content_def)

lemma SetSize_ok: "stream_ok b \<Longrightarrow> stream_ok (SetSize dirt n b)"
  by (simp add: SetSize_def Stream_SetSize_ok)

lemma SetSize_content:
  "stream_ok b \<Longrightarrow> take (FSize b) (content (SetSize dirt n b)) = take n (content b)"
  using Stream_SetSize_content [of b dirt n] by (simp add: SetSize_def content_def)

lemma Buffer_Insert_content:
  assumes "stream_ok b" "index \<le> FSize b"
  shows "\<exists>b'. Buffer_Insert dirt index buf b = Inr b' \<and> stream_ok b' \<and>
    content b' = take index (content b) @ buf @ drop index (content b)"
proof -
  define n where "n = length buf"
  define c where "c = SetSize dirt (FSize b + n) b"
  define m where "m = FMemory c"
  have c: "FSize c = FSize b + n" "FSize b + n \<le> length m" "take (FSize b) m = content b"
    using SetSize_ok [OF assms(1), of dirt "FSize b + n"] SetSize_content [OF assms(1), of dirt "FSize b + n"] assms(1)
    by (simp_all add: c_def m_def stream_ok_def content_def)
  define k where "k = FSize b - index"
  have k: "FSize c - index - n = k" "index + n + k = FSize b + n" "index + k = FSize b" using assms(2) by (auto simp: k_def c(1))
  define m1 where "m1 = take (index + n) m @ take k (drop index m) @ drop (FSize b + n) m"
  have m1: "memmove (index + n) index k m = Inr m1" "length m1 = length m"
    using memmove_simp [of "index + n" k m index] k c(2) by (auto simp: m1_def)
  define m2 where "m2 = take index m1 @ buf @ drop (index + n) m1"
  have m2: "memwrite index buf m1 = Inr m2" using memwrite_simp [of index buf m1] m1(2) c(2) assms(2) by (simp add: m2_def n_def)
  have "Buffer_Insert dirt index buf b = Inr (c\<lparr>FMemory := m2\<rparr>)"
    using assms(2) m1(1) m2 k(1) by (simp add: Buffer_Insert_def Let_def flip: n_def c_def m_def)
  moreover have "take (FSize b + n) m2 = take index (content b) @ buf @ drop index (content b)"
  proof -
    have "take index m1 = take index m" "drop (index + n) m1 = take k (drop index m) @ drop (FSize b + n) m"
      using c(2) assms(2) by (simp_all add: m1_def)
    moreover have "take k (drop index m) = drop index (content b)" "take index m = take index (content b)"
      using assms(2) by (simp_all add: c(3) [symmetric] drop_take k_def min_def)
    moreover have "length (take index (content b) @ buf @ drop index (content b)) = FSize b + n"
      using assms by (simp add: n_def)
    ultimately show ?thesis
      using take_prefix [of "take index (content b) @ buf @ drop index (content b)" "FSize b + n" "drop (FSize b + n) m"]
      by (simp only: m2_def append_assoc)
  qed
  moreover have "length m2 = length m" using m1(2) c(2) assms(2) by (simp add: m2_def n_def)
  ultimately show ?thesis using c by (auto simp: stream_ok_def content_def)
qed

lemma Buffer_Delete_content:
  assumes "stream_ok b" "index + len \<le> FSize b"
  shows "\<exists>b'. Buffer_Delete dirt index len b = Inr b' \<and> stream_ok b' \<and>
    content b' = take index (content b) @ drop (index + len) (content b)"
proof -
  define k where "k = FSize b - index - len"
  define m where "m = FMemory b"
  have k: "index + len + k = FSize b" "FSize b \<le> length m" "FSize b - len = index + k" "FSize b - (index + len) = k"
    using assms by (auto simp: k_def m_def stream_ok_def)
  define m1 where "m1 = take index m @ take k (drop (index + len) m) @ drop (index + k) m"
  have m1: "memmove index (index + len) k m = Inr m1" "length m1 = length m"
    using memmove_simp [of index k m "index + len"] k by (auto simp: m1_def)
  define c where "c = b\<lparr>FMemory := m1\<rparr>"
  have ok: "stream_ok c" using m1(2) k(2) by (simp add: c_def stream_ok_def)
  have "Buffer_Delete dirt index len b = Inr (SetSize dirt (FSize b - len) c)"
    using assms(2) m1(1) by (simp add: Buffer_Delete_def c_def k_def m_def)
  moreover have "content (SetSize dirt (FSize b - len) c) = take (FSize b - len) m1"
  proof -
    have "length (content (SetSize dirt (FSize b - len) c)) \<le> FSize b"
      using SetSize_ok [OF ok, of dirt "FSize b - len"] by simp
    then show ?thesis using SetSize_content [OF ok, of dirt "FSize b - len"] by (simp add: c_def content_def)
  qed
  moreover have "take (FSize b - len) m1 = take index (content b) @ drop (index + len) (content b)"
  proof -
    have "length (take index m @ take k (drop (index + len) m)) = FSize b - len" using k by simp
    from take_prefix [OF this, of "drop (index + k) m"]
    have "take (FSize b - len) m1 = take index m @ take k (drop (index + len) m)" by (simp only: m1_def append_assoc)
    then show ?thesis using assms(2) k(4) by (simp add: content_def m_def drop_take min_def)
  qed
  ultimately show ?thesis using SetSize_ok [OF ok] by auto
qed

lemma poke_content:
  assumes "stream_ok b" "i < FSize b"
  shows "\<exists>b'. poke i c b = Inr b' \<and> stream_ok b' \<and> content b' = (content b)[i := c]"
proof -
  have "i + length [c] \<le> FCapacity b" using assms by (simp add: stream_ok_def)
  from memwrite_simp [OF this] have "poke i c b = Inr (b\<lparr>FMemory := (FMemory b)[i := c]\<rparr>)"
    using assms by (simp add: poke_def stream_ok_def upd_conv_take_nth_drop)
  then show ?thesis using assms by (auto simp: stream_ok_def content_def take_update_swap)
qed

section \<open>The loops as functions on lists\<close>

text \<open>
  \<open>first\<close> tells whether the index is 0, which it still is after the deletion. The result is the new
  content and the token for the next block.
\<close>

fun convert_one :: "u8 \<Rightarrow> u8 \<times> u8 \<Rightarrow> bool \<Rightarrow> bool \<Rightarrow> u8 list \<Rightarrow> u8 list \<times> bool" where
  "convert_one s d first prevToken [] = ([], False)"
| "convert_one s d first prevToken (b # rest) =
     (if rest \<noteq> [] \<and> b = fst d \<and> hd rest = snd d then
        (case convert_one s d False prevToken (tl rest) of (out, token) \<Rightarrow> (b # hd rest # out, token))
      else if first \<and> prevToken \<and> b = snd d then convert_one s d first prevToken rest
      else if b = fst d \<and> rest = [] \<and> snd d \<noteq> 0 then ([b, snd d], True)
      else if b = s then
        (case convert_one s d False prevToken rest of (out, token) \<Rightarrow>
           (if snd d \<noteq> 0 then fst d # snd d # out else fst d # out, token))
      else (case convert_one s d False prevToken rest of (out, token) \<Rightarrow> (b # out, token)))"

declare convert_one.simps(2) [simp del]

text \<open>A first character at the very end of the block is dropped.\<close>

fun convert_two :: "u8 \<times> u8 \<Rightarrow> u8 \<times> u8 \<Rightarrow> u8 list \<Rightarrow> u8 list" where
  "convert_two s d [] = []"
| "convert_two s d [b] = (if b = fst s then [] else [b])"
| "convert_two s d (b # c # rest) =
     (if b = fst s \<and> c = snd s then
        (if snd d \<noteq> 0 then fst d # snd d # convert_two s d rest else fst d # convert_two s d rest)
      else b # convert_two s d (c # rest))"

definition marks_removed :: "bool \<Rightarrow> bool \<Rightarrow> u8 list \<Rightarrow> u8 list" where
  "marks_removed removeBOM removeCtrlZ xs =
     (let xs = (if removeBOM \<and> take 3 xs = [0xEF, 0xBB, 0xBF] then drop 3 xs else xs)
      in if removeCtrlZ \<and> xs \<noteq> [] \<and> last xs = 0x1A then butlast xs else xs)"

definition converted :: "TEOLType \<Rightarrow> TEOLType \<Rightarrow> bool \<Rightarrow> bool \<Rightarrow> bool \<Rightarrow> u8 list \<Rightarrow> u8 list \<times> bool" where
  "converted source dest removeBOM removeCtrlZ token xs =
     (let xs = marks_removed removeBOM removeCtrlZ xs
      in if source = dest then (xs, token)
         else if snd (EOLToStr source) = 0 then convert_one (fst (EOLToStr source)) (EOLToStr dest) True token xs
         else (convert_two (EOLToStr source) (EOLToStr dest) xs, token))"

lemma EOLToStr_inj: "EOLToStr a = EOLToStr b \<longleftrightarrow> a = b"
  by (cases a; cases b) simp_all

text \<open>A position in the content splits it at a character.\<close>

lemma split_at:
  assumes "stream_ok b" "i < FSize b"
  obtains ys x r where "content b = ys @ x # r" "i = length ys"
proof -
  have "i < length (content b)" using assms by simp
  from id_take_nth_drop [OF this] show ?thesis using that [of "take i (content b)"] assms by simp
qed

lemma split_simps:
  assumes "stream_ok b" "content b = ys @ x # r"
  shows "length ys < FSize b" "byte_at (length ys) b = x" "length ys + 1 < FSize b \<longleftrightarrow> r \<noteq> []"
    "length ys + 1 = FSize b \<longleftrightarrow> r = []" "r \<noteq> [] \<Longrightarrow> byte_at (length ys + 1) b = hd r"
    "FSize b = length ys + 1 + length r"
proof -
  show len: "FSize b = length ys + 1 + length r" using length_content [OF assms(1)] assms(2) by simp
  then show "length ys < FSize b" "length ys + 1 < FSize b \<longleftrightarrow> r \<noteq> []" "length ys + 1 = FSize b \<longleftrightarrow> r = []" by auto
  show "byte_at (length ys) b = x" using memory_content [OF assms(1), of "length ys"] len assms(2) by simp
  show "byte_at (length ys + 1) b = hd r" if "r \<noteq> []"
    using memory_content [OF assms(1), of "length ys + 1"] len assms(2) that by (simp add: nth_append hd_conv_nth)
qed

lemma poke_split:
  assumes "stream_ok b" "content b = ys @ x # r"
  shows "\<exists>b'. poke (length ys) c b = Inr b' \<and> stream_ok b' \<and> FSize b' = FSize b \<and> content b' = ys @ c # r"
proof -
  have "length ys < FSize b" using length_content [OF assms(1)] assms(2) by simp
  then obtain b' where "poke (length ys) c b = Inr b'" "stream_ok b'" "content b' = (content b)[length ys := c]"
    using poke_content [OF assms(1), of "length ys" c] by blast
  then show ?thesis using poke_FSize [of "length ys" c b b'] assms(2) by simp
qed

lemma insert_split:
  assumes "stream_ok b" "content b = ys @ x # r"
  shows "\<exists>b'. Buffer_Insert dirt (length ys + 1) [e] b = Inr b' \<and> stream_ok b' \<and> FSize b' = FSize b + 1 \<and> content b' = ys @ x # e # r"
proof -
  have "length ys + 1 \<le> FSize b" using length_content [OF assms(1)] assms(2) by simp
  then obtain b' where "Buffer_Insert dirt (length ys + 1) [e] b = Inr b'" "stream_ok b'" "content b' = take (length ys + 1) (content b) @ [e] @ drop (length ys + 1) (content b)"
    using Buffer_Insert_content [OF assms(1), of "length ys + 1" dirt "[e]"] by blast
  then show ?thesis using Buffer_Insert_FSize [of dirt "length ys + 1" "[e]" b b'] assms(2) by simp
qed

lemma delete_split:
  assumes "stream_ok b" "content b = ys @ x # r"
  shows "\<exists>b'. Buffer_Delete dirt (length ys) 1 b = Inr b' \<and> stream_ok b' \<and> FSize b' = FSize b - 1 \<and> content b' = ys @ r"
proof -
  have "length ys + 1 \<le> FSize b" using length_content [OF assms(1)] assms(2) by simp
  then obtain b' where "Buffer_Delete dirt (length ys) 1 b = Inr b'" "stream_ok b'" "content b' = take (length ys) (content b) @ drop (length ys + 1) (content b)"
    using Buffer_Delete_content [OF assms(1), of "length ys" 1 dirt] by blast
  then show ?thesis using Buffer_Delete_FSize [of dirt "length ys" 1 b b'] assms(2) by simp
qed

text \<open>The result of the first loop from an index on; every step of the loop keeps it.\<close>

definition one_result :: "u8 \<Rightarrow> u8 \<times> u8 \<Rightarrow> bool \<Rightarrow> nat \<Rightarrow> bool \<Rightarrow> u8 list \<Rightarrow> u8 list \<times> bool" where
  "one_result s d prev i t xs =
     (case convert_one s d (i = 0) prev (drop i xs) of (out, token) \<Rightarrow> (take i xs @ out, t \<or> token))"

lemma one_result_split:
  "one_result s d prev (length ys) t (ys @ zs) =
     (case convert_one s d (ys = []) prev zs of (out, token) \<Rightarrow> (ys @ out, t \<or> token))"
  by (simp add: one_result_def)

lemma one_result_later:
  assumes "ys \<noteq> []"
  shows "one_result s d prev (length ys) t (ys @ zs) =
     (case convert_one s d False prev zs of (out, token) \<Rightarrow> (ys @ out, t \<or> token))"
  using assms by (simp add: one_result_split)

text \<open>One step of the loop, from the first tuple to the second.\<close>

definition one_step :: "(nat \<Rightarrow> u8) \<Rightarrow> u8 \<Rightarrow> u8 \<times> u8 \<Rightarrow> bool \<Rightarrow> nat \<times> bool \<times> TFileBuffer \<Rightarrow> nat \<times> bool \<times> TFileBuffer \<Rightarrow> bool" where
  "one_step dirt s d prev = (\<lambda>(i, t, b) (i2, t2, b2).
     convert_one_loop dirt s d prev i t b = convert_one_loop dirt s d prev i2 t2 b2 \<and>
     stream_ok b2 \<and> i2 \<le> FSize b2 \<and> FSize b2 - i2 < FSize b - i \<and>
     one_result s d prev i2 t2 (content b2) = one_result s d prev i t (content b))"

lemma one_step_pair:
  assumes ok: "stream_ok b" and content: "content b = ys @ x # r"
    and asm: "r \<noteq> [] \<and> x = fst d \<and> hd r = snd d"
  shows "one_step dirt s d prev (length ys, t, b) (length ys + 2, t, b)"
proof -
  note at = split_simps [OF ok content]
  have "convert_one_loop dirt s d prev (length ys) t b = convert_one_loop dirt s d prev (length ys + 2) t b"
    unfolding convert_one_loop.simps [of dirt s d prev "length ys" t b] at(2,3) using asm at(1,5) by simp
  moreover obtain r' where r': "r = snd d # r'" using asm by (cases r) auto
  moreover have "one_result s d prev (length ys + 2) t (ys @ x # r) = one_result s d prev (length ys) t (ys @ x # r)"
    using asm one_result_later [of "ys @ [x, snd d]" s d prev t r'] unfolding r'
    by (auto simp: one_result_split convert_one.simps(2) split: prod.split)
  ultimately show ?thesis using at(6) ok content by (auto simp: one_step_def)
qed

lemma one_step_strip:
  assumes ok: "stream_ok b" and content: "content b = ys @ x # r"
    and asm: "\<not> (r \<noteq> [] \<and> x = fst d \<and> hd r = snd d)" "ys = [] \<and> prev \<and> x = snd d"
  shows "\<exists>b2. one_step dirt s d prev (length ys, t, b) (length ys, t, b2)"
proof -
  note at = split_simps [OF ok content]
  obtain b2 where b2: "Buffer_Delete dirt (length ys) 1 b = Inr b2" "stream_ok b2" "FSize b2 = FSize b - 1" "content b2 = ys @ r"
    using delete_split [OF ok content] by blast
  have "convert_one_loop dirt s d prev (length ys) t b = convert_one_loop dirt s d prev (length ys) t b2"
    unfolding convert_one_loop.simps [of dirt s d prev "length ys" t b] at(2,3) b2(1) rbind_simps using asm at(1,5) by auto
  moreover have "one_result s d prev (length ys) t (ys @ r) = one_result s d prev (length ys) t (ys @ x # r)"
    using asm unfolding one_result_split by (auto simp: convert_one.simps(2))
  ultimately show ?thesis using at(6) b2 content by (auto simp: one_step_def)
qed

lemma one_step_final:
  assumes ok: "stream_ok b" and content: "content b = ys @ x # r"
    and asm: "\<not> (ys = [] \<and> prev \<and> x = snd d)" "x = fst d \<and> r = [] \<and> snd d \<noteq> 0"
  shows "\<exists>b2. one_step dirt s d prev (length ys, t, b) (length ys + 2, True, b2)"
proof -
  note at = split_simps [OF ok content]
  obtain b2 where b2: "Buffer_Insert dirt (length ys + 1) [snd d] b = Inr b2" "stream_ok b2" "FSize b2 = FSize b + 1"
      "content b2 = ys @ x # snd d # r"
    using insert_split [OF ok content] by blast
  have "convert_one_loop dirt s d prev (length ys) t b = convert_one_loop dirt s d prev (length ys + 2) True b2"
    unfolding convert_one_loop.simps [of dirt s d prev "length ys" t b] at(2-4) b2(1) rbind_simps using asm at(1) by auto
  moreover have "one_result s d prev (length ys + 2) True (ys @ x # snd d # r) = one_result s d prev (length ys) t (ys @ x # r)"
    using asm one_result_later [of "ys @ [x, snd d]" s d prev True r]
    by (auto simp: one_result_split convert_one.simps(2))
  ultimately show ?thesis using at(6) b2 content by (auto simp: one_step_def)
qed

lemma one_step_replace:
  assumes ok: "stream_ok b" and content: "content b = ys @ x # r"
    and asm: "\<not> (r \<noteq> [] \<and> x = fst d \<and> hd r = snd d)" "\<not> (ys = [] \<and> prev \<and> x = snd d)"
    "\<not> (x = fst d \<and> r = [] \<and> snd d \<noteq> 0)" "x = s"
  shows "\<exists>i2 b2. one_step dirt s d prev (length ys, t, b) (i2, t, b2)"
proof -
  note at = split_simps [OF ok content]
  obtain b2 where b2: "poke (length ys) (fst d) b = Inr b2" "stream_ok b2" "FSize b2 = FSize b" "content b2 = ys @ fst d # r"
    using poke_split [OF ok content] by blast
  have np: "\<not> \<not> length ys < FSize b" "\<not> (r \<noteq> [] \<and> x = fst d \<and> byte_at (length ys + 1) b = snd d)"
      "\<not> (length ys = 0 \<and> prev \<and> x = snd d)"
    using asm at(1,5) by auto
  have step: "convert_one_loop dirt s d prev (length ys) t b =
      (if snd d \<noteq> 0 then rbind (Buffer_Insert dirt (length ys + 1) [snd d] b2) (convert_one_loop dirt s d prev (length ys + 2) t)
       else convert_one_loop dirt s d prev (length ys + 1) t b2)"
    unfolding convert_one_loop.simps [of dirt s d prev "length ys" t b] at(2-4) rbind_simps
      if_not_P [OF np(1)] if_not_P [OF np(2)] if_not_P [OF np(3)] if_not_P [OF asm(3)] if_P [OF asm(4)] b2(1) ..
  show ?thesis
  proof (cases "snd d = 0")
    case True
    have "one_result s d prev (length ys + 1) t (ys @ fst d # r) = one_result s d prev (length ys) t (ys @ x # r)"
      using asm True one_result_later [of "ys @ [fst d]" s d prev t r]
      by (auto simp: one_result_split convert_one.simps(2) split: prod.split)
    then have "one_step dirt s d prev (length ys, t, b) (length ys + 1, t, b2)"
      using step True at(6) b2 content by (auto simp: one_step_def)
    then show ?thesis by blast
  next
    case False
    obtain b3 where b3: "Buffer_Insert dirt (length ys + 1) [snd d] b2 = Inr b3" "stream_ok b3" "FSize b3 = FSize b2 + 1"
        "content b3 = ys @ fst d # snd d # r"
      using insert_split [OF b2(2,4)] by blast
    have "one_result s d prev (length ys + 2) t (ys @ fst d # snd d # r) = one_result s d prev (length ys) t (ys @ x # r)"
      using asm False one_result_later [of "ys @ [fst d, snd d]" s d prev t r]
      by (auto simp: one_result_split convert_one.simps(2) split: prod.split)
    then have "one_step dirt s d prev (length ys, t, b) (length ys + 2, t, b3)"
      using step False at(6) b2(3) b3 content by (auto simp: one_step_def)
    then show ?thesis by blast
  qed
qed

lemma one_step_keep:
  assumes ok: "stream_ok b" and content: "content b = ys @ x # r"
    and asm: "\<not> (r \<noteq> [] \<and> x = fst d \<and> hd r = snd d)" "\<not> (ys = [] \<and> prev \<and> x = snd d)"
    "\<not> (x = fst d \<and> r = [] \<and> snd d \<noteq> 0)" "x \<noteq> s"
  shows "one_step dirt s d prev (length ys, t, b) (length ys + 1, t, b)"
proof -
  note at = split_simps [OF ok content]
  have np: "\<not> \<not> length ys < FSize b" "\<not> (r \<noteq> [] \<and> x = fst d \<and> byte_at (length ys + 1) b = snd d)"
      "\<not> (length ys = 0 \<and> prev \<and> x = snd d)"
    using asm at(1,5) by auto
  have "convert_one_loop dirt s d prev (length ys) t b = convert_one_loop dirt s d prev (length ys + 1) t b"
    unfolding convert_one_loop.simps [of dirt s d prev "length ys" t b] at(2-4)
      if_not_P [OF np(1)] if_not_P [OF np(2)] if_not_P [OF np(3)] if_not_P [OF asm(3)] if_not_P [OF asm(4)] ..
  moreover have "one_result s d prev (length ys + 1) t (ys @ x # r) = one_result s d prev (length ys) t (ys @ x # r)"
    using asm one_result_later [of "ys @ [x]" s d prev t r]
    by (auto simp: one_result_split convert_one.simps(2) split: prod.split)
  ultimately show ?thesis using at(6) ok content by (auto simp: one_step_def)
qed

lemma convert_one_loop_step:
  assumes "stream_ok b" "i < FSize b"
  shows "\<exists>i2 t2 b2. one_step dirt s d prev (i, t, b) (i2, t2, b2)"
proof -
  obtain ys x r where c: "content b = ys @ x # r" "i = length ys" using split_at [OF assms] by blast
  note step = one_step_pair [OF assms(1) c(1)] one_step_strip [OF assms(1) c(1)] one_step_final [OF assms(1) c(1)]
    one_step_replace [OF assms(1) c(1)] one_step_keep [OF assms(1) c(1)]
  consider "r \<noteq> [] \<and> x = fst d \<and> hd r = snd d"
    | "\<not> (r \<noteq> [] \<and> x = fst d \<and> hd r = snd d)" "ys = [] \<and> prev \<and> x = snd d"
    | "\<not> (ys = [] \<and> prev \<and> x = snd d)" "x = fst d \<and> r = [] \<and> snd d \<noteq> 0"
    | "\<not> (r \<noteq> [] \<and> x = fst d \<and> hd r = snd d)" "\<not> (ys = [] \<and> prev \<and> x = snd d)"
        "\<not> (x = fst d \<and> r = [] \<and> snd d \<noteq> 0)"
    by blast
  then show ?thesis
  proof cases
    case 1
    then show ?thesis using step(1) unfolding c(2) by blast
  next
    case 2
    then show ?thesis using step(2) unfolding c(2) by blast
  next
    case 3
    then show ?thesis using step(3) unfolding c(2) by blast
  next
    case 4
    then show ?thesis using step(4,5) unfolding c(2) by (cases "x = s") blast+
  qed
qed

lemma convert_one_loop_spec:
  assumes "stream_ok b" "i \<le> FSize b"
  shows "\<exists>b'. convert_one_loop dirt s d prev i t b = Inr (b', snd (one_result s d prev i t (content b))) \<and> stream_ok b' \<and>
    content b' = fst (one_result s d prev i t (content b))"
  using assms
proof (induction "FSize b - i" arbitrary: b i t rule: less_induct)
  case less
  show ?case
  proof (cases "i < FSize b")
    case True
    obtain i2 t2 b2 where "one_step dirt s d prev (i, t, b) (i2, t2, b2)"
      using convert_one_loop_step [OF less.prems(1) True] by blast
    then show ?thesis using less.hyps [of b2 i2 t2] by (simp add: one_step_def)
  next
    case False
    then show ?thesis
      using less.prems by (simp add: convert_one_loop.simps [of _ _ _ _ "FSize b"] one_result_def)
  qed
qed

text \<open>The same for the loop over line ends of two characters.\<close>

definition two_result :: "u8 \<times> u8 \<Rightarrow> u8 \<times> u8 \<Rightarrow> nat \<Rightarrow> u8 list \<Rightarrow> u8 list" where
  "two_result s d i xs = take i xs @ convert_two s d (drop i xs)"

lemma two_result_split: "two_result s d (length ys) (ys @ zs) = ys @ convert_two s d zs"
  by (simp add: two_result_def)

lemma convert_two_pair:
  assumes "stream_ok b" "content b = ys @ fst s # snd s # r"
  shows "\<exists>i2 b2. convert_two_loop dirt s d (length ys) b = convert_two_loop dirt s d i2 b2 \<and> stream_ok b2 \<and> i2 \<le> FSize b2 \<and>
    FSize b2 - i2 < FSize b - length ys \<and> two_result s d i2 (content b2) = two_result s d (length ys) (content b)"
proof -
  note at = split_simps [OF assms]
  obtain b2 where b2: "poke (length ys) (fst d) b = Inr b2" "stream_ok b2" "FSize b2 = FSize b"
      "content b2 = ys @ fst d # snd s # r"
    using poke_split [OF assms] by blast
  have step: "convert_two_loop dirt s d (length ys) b =
      (if snd d \<noteq> 0 then rbind (poke (length ys + 1) (snd d) b2) (convert_two_loop dirt s d (length ys + 2))
       else rbind (Buffer_Delete dirt (length ys + 1) 1 b2) (convert_two_loop dirt s d (length ys + 1)))"
    unfolding convert_two_loop.simps [of dirt s d "length ys" b] using at(2,3,5) b2(1) by simp
  show ?thesis
  proof (cases "snd d = 0")
    case False
    obtain b3 where b3: "poke (length ys + 1) (snd d) b2 = Inr b3" "stream_ok b3" "FSize b3 = FSize b2"
        "content b3 = (ys @ [fst d]) @ snd d # r"
      using poke_split [of b2 "ys @ [fst d]"] b2(2,4) by auto
    have "two_result s d (length ys + 2) (content b3) = two_result s d (length ys) (content b)"
      using two_result_split [of s d "ys @ [fst d, snd d]" r] False unfolding b3(4) assms(2) by (simp add: two_result_split)
    then show ?thesis using step False b3(1-3) b2(3) at(6) by (intro exI [of _ "length ys + 2"] exI [of _ b3]) simp
  next
    case True
    obtain b3 where b3: "Buffer_Delete dirt (length ys + 1) 1 b2 = Inr b3" "stream_ok b3" "FSize b3 = FSize b2 - 1"
        "content b3 = (ys @ [fst d]) @ r"
      using delete_split [of b2 "ys @ [fst d]"] b2(2,4) by auto
    have "two_result s d (length ys + 1) (content b3) = two_result s d (length ys) (content b)"
      using two_result_split [of s d "ys @ [fst d]" r] True unfolding b3(4) assms(2) by (simp add: two_result_split)
    then show ?thesis using step True b3(1-3) b2(3) at(6) by (intro exI [of _ "length ys + 1"] exI [of _ b3]) simp
  qed
qed

lemma convert_two_loop_step:
  assumes "stream_ok b" "i + 1 < FSize b"
  shows "\<exists>i2 b2. convert_two_loop dirt s d i b = convert_two_loop dirt s d i2 b2 \<and> stream_ok b2 \<and> i2 \<le> FSize b2 \<and>
    FSize b2 - i2 < FSize b - i \<and> two_result s d i2 (content b2) = two_result s d i (content b)"
proof -
  obtain ys x r where c: "content b = ys @ x # r" "i = length ys" using split_at [OF assms(1), of i] assms(2) by auto
  note at = split_simps [OF assms(1) c(1)]
  then obtain y r' where r: "r = y # r'" using assms(2) c(2) by (cases r) auto
  show ?thesis
  proof (cases "x = fst s \<and> y = snd s")
    case True
    then show ?thesis using convert_two_pair [OF assms(1), of ys s r'] c r by simp
  next
    case False
    have "byte_at (length ys + 1) b = y" using at(5) r by simp
    then have "convert_two_loop dirt s d (length ys) b = convert_two_loop dirt s d (length ys + 1) b"
      unfolding convert_two_loop.simps [of dirt s d "length ys" b] at(2) using False at(3) r by auto
    moreover have "two_result s d (length ys + 1) (content b) = two_result s d (length ys) (content b)"
      using two_result_split [of s d "ys @ [x]" r] False unfolding c(1) r by (auto simp: two_result_split)
    ultimately show ?thesis using assms c(2) by (intro exI [of _ "i + 1"] exI [of _ b]) simp
  qed
qed

lemma convert_two_loop_spec:
  assumes "stream_ok b" "i \<le> FSize b"
  shows "\<exists>j b'. convert_two_loop dirt s d i b = Inr (j, b') \<and> stream_ok b' \<and> j \<le> FSize b' \<and> FSize b' \<le> j + 1 \<and>
    two_result s d j (content b') = two_result s d i (content b)"
  using assms
proof (induction "FSize b - i" arbitrary: b i rule: less_induct)
  case less
  show ?case
  proof (cases "i + 1 < FSize b")
    case True
    obtain i2 b2 where "convert_two_loop dirt s d i b = convert_two_loop dirt s d i2 b2" "stream_ok b2" "i2 \<le> FSize b2"
        "FSize b2 - i2 < FSize b - i" "two_result s d i2 (content b2) = two_result s d i (content b)"
      using convert_two_loop_step [OF less.prems(1) True] by blast
    then show ?thesis using less.hyps [of b2 i2] by simp
  next
    case False
    then have "convert_two_loop dirt s d i b = Inr (i, b)" unfolding convert_two_loop.simps [of dirt s d i b] by simp
    then show ?thesis using less.prems False by simp
  qed
qed

lemma bom_spec:
  assumes "stream_ok b"
  shows "FSize b \<ge> 3 \<and> take 3 (FMemory b) = [x, y, z] \<longleftrightarrow> take 3 (content b) = [x, y, z]"
proof (cases "FSize b \<ge> 3")
  case False
  have "take 3 (content b) \<noteq> [x, y, z]"
  proof
    assume "take 3 (content b) = [x, y, z]"
    then have "length (take 3 (content b)) = 3" by simp
    then show False using False assms by simp
  qed
  then show ?thesis using False by simp
qed (simp add: content_def min_def)

lemma ctrl_z_spec:
  assumes "stream_ok b"
  shows "FSize b > 0 \<and> byte_at (FSize b - 1) b = c \<longleftrightarrow> content b \<noteq> [] \<and> last (content b) = c"
proof (cases "FSize b > 0")
  case True
  then have "content b \<noteq> []" using length_content [OF assms] by auto
  moreover have "last (content b) = byte_at (FSize b - 1) b"
    using True memory_content [OF assms, of "FSize b - 1"] length_content [OF assms] calculation by (simp add: last_conv_nth)
  ultimately show ?thesis using True by simp
next
  case False
  then have "content b = []" using length_content [OF assms] by simp
  then show ?thesis using False by simp
qed

lemma delete_if:
  assumes "stream_ok b" "P \<Longrightarrow> index + len \<le> FSize b"
  shows "\<exists>b'. (if P then Buffer_Delete dirt index len b else Inr b) = Inr b' \<and> stream_ok b' \<and>
    content b' = (if P then take index (content b) @ drop (index + len) (content b) else content b)"
  using Buffer_Delete_content [OF assms(1)] assms by (cases P) simp_all

lemma remove_marks_spec:
  assumes "stream_ok b"
  shows "\<exists>b'. remove_marks dirt removeBOM removeCtrlZ b = Inr b' \<and> stream_ok b' \<and>
    content b' = marks_removed removeBOM removeCtrlZ (content b)"
proof -
  define bom where "bom \<longleftrightarrow> removeBOM \<and> FSize b \<ge> 3 \<and> take 3 (FMemory b) = [0xEF, 0xBB, 0xBF]"
  obtain b2 where b2: "(if bom then Buffer_Delete dirt 0 3 b else Inr b) = Inr b2" "stream_ok b2"
      "content b2 = (if bom then drop 3 (content b) else content b)"
    using delete_if [OF assms, of bom 0 3 dirt] by (auto simp: bom_def)
  define eof where "eof \<longleftrightarrow> removeCtrlZ \<and> FSize b2 > 0 \<and> byte_at (FSize b2 - 1) b2 = 0x1A"
  obtain b3 where b3: "(if eof then Buffer_Delete dirt (FSize b2 - 1) 1 b2 else Inr b2) = Inr b3" "stream_ok b3"
      "content b3 = (if eof then take (FSize b2 - 1) (content b2) @ drop (FSize b2 - 1 + 1) (content b2) else content b2)"
    using delete_if [OF b2(2), of eof "FSize b2 - 1" 1 dirt] unfolding eof_def by auto
  have "content b3 = (if eof then butlast (content b2) else content b2)"
    using b3(3) length_content [OF b2(2)] by (simp add: butlast_conv_take eof_def)
  moreover have "bom \<longleftrightarrow> removeBOM \<and> take 3 (content b) = [0xEF, 0xBB, 0xBF]"
    using bom_spec [OF assms, of "0xEF" "0xBB" "0xBF"] by (auto simp: bom_def)
  moreover have "eof \<longleftrightarrow> removeCtrlZ \<and> content b2 \<noteq> [] \<and> last (content b2) = 0x1A"
    using ctrl_z_spec [OF b2(2), of "0x1A"] by (auto simp: eof_def)
  ultimately have "content b3 = marks_removed removeBOM removeCtrlZ (content b)" using b2(3) by (simp add: marks_removed_def Let_def)
  moreover have "remove_marks dirt removeBOM removeCtrlZ b = Inr b3"
    unfolding remove_marks_def bom_def [symmetric] b2(1) rbind_simps eof_def [symmetric] b3(1) ..
  ultimately show ?thesis using b3(2) by blast
qed

lemma final_delete:
  assumes "stream_ok b" "i \<le> FSize b" "FSize b \<le> i + 1"
  shows "\<exists>b'. (if i < FSize b \<and> byte_at i b = fst s then Buffer_Delete dirt i 1 b else Inr b) = Inr b' \<and> stream_ok b' \<and>
    content b' = two_result s d i (content b)"
proof (cases "i < FSize b")
  case True
  obtain ys x r where c: "content b = ys @ x # r" "i = length ys" using split_at [OF assms(1) True] by blast
  note at = split_simps [OF assms(1) c(1)]
  then have r: "r = []" using assms(3) c(2) by simp
  show ?thesis using delete_split [OF assms(1) c(1)] at(1,2) assms(1) c r by (auto simp: two_result_split)
next
  case False
  then show ?thesis using assms by (simp add: two_result_def)
qed

text \<open>The conversion of a block never leaves its memory, and computes what the functions say.\<close>

lemma Convert_spec:
  assumes "stream_ok b"
  shows "\<exists>b'. Convert dirt source dest removeBOM removeCtrlZ token b =
      Inr (b', snd (converted source dest removeBOM removeCtrlZ token (content b))) \<and> stream_ok b' \<and>
    content b' = fst (converted source dest removeBOM removeCtrlZ token (content b))"
proof -
  obtain b2 where b2: "remove_marks dirt removeBOM removeCtrlZ b = Inr b2" "stream_ok b2"
      "content b2 = marks_removed removeBOM removeCtrlZ (content b)"
    using remove_marks_spec [OF assms] by blast
  let ?s = "EOLToStr source" and ?d = "EOLToStr dest"
  consider "source = dest" | "source \<noteq> dest" "snd ?s = 0" | "source \<noteq> dest" "snd ?s \<noteq> 0" by blast
  then show ?thesis
  proof cases
    case 1
    then show ?thesis using b2 by (simp add: Convert_def converted_def)
  next
    case 2
    then show ?thesis
      using b2 convert_one_loop_spec [OF b2(2), of 0 dirt "fst ?s" ?d token False]
      by (auto simp: Convert_def converted_def EOLToStr_inj one_result_def split: prod.splits)
  next
    case 3
    obtain i b3 where b3: "convert_two_loop dirt ?s ?d 0 b2 = Inr (i, b3)" "stream_ok b3" "i \<le> FSize b3" "FSize b3 \<le> i + 1"
        "convert_two ?s ?d (content b2) = two_result ?s ?d i (content b3)"
      using convert_two_loop_spec [OF b2(2), of 0 dirt ?s ?d] by (auto simp: two_result_def)
    obtain b4 where b4: "(if i < FSize b3 \<and> byte_at i b3 = fst ?s then Buffer_Delete dirt i 1 b3 else Inr b3) = Inr b4"
        "stream_ok b4" "content b4 = two_result ?s ?d i (content b3)"
      using final_delete [OF b3(2-4)] by blast
    have "Convert dirt source dest removeBOM removeCtrlZ token b = Inr (b4, token)"
      using 3 b2(1) b3(1) b4(1) by (simp add: Convert_def EOLToStr_inj Let_def)
    moreover have "converted source dest removeBOM removeCtrlZ token (content b) = (content b4, token)"
      using 3 b2(3) b3(5) b4(3) by (simp add: converted_def)
    ultimately show ?thesis using b4(2) by simp
  qed
qed

section \<open>Loading a block\<close>

context byte_source
begin

text \<open>Whatever the stream behind it, a load replaces the content by the next bytes of the stream.\<close>

lemma LoadStream_next:
  assumes "good s" "stream_ok b" "\<not> forceLen \<or> n \<le> length (rest s)"
  shows "\<exists>s' b'. LoadStream dirt read n forceLen s b = Inr (length (take n (rest s)), s', b') \<and> good s' \<and>
    rest s' = drop n (rest s) \<and> stream_ok b' \<and> content b' = take n (rest s) \<and> FPosition b' = int (FSize b')"
proof -
  define data where "data = take n (rest s)"
  obtain s' where s': "(if forceLen then ReadBuffer read n s else read n s) = Inr (data, s')" "good s'" "rest s' = drop n (rest s)"
    using read_next [OF assms(1), of n] ReadBuffer_next [OF assms(1), of n] assms(3)
    by (cases forceLen) (auto simp: data_def)
  define c where "c = NeedSpace dirt n (snd (Stream_Seek 0 soBeginning b))"
  have "stream_ok (snd (Stream_Seek 0 soBeginning b))" using assms(2) by (simp add: Stream_Seek_def stream_ok_def)
  from SetSize_ok [OF this] have c: "stream_ok c" "FSize c = n" "FPosition c = 0"
    unfolding c_def NeedSpace_def by (simp_all add: SetSize_def Stream_Seek_def)
  have data: "length data \<le> n" by (simp add: data_def)
  define m where "m = data @ drop (length data) (FMemory c)"
  have m: "memwrite 0 data (FMemory c) = Inr m" "length m = FCapacity c"
    using memwrite_simp [of 0 data "FMemory c"] c data by (auto simp: m_def stream_ok_def)
  define e where "e = (if length data \<noteq> n then SetSize dirt (length data) (c\<lparr>FMemory := m\<rparr>) else c\<lparr>FMemory := m\<rparr>)"
  have ok: "stream_ok (c\<lparr>FMemory := m\<rparr>)" using c m(2) by (simp add: stream_ok_def)
  have "FPosition e = 0" using c by (simp add: e_def SetSize_def)
  moreover have "(if length data \<noteq> n then SetSize dirt (FSize (c\<lparr>FMemory := m\<rparr>) - n + length data) (c\<lparr>FMemory := m\<rparr>)
      else c\<lparr>FMemory := m\<rparr>) = e"
    using c(2) by (simp add: e_def)
  ultimately have r: "receive_at dirt n data c = Inr (e\<lparr>FPosition := int (length data)\<rparr>)"
    using c m(1) by (simp only: receive_at_def ProcessRead_def) (simp add: Stream_Seek_def Let_def)
  have "content e = data" "FSize e = length data" "stream_ok e"
    using SetSize_content [OF ok, of dirt "length data"] SetSize_ok [OF ok] ok c data
      length_content [OF SetSize_ok [OF ok, of dirt "length data"]]
    by (auto simp: e_def content_def m_def)
  then show ?thesis
    using s' r by (auto simp: LoadStream_def ReadStream_def c_def [symmetric] data_def [symmetric] stream_ok_def content_def Let_def)
qed

end

text \<open>The bytes of a file in memory are a stream as well.\<close>

definition bytes_read :: "nat \<Rightarrow> u8 list \<Rightarrow> (u8 list \<times> u8 list) res" where
  "bytes_read n bs = Inr (take n bs, drop n bs)"

interpretation bytes: byte_source bytes_read "\<lambda>_. True" "\<lambda>bs. bs"
  by unfold_locales (simp add: bytes_read_def)

text \<open>A file is converted block by block in one buffer, with the token passed on.\<close>

fun convert_blocks ::
  "(nat \<Rightarrow> u8) \<Rightarrow> TEOLType \<Rightarrow> TEOLType \<Rightarrow> bool \<Rightarrow> u8 list list \<Rightarrow> TFileBuffer \<Rightarrow> u8 list res" where
  "convert_blocks dirt source dest token [] b = Inr []"
| "convert_blocks dirt source dest token (block # blocks) b =
     rbind (LoadStream dirt bytes_read (length block) False block b) (\<lambda>(_, _, b).
     rbind (Convert dirt source dest False False token b) (\<lambda>(b, token).
     rbind (convert_blocks dirt source dest token blocks b) (\<lambda>out. Inr (content b @ out))))"

primrec converted_blocks :: "TEOLType \<Rightarrow> TEOLType \<Rightarrow> bool \<Rightarrow> u8 list list \<Rightarrow> u8 list" where
  "converted_blocks source dest token [] = []"
| "converted_blocks source dest token (block # blocks) =
     (case converted source dest False False token block of
        (out, token) \<Rightarrow> out @ converted_blocks source dest token blocks)"

lemma convert_blocks_spec:
  "stream_ok b \<Longrightarrow> convert_blocks dirt source dest token blocks b = Inr (converted_blocks source dest token blocks)"
proof (induction blocks arbitrary: token b)
  case (Cons block blocks)
  obtain b2 s where b2: "LoadStream dirt bytes_read (length block) False block b = Inr (length block, s, b2)"
      "stream_ok b2" "content b2 = block"
    using bytes.LoadStream_next [of b False "length block" block dirt] Cons.prems by auto
  obtain out t where o: "converted source dest False False token block = (out, t)" by fastforce
  then obtain b3 where "Convert dirt source dest False False token b2 = Inr (b3, t)" "stream_ok b3" "content b3 = out"
    using Convert_spec [OF b2(2), of dirt source dest False False token] b2(3) by auto
  then show ?case using b2(1) o Cons.IH by simp
qed simp

section \<open>What the conversion computes\<close>

text \<open>
  The meaning of a text with line feeds turned into one with pairs: a pair stays, any other line feed
  becomes one.
\<close>

fun to_crlf :: "u8 list \<Rightarrow> u8 list" where
  "to_crlf [] = []"
| "to_crlf [b] = (if b = LF then [CR, LF] else [b])"
| "to_crlf (b # c # rest) =
     (if b = CR \<and> c = LF then CR # LF # to_crlf rest
      else if b = LF then CR # LF # to_crlf (c # rest)
      else b # to_crlf (c # rest))"

fun to_lf :: "u8 list \<Rightarrow> u8 list" where
  "to_lf [] = []"
| "to_lf [b] = [b]"
| "to_lf (b # c # rest) = (if b = CR \<and> c = LF then LF # to_lf rest else b # to_lf (c # rest))"

text \<open>The one thing that goes beyond it: a carriage return at the end of a block is completed.\<close>

abbreviation ends_cr :: "u8 list \<Rightarrow> bool" where
  "ends_cr xs \<equiv> xs \<noteq> [] \<and> last xs = CR"

lemma convert_one_crlf:
  "convert_one LF (CR, LF) False t xs = (to_crlf xs @ (if ends_cr xs then [LF] else []), ends_cr xs)"
proof (induction xs rule: to_crlf.induct)
  case (3 b c rest)
  consider "b = CR \<and> c = LF" | "b = LF" | "\<not> (b = CR \<and> c = LF)" "b \<noteq> LF" by blast
  then show ?case
  proof cases
    case 1
    then show ?thesis using "3.IH"(1) by (simp add: convert_one.simps(2) [of _ _ _ _ CR])
  next
    case 2
    then show ?thesis using "3.IH"(2) by (simp add: convert_one.simps(2) [of _ _ _ _ LF])
  next
    case 3
    then show ?thesis using "3.IH"(3) by (auto simp: convert_one.simps(2) [of _ _ _ _ b])
  qed
qed (simp_all add: convert_one.simps(2))

lemma convert_one_first: "convert_one s d True False xs = convert_one s d False False xs"
  by (cases xs) (simp_all add: convert_one.simps(2))

lemma convert_one_completed:
  "r = [] \<or> hd r \<noteq> LF \<Longrightarrow> convert_one LF (CR, LF) True True (LF # r) = convert_one LF (CR, LF) False True r"
  by (cases r) (simp_all add: convert_one.simps(2))

lemma to_crlf_append:
  "\<not> ends_cr xs \<or> ys = [] \<or> hd ys \<noteq> LF \<Longrightarrow> to_crlf (xs @ ys) = to_crlf xs @ to_crlf ys"
proof (induction xs rule: to_crlf.induct)
  case (2 b)
  then show ?case by (cases ys) auto
qed (auto split: if_splits)

lemma to_crlf_pair: "to_crlf (xs @ CR # LF # ys) = to_crlf xs @ CR # LF # to_crlf ys"
  using to_crlf_append [of xs "CR # LF # ys"] by simp

text \<open>
  The blocks of a file for which the completion is right: behind a block that ends with a carriage
  return comes one line feed.
\<close>

fun pairs_kept :: "bool \<Rightarrow> u8 list list \<Rightarrow> bool" where
  "pairs_kept ended [] = (\<not> ended)"
| "pairs_kept ended (block # blocks) \<longleftrightarrow>
     (ended \<longrightarrow> block \<noteq> [] \<and> hd block = LF \<and> (tl block = [] \<or> hd (tl block) \<noteq> LF)) \<and> pairs_kept (ends_cr block) blocks"

lemma converted_LF_CRLF: "converted eolLF eolCRLF False False t xs = convert_one LF (CR, LF) True t xs"
  by (simp add: converted_def marks_removed_def)

lemma converted_blocks_crlf:
  "pairs_kept ended blocks \<Longrightarrow>
   (if ended then CR # LF # converted_blocks eolLF eolCRLF True blocks = to_crlf (CR # concat blocks)
    else converted_blocks eolLF eolCRLF False blocks = to_crlf (concat blocks))"
proof (induction blocks arbitrary: ended)
  case (Cons block blocks)
  note IH = Cons.IH [of "ends_cr block"]
  have step: "to_crlf xs @ (if ends_cr xs then [LF] else []) @ converted_blocks eolLF eolCRLF (ends_cr xs) blocks =
      to_crlf (xs @ concat blocks)"
    if "ends_cr xs = ends_cr block" for xs
  proof (cases "ends_cr xs")
    case True
    then obtain ys where ys: "xs = ys @ [CR]" by (metis append_butlast_last_id)
    have "CR # LF # converted_blocks eolLF eolCRLF True blocks = to_crlf (CR # concat blocks)"
      using IH Cons.prems True that by simp
    then have "to_crlf ys @ CR # LF # converted_blocks eolLF eolCRLF True blocks = to_crlf (ys @ CR # concat blocks)"
      using to_crlf_append [of ys "CR # concat blocks"] by simp
    then show ?thesis using True ys to_crlf_append [of ys "[CR]"] by simp
  next
    case False
    then have "converted_blocks eolLF eolCRLF False blocks = to_crlf (concat blocks)" using IH Cons.prems that by simp
    then show ?thesis using False to_crlf_append [of xs "concat blocks"] by (cases "xs = []") simp_all
  qed
  show ?case
  proof (cases ended)
    case True
    then obtain r where r: "block = LF # r" "r = [] \<or> hd r \<noteq> LF" using Cons.prems by (cases block) auto
    have e: "ends_cr r = ends_cr block" using r by simp
    have "converted_blocks eolLF eolCRLF True (block # blocks) =
        to_crlf r @ (if ends_cr r then [LF] else []) @ converted_blocks eolLF eolCRLF (ends_cr r) blocks"
      using r by (simp add: converted_LF_CRLF convert_one_completed convert_one_crlf)
    then show ?thesis using step [OF e] True r by simp
  next
    case False
    have "converted_blocks eolLF eolCRLF False (block # blocks) =
        to_crlf block @ (if ends_cr block then [LF] else []) @ converted_blocks eolLF eolCRLF (ends_cr block) blocks"
      by (simp add: converted_LF_CRLF convert_one_first convert_one_crlf)
    then show ?thesis using step [OF refl] False by simp
  qed
qed simp

section \<open>The way back\<close>

text \<open>A text in which every carriage return belongs to a pair.\<close>

fun paired :: "u8 list \<Rightarrow> bool" where
  "paired [] = True"
| "paired [b] = (b \<noteq> CR)"
| "paired (b # c # rest) = (if b = CR then c = LF \<and> paired rest else paired (c # rest))"

lemma convert_two_lf:
  "convert_two (CR, LF) (LF, 0) xs = to_lf (if ends_cr xs then butlast xs else xs)"
proof (induction xs rule: to_lf.induct)
  case (3 b c rest)
  show ?case
  proof (cases "b = CR \<and> c = LF")
    case True
    then show ?thesis using "3.IH"(1) by simp
  next
    case False
    then show ?thesis using "3.IH"(2) by (cases rest) auto
  qed
qed simp_all

lemma to_lf_append: "\<not> ends_cr xs \<Longrightarrow> to_lf (xs @ ys) = to_lf xs @ to_lf ys"
proof (induction xs rule: to_lf.induct)
  case (2 b)
  then show ?case by (cases ys) auto
qed (auto split: if_splits)

lemma paired_append: "paired (xs @ ys) \<Longrightarrow> \<not> ends_cr xs \<Longrightarrow> paired ys"
proof (induction xs rule: paired.induct)
  case (2 b)
  then show ?case by (cases ys) auto
qed (auto split: if_splits)

lemma paired_split: "paired (xs @ CR # ys) \<Longrightarrow> \<not> ends_cr xs \<and> ys \<noteq> [] \<and> hd ys = LF \<and> paired (tl ys)"
proof (induction xs rule: paired.induct)
  case 1
  then show ?case by (cases ys) auto
next
  case (2 b)
  then show ?case by (cases ys) (auto split: if_splits)
qed (auto split: if_splits)

lemma converted_CRLF_LF: "converted eolCRLF eolLF False False t xs = (convert_two (CR, LF) (LF, 0) xs, t)"
  by (simp add: converted_def marks_removed_def)

lemma converted_blocks_lf:
  "paired (concat blocks) \<Longrightarrow> [] \<notin> set blocks \<Longrightarrow> converted_blocks eolCRLF eolLF t blocks = to_lf (concat blocks)"
proof (induction blocks)
  case (Cons block blocks)
  show ?case
  proof (cases "ends_cr block")
    case True
    then obtain xs where xs: "block = xs @ [CR]" by (metis append_butlast_last_id)
    then have p: "\<not> ends_cr xs" "concat blocks \<noteq> []" "hd (concat blocks) = LF" "paired (tl (concat blocks))"
      using paired_split [of xs "concat blocks"] Cons.prems(1) by auto
    obtain ys where ys: "concat blocks = LF # ys" "paired ys" using p(2-4) by (cases "concat blocks") auto
    then have "paired (concat blocks)" by (cases ys) auto
    then have "converted_blocks eolCRLF eolLF t blocks = to_lf (concat blocks)" using Cons by simp
    also have "\<dots> = LF # to_lf ys" using ys by (cases ys) auto
    finally show ?thesis
      using xs ys p(1) to_lf_append [of xs "CR # LF # ys"] by (simp add: converted_CRLF_LF convert_two_lf)
  next
    case False
    then have "converted_blocks eolCRLF eolLF t blocks = to_lf (concat blocks)"
      using Cons paired_append [of block "concat blocks"] by simp
    then show ?thesis
      using False to_lf_append [of block "concat blocks"]
      by (cases "block = []") (simp_all add: converted_CRLF_LF convert_two_lf)
  qed
qed simp

lemma to_crlf_no_cr: "CR \<notin> set xs \<Longrightarrow> paired (to_crlf xs) \<and> to_lf (to_crlf xs) = xs"
proof (induction xs rule: to_crlf.induct)
  case (3 b c rest)
  then have ih: "paired (to_crlf (c # rest))" "to_lf (to_crlf (c # rest)) = c # rest" and b: "b \<noteq> CR" by auto
  obtain x xs where x: "to_crlf (c # rest) = x # xs" by (cases "to_crlf (c # rest)") (cases rest; auto split: if_splits)
  show ?case using ih b unfolding to_crlf.simps(3) x by auto
qed (auto split: if_splits)

lemma pairs_kept_no_cr: "CR \<notin> set (concat blocks) \<Longrightarrow> pairs_kept False blocks"
proof (induction blocks)
  case (Cons block blocks)
  then have "CR \<notin> set block" by simp
  then have "ends_cr block = False" using last_in_set by metis
  moreover have "pairs_kept False blocks" using Cons by simp
  ultimately show ?case by (cases "block = []") simp_all
qed simp

section \<open>Properties\<close>

text \<open>C24: Text transfer turns line feeds into pairs of carriage return and line feed as if the file were
  converted in one piece, although it is converted block by block, in place in one buffer: pairs that
  are cut by the end of a block are neither lost nor doubled, and no access leaves the memory of the
  buffer. This holds as long as a block that ends with a carriage return is followed by one that
  starts with a single line feed.\<close>

theorem text_upload_independent_of_blocks:
  assumes "stream_ok b" "pairs_kept False blocks"
  shows "convert_blocks dirt eolLF eolCRLF False blocks b = Inr (to_crlf (concat blocks))"
  using convert_blocks_spec [OF assms(1)] converted_blocks_crlf [OF assms(2)] by simp

theorem text_upload_independent_of_blocks_witness:
  "convert_blocks (\<lambda>_. 7) eolLF eolCRLF False [[65, LF, 66, CR], [LF, 67, LF], [68]] new_TMemoryStream =
     Inr [65, CR, LF, 66, CR, LF, 67, CR, LF, 68]"
  using text_upload_independent_of_blocks [of new_TMemoryStream "[[65, LF, 66, CR], [LF, 67, LF], [68]]" "\<lambda>_. 7"]
  by (simp add: stream_ok_def new_TMemoryStream_def)

text \<open>C26: Without this condition text is lost. When a block ends with a carriage return and the next one
  starts with its line feed and empty lines, the deletion of the line feed does not move on, and the
  line feeds of the empty lines are deleted as well.\<close>

theorem text_upload_loses_empty_lines:
  "convert_blocks dirt eolLF eolCRLF False [[65, CR], LF # replicate n LF @ [66]] new_TMemoryStream = Inr [65, CR, LF, 66] \<and>
   to_crlf (concat [[65, CR], LF # replicate n LF @ [66]]) = [65, CR, LF] @ concat (replicate n [CR, LF]) @ [66]"
proof -
  have "convert_one LF (CR, LF) True True (replicate n LF @ [66]) = ([66], False)"
    by (induction n) (simp_all add: convert_one.simps(2))
  moreover have "to_crlf (replicate n LF @ [66]) = concat (replicate n [CR, LF]) @ [66]"
  proof (induction n)
    case (Suc n)
    obtain x xs where x: "replicate n LF @ [66] = x # xs" by (cases "replicate n LF @ [66]") auto
    then have "to_crlf (replicate (Suc n) LF @ [66]) = CR # LF # to_crlf (x # xs)" by simp
    then show ?case using Suc x by simp
  qed simp
  moreover have "to_crlf (65 # CR # LF # ys) = 65 # CR # LF # to_crlf ys" for ys by simp
  moreover have ok: "stream_ok new_TMemoryStream" by (simp add: stream_ok_def new_TMemoryStream_def)
  ultimately show ?thesis unfolding convert_blocks_spec [OF ok] by (simp add: converted_LF_CRLF convert_one.simps(2))
qed



text \<open>The marks of a text file, the byte order mark at its start and the control character at its
  end, are looked for in every block. With the options to remove them on, three bytes at the start
  and one at the end of a block in the middle of a file are deleted, when they happen to have these
  values.\<close>

lemma marks_removed_in_every_block:
  assumes "stream_ok b" "content b = [0xEF, 0xBB, 0xBF] @ text @ [0x1A]"
  shows "\<exists>b'. Convert dirt e e True True token b = Inr (b', token) \<and> content b' = text"
  using Convert_spec [OF assms(1), of dirt e e True True token] assms(2)
  by (auto simp: converted_def marks_removed_def)

lemma marks_removed_in_every_block_witness:
  "\<exists>b'. Convert (\<lambda>_. 7) eolLF eolLF True True False
     \<lparr>FMemory = [0xEF, 0xBB, 0xBF, 65, 0x1A], FSize = 5, FPosition = 0\<rparr> = Inr (b', False) \<and> content b' = [65]"
  by (rule marks_removed_in_every_block) (simp_all add: stream_ok_def content_def)

end
