(* ===== verification/Masks.thy ===== *)
theory Masks
  imports UnixPath
begin

text \<open>
  Matching of names against wildcards: \<open>CmpName\<close> of \<open>src/base/Masks.cpp\<close>. The conversion to upper case
  (\<open>CharUpperBuff\<close>) and the comparison without case (\<open>CompareString\<close>) are functions of the operating
  system and parameters, \<open>up\<close> and \<open>eqi\<close>. Strings end at a zero character, so they contain none; a
  character is compared by its code.
\<close>

abbreviation (input) NUL :: char where "NUL \<equiv> CHR 0x00"

definition code :: "char \<Rightarrow> nat" where
  "code c = of_char c"

text \<open>The character a pointer shows, with the terminator.\<close>

definition peek :: "ustring \<Rightarrow> char" where
  "peek s = (case s of [] \<Rightarrow> NUL | c # _ \<Rightarrow> c)"

text \<open>The loop over the characters of a class; \<open>prev\<close> is the character in front of the next one.\<close>

fun class_loop :: "(char \<Rightarrow> char) \<Rightarrow> char \<Rightarrow> char \<Rightarrow> ustring \<Rightarrow> bool \<Rightarrow> ustring option" where
  "class_loop up stringc prev [] m = None"
| "class_loop up stringc prev (c # p) m =
     (if up c = CHR '']'' then (if m then Some p else None)
      else if m then class_loop up stringc c p m
      else if up c = CHR ''-'' \<and> prev \<noteq> CHR ''['' \<and> peek p \<noteq> CHR '']'' then
        (case p of
           [] \<Rightarrow> None
         | h # p \<Rightarrow> class_loop up stringc h p (code stringc \<le> code (up h) \<and> code (up prev) \<le> code stringc))
      else class_loop up stringc c p (stringc = up c))"

lemma class_loop_length: "class_loop up sc prev p m = Some p' \<Longrightarrow> length p' < length p"
proof (induction up sc prev p m rule: class_loop.induct)
  case (2 up stringc prev c p m)
  then show ?case by (fastforce split: if_splits list.splits)
qed simp

primrec tails :: "ustring \<Rightarrow> ustring list" where
  "tails [] = [[]]"
| "tails (c # s) = (c # s) # tails s"

definition has_any :: "ustring \<Rightarrow> ustring \<Rightarrow> bool" where
  "has_any cs s \<longleftrightarrow> list_ex (\<lambda>c. c \<in> set cs) s"

definition last_dot :: "ustring \<Rightarrow> ustring option" where
  "last_dot s = (if CHR ''.'' \<in> set s
     then Some (CHR ''.'' # rev (takeWhile (\<lambda>c. c \<noteq> CHR ''.'') (rev s))) else None)"

text \<open>
  The shortcuts for an asterisk that is followed by a dot; \<open>None\<close> when none applies. \<open>p\<close> starts with
  the dot.
\<close>

definition star_dot :: "(ustring \<Rightarrow> ustring \<Rightarrow> bool) \<Rightarrow> ustring \<Rightarrow> ustring \<Rightarrow> bool option" where
  "star_dot eqi p s =
     (if tl p = ''*'' then Some True
      else if has_any ''*?['' p then None
      else if tl p = [] then Some (last_dot s = None \<or> last_dot s = Some ''.'')
      else case last_dot s of
             None \<Rightarrow> if CHR ''.'' \<in> set (tl p) then Some False else None
           | Some dot \<Rightarrow> if CHR ''.'' \<in> set (tl p) then None else Some (eqi (tl p) (tl dot)))"

function CmpName :: "(char \<Rightarrow> char) \<Rightarrow> (ustring \<Rightarrow> ustring \<Rightarrow> bool) \<Rightarrow> bool \<Rightarrow> ustring \<Rightarrow> ustring \<Rightarrow> bool" where
  "CmpName up eqi searchMode [] s = (s = [])"
| "CmpName up eqi searchMode (c # p) s =
     (let patternc = up c; stringc = up (peek s)
      in if patternc = CHR ''?'' then s \<noteq> [] \<and> CmpName up eqi searchMode p (tl s)
         else if patternc = CHR ''*'' then
           (if p = [] then True
            else case (if hd p = CHR ''.'' then star_dot eqi p s else None) of
                   Some result \<Rightarrow> result
                 | None \<Rightarrow> list_ex (\<lambda>t. CmpName up eqi searchMode p t) (tails s))
         else if patternc = CHR ''['' then
           (if CHR '']'' \<notin> set p then patternc = stringc \<and> CmpName up eqi searchMode p (tl s)
            else if p \<noteq> [] \<and> peek (tl p) = CHR '']'' then
              hd p = peek s \<and> CmpName up eqi searchMode (drop 2 p) (tl s)
            else case class_loop up stringc (CHR ''['') p False of
                   None \<Rightarrow> False
                 | Some p' \<Rightarrow> CmpName up eqi searchMode p' (tl s))
         else if patternc = stringc then CmpName up eqi searchMode p (tl s)
         else patternc = CHR ''.'' \<and> stringc = NUL \<and> \<not> searchMode \<and>
              peek p \<noteq> CHR ''.'' \<and> CmpName up eqi searchMode p s)"
  by pat_completeness auto
termination
  by (relation "measure (\<lambda>(_, _, _, p, _). length p)") (auto dest: class_loop_length)

declare CmpName.simps(2) [simp del]

definition Mask_Matches :: "(char \<Rightarrow> char) \<Rightarrow> (ustring \<Rightarrow> ustring \<Rightarrow> bool) \<Rightarrow> ustring \<Rightarrow> ustring \<Rightarrow> bool" where
  "Mask_Matches up eqi pattern s = CmpName up eqi False pattern s"

section \<open>What wildcards mean\<close>

text \<open>
  What the conversion to upper case has to respect: it keeps the terminator and the characters with a
  meaning in patterns apart from all others, and the comparison agrees with it.
\<close>

definition case_mapping :: "(char \<Rightarrow> char) \<Rightarrow> (ustring \<Rightarrow> ustring \<Rightarrow> bool) \<Rightarrow> bool" where
  "case_mapping up eqi \<longleftrightarrow>
     (\<forall>c \<in> set (NUL # ''*?[.''). \<forall>d. up d = c \<longleftrightarrow> d = c) \<and>
     (\<forall>a b. eqi a b \<longleftrightarrow> map up a = map up b)"

lemma case_mappingD:
  assumes "case_mapping up eqi"
  shows "up d = NUL \<longleftrightarrow> d = NUL" "up d = CHR ''*'' \<longleftrightarrow> d = CHR ''*''" "up d = CHR ''?'' \<longleftrightarrow> d = CHR ''?''"
    "up d = CHR ''['' \<longleftrightarrow> d = CHR ''[''" "up d = CHR ''.'' \<longleftrightarrow> d = CHR ''.''"
  using assms by (simp_all add: case_mapping_def)

lemma case_mapping_eqi: "case_mapping up eqi \<Longrightarrow> eqi a b \<longleftrightarrow> map up a = map up b"
  by (simp add: case_mapping_def)

text \<open>The set of names a pattern of literal characters, question marks and asterisks stands for.\<close>

fun names :: "(char \<Rightarrow> char) \<Rightarrow> ustring \<Rightarrow> ustring set" where
  "names up [] = {[]}"
| "names up (c # p) =
     (if c = CHR ''*'' then {u @ v | u v. v \<in> names up p}
      else if c = CHR ''?'' then {d # v | d v. v \<in> names up p}
      else {d # v | d v. up d = up c \<and> v \<in> names up p})"

lemma set_tails: "t \<in> set (tails s) \<longleftrightarrow> (\<exists>u. s = u @ t)"
proof (induction s)
  case (Cons c s)
  then show ?case by (auto simp: Cons_eq_append_conv)
qed auto

lemma CmpName_literal:
  assumes "case_mapping up eqi" "c \<notin> set (NUL # ''*?[.'')" "NUL \<notin> set s"
  shows "CmpName up eqi m (c # p) s \<longleftrightarrow> (\<exists>d t. s = d # t \<and> up d = up c \<and> CmpName up eqi m p t)"
  using assms case_mappingD [OF assms(1), where d = c] case_mappingD(1) [OF assms(1), of NUL]
  by (cases s) (auto simp: CmpName.simps(2) peek_def Let_def)

lemma CmpName_dot:
  assumes "case_mapping up eqi" "p \<noteq> []" "hd p \<notin> set (NUL # ''*?[.'')" "NUL \<notin> set s"
  shows "CmpName up eqi m (CHR ''.'' # p) s \<longleftrightarrow> (\<exists>t. s = CHR ''.'' # t \<and> CmpName up eqi m p t)"
proof (cases s)
  case Nil
  have "\<not> CmpName up eqi m p []" using CmpName_literal [OF assms(1,3), of "[]" m "tl p"] assms(2) by simp
  moreover have "up (CHR ''.'') = CHR ''.''" "up NUL = NUL"
    using case_mappingD(1) [OF assms(1), of NUL] case_mappingD(5) [OF assms(1), of "CHR ''.''"] by simp_all
  ultimately show ?thesis using Nil by (simp add: CmpName.simps(2) [of _ _ _ "CHR ''.''"] peek_def Let_def)
next
  case (Cons d t)
  have "up (CHR ''.'') = CHR ''.''" "d \<noteq> NUL" "up d = NUL \<longleftrightarrow> d = NUL" "up d = CHR ''.'' \<longleftrightarrow> d = CHR ''.''"
    using case_mappingD(5) [OF assms(1), of "CHR ''.''"] case_mappingD(1,5) [OF assms(1), of d] assms(4) Cons by auto
  then show ?thesis
    using Cons by (auto simp: CmpName.simps(2) [of _ _ _ "CHR ''.''"] peek_def Let_def)
qed

lemma CmpName_literals:
  assumes "case_mapping up eqi" "NUL \<notin> set s" "set p \<inter> set (NUL # ''*?[.'') = {}"
  shows "CmpName up eqi m p s \<longleftrightarrow> map up s = map up p"
  using assms(2,3)
proof (induction p arbitrary: s)
  case (Cons c p)
  then have "CmpName up eqi m (c # p) s \<longleftrightarrow> (\<exists>d t. s = d # t \<and> up d = up c \<and> CmpName up eqi m p t)"
    by (intro CmpName_literal [OF assms(1)]) auto
  then show ?case using Cons by (cases s) simp_all
qed simp

lemma last_dot_Some: "last_dot s = Some d \<longleftrightarrow> (\<exists>u e. s = u @ CHR ''.'' # e \<and> CHR ''.'' \<notin> set e \<and> d = CHR ''.'' # e)"
proof
  assume l: "last_dot s = Some d"
  then have "CHR ''.'' \<in> set s" by (simp add: last_dot_def split: if_splits)
  then obtain u e where s: "s = u @ CHR ''.'' # e" "CHR ''.'' \<notin> set e" by (metis split_list_last)
  then have "takeWhile (\<lambda>c. c \<noteq> CHR ''.'') (rev s) = rev e" by (subst s) (auto simp: takeWhile_append)
  then show "\<exists>u e. s = u @ CHR ''.'' # e \<and> CHR ''.'' \<notin> set e \<and> d = CHR ''.'' # e"
    using l s by (auto simp: last_dot_def split: if_splits)
qed (auto simp: last_dot_def takeWhile_append)

lemma last_dot_None: "last_dot s = None \<longleftrightarrow> CHR ''.'' \<notin> set s"
  by (simp add: last_dot_def)

text \<open>The shortcut for a mask \<open>*.ext\<close>, and the search it replaces.\<close>

definition plain_ext :: "ustring \<Rightarrow> bool" where
  "plain_ext ext \<longleftrightarrow> ext \<noteq> [] \<and> list_all (\<lambda>c. c \<noteq> NUL \<and> c \<noteq> CHR ''*'' \<and> c \<noteq> CHR ''?'' \<and> c \<noteq> CHR ''['' \<and> c \<noteq> CHR ''.'') ext"

lemma plain_ext_wild: "plain_ext ext \<Longrightarrow> \<not> has_any ''*?['' (CHR ''.'' # ext)"
  by (auto simp: plain_ext_def has_any_def list_all_iff list_ex_iff)

lemma plain_ext_dot: "plain_ext ext \<Longrightarrow> CHR ''.'' \<notin> set ext"
  by (auto simp: plain_ext_def list_all_iff)

lemma plain_ext_star: "plain_ext ext \<Longrightarrow> ext \<noteq> ''*''"
  by (auto simp: plain_ext_def)

lemma plain_ext_hd: "plain_ext ext \<Longrightarrow> hd ext \<notin> set (NUL # ''*?[.'')"
  by (cases ext) (auto simp: plain_ext_def)

lemma same_ext_dot:
  assumes "case_mapping up eqi" "plain_ext ext" "map up e = map up ext"
  shows "CHR ''.'' \<notin> set e"
proof
  assume "CHR ''.'' \<in> set e"
  then have "up (CHR ''.'') \<in> set (map up e)" by simp
  then obtain c where c: "c \<in> set ext" "up c = up (CHR ''.'')" unfolding assms(3) by auto
  have "up (CHR ''.'') = CHR ''.''" using case_mappingD(5) [OF assms(1), of "CHR ''.''"] by simp
  then have "c = CHR ''.''" using c(2) case_mappingD(5) [OF assms(1), of c] by simp
  then show False using c(1) plain_ext_dot [OF assms(2)] by simp
qed

lemma star_dot_ext:
  assumes "plain_ext ext"
  shows "star_dot eqi (CHR ''.'' # ext) s =
    (case last_dot s of None \<Rightarrow> None | Some dot \<Rightarrow> Some (eqi ext (tl dot)))"
  using plain_ext_wild [OF assms] plain_ext_dot [OF assms] plain_ext_star [OF assms] assms
  by (cases "last_dot s") (simp_all add: star_dot_def plain_ext_def)

lemma CmpName_star_ext:
  assumes "case_mapping up eqi" "plain_ext ext"
  shows "CmpName up eqi m (CHR ''*'' # CHR ''.'' # ext) s \<longleftrightarrow>
    (case last_dot s of
       None \<Rightarrow> list_ex (\<lambda>t. CmpName up eqi m (CHR ''.'' # ext) t) (tails s)
     | Some dot \<Rightarrow> map up ext = map up (tl dot))"
proof -
  have "up (CHR ''*'') = CHR ''*''" using case_mappingD(2) [OF assms(1), of "CHR ''*''"] by simp
  then show ?thesis
    unfolding CmpName.simps(2) [of _ _ _ "CHR ''*''"] Let_def star_dot_ext [OF assms(2)]
    by (cases "last_dot s") (simp_all add: case_mapping_eqi [OF assms(1)])
qed

lemma no_dot_no_ext:
  assumes "case_mapping up eqi" "plain_ext ext" "NUL \<notin> set s" "CHR ''.'' \<notin> set s"
  shows "\<not> list_ex (\<lambda>t. CmpName up eqi m (CHR ''.'' # ext) t) (tails s)"
proof
  assume "list_ex (\<lambda>t. CmpName up eqi m (CHR ''.'' # ext) t) (tails s)"
  then obtain t where "t \<in> set (tails s)" "CmpName up eqi m (CHR ''.'' # ext) t" unfolding list_ex_iff by blast
  then obtain u where t: "s = u @ t" "CmpName up eqi m (CHR ''.'' # ext) t" unfolding set_tails by blast
  have "ext \<noteq> []" using assms(2) by (simp add: plain_ext_def)
  moreover have "NUL \<notin> set t" using assms(3) t(1) by simp
  ultimately obtain v where "t = CHR ''.'' # v"
    using t(2) CmpName_dot [OF assms(1) _ plain_ext_hd [OF assms(2)], of t m] by blast
  then show False using assms(4) t(1) by simp
qed

lemma last_dot_ext:
  assumes "last_dot s = Some dot" "CHR ''.'' \<notin> set e"
  shows "(\<exists>n. s = n @ CHR ''.'' # e) \<longleftrightarrow> tl dot = e"
proof -
  obtain u d where s: "s = u @ CHR ''.'' # d" "CHR ''.'' \<notin> set d" "dot = CHR ''.'' # d"
    using assms(1) unfolding last_dot_Some by blast
  have "e = d" if "s = n @ CHR ''.'' # e" for n
    using last_split_unique [of n "CHR ''.''" e u d] that s(1,2) assms(2) by simp
  then show ?thesis using s(1,3) by auto
qed

section \<open>Properties\<close>


definition ascii_up :: "char \<Rightarrow> char" where
  "ascii_up c = (if 97 \<le> code c \<and> code c \<le> 122 then char_of (code c - 32) else c)"

lemma case_mapping_ascii: "case_mapping ascii_up (\<lambda>a b. map ascii_up a = map ascii_up b)"
proof -
  have low: "code (ascii_up d) \<in> {65..90}" if "97 \<le> code d" "code d \<le> 122" for d
    using that by (simp add: ascii_up_def code_def) linarith
  have "ascii_up d = c \<longleftrightarrow> d = c" if "c \<in> set (NUL # ''*?[.'')" for c d
  proof (cases "97 \<le> code d \<and> code d \<le> 122")
    case True
    then have "code (ascii_up d) \<in> {65..90}" using low by blast
    moreover have "code c \<notin> {65..90}" "code c \<notin> {97..122}" using that by (auto simp: code_def)
    ultimately show ?thesis using True by auto
  qed (auto simp: ascii_up_def)
  then show ?thesis by (simp add: case_mapping_def)
qed




end
