(* ===== verification/FileMasks.thy ===== *)
theory FileMasks
  imports Masks
begin

text \<open>
  File masks of transfers, \<open>src/core/FileMasks.cpp\<close>: masks for new names (\<open>MaskFileName\<close>) and the class
  \<open>TFileMasks\<close>, a list of masks that include and exclude files and directories, with bounds for size
  and time. The functions of \<open>src/base/Common.cpp\<close> and \<open>src/base/Sysutils.cpp\<close> they are built from come
  first. The case conversion \<open>up\<close> and the comparison \<open>eqi\<close> of the operating system are parameters as for
  a single wildcard. \<open>rel\<close> stands for \<open>TryRelativeStrToDateTime\<close>, which reads the clock; times are
  numbers on the scale of \<open>TDateTime\<close>, of which only the order is used.
\<close>

section \<open>Trimming, copying and numbers\<close>

definition TrimLeft :: "ustring \<Rightarrow> ustring" where
  "TrimLeft s = dropWhile (\<lambda>c. c = CHR '' '') s"

definition TrimRight :: "ustring \<Rightarrow> ustring" where
  "TrimRight s = rev (dropWhile (\<lambda>c. c = CHR '' '' \<or> c = CHR 0x0A \<or> c = CHR 0x0D \<or> c = NUL) (rev s))"

definition Trim :: "ustring \<Rightarrow> ustring" where
  "Trim s = TrimRight (TrimLeft s)"

text \<open>
  \<open>CopyToChars\<close>: the loop runs over the rest of the string behind \<open>From\<close>; \<open>p\<close> is the position of its
  first character. It returns the copy, the delimiter (zero at the end) and the position of it.
\<close>

fun copy_loop :: "ustring \<Rightarrow> bool \<Rightarrow> ustring \<Rightarrow> nat \<Rightarrow> ustring \<times> char \<times> nat" where
  "copy_loop chs escapes [] p = ([], NUL, p)"
| "copy_loop chs escapes (c # s) p =
     (if c \<in> set chs then
        (if escapes \<and> s \<noteq> [] \<and> hd s \<in> set chs \<and> hd s = c then
           (case copy_loop chs escapes (tl s) (p + 2) of (result, delimiter, p') \<Rightarrow> (c # result, delimiter, p'))
         else ([], c, p))
      else (case copy_loop chs escapes s (p + 1) of (result, delimiter, p') \<Rightarrow> (c # result, delimiter, p')))"

fun skip_spaces :: "ustring \<Rightarrow> nat \<Rightarrow> nat" where
  "skip_spaces [] p = p"
| "skip_spaces (c # s) p = (if c = CHR '' '' then skip_spaces s (p + 1) else p)"

definition CopyToChars :: "ustring \<Rightarrow> nat \<Rightarrow> ustring \<Rightarrow> bool \<Rightarrow> bool \<Rightarrow> ustring \<times> char \<times> nat" where
  "CopyToChars str from chs trim escapes =
     (case copy_loop chs escapes (drop (from - 1) str) from of
        (result, delimiter, p) \<Rightarrow>
          (let from = p + 1
           in if trim then (TrimRight result, delimiter, skip_spaces (drop (from - 1) str) from)
              else (result, delimiter, from)))"

definition AddToList :: "ustring \<Rightarrow> ustring \<Rightarrow> ustring \<Rightarrow> ustring" where
  "AddToList lst v delimiter =
     (if v \<noteq> [] then
        (if lst \<noteq> [] \<and> (Length lst < Length delimiter \<or>
              SubString lst (Length lst - Length delimiter + 1) (Length delimiter) \<noteq> delimiter)
         then lst @ delimiter else lst) @ v
      else lst)"

definition ToUnixPath :: "ustring \<Rightarrow> ustring" where
  "ToUnixPath path = map (\<lambda>c. if c = Backslash then Slash else c) path"

text \<open>\<open>_wtoi64\<close> of the C library reads the number at the start of a string and ignores the rest.\<close>

definition is_space :: "char \<Rightarrow> bool" where
  "is_space c \<longleftrightarrow> c \<in> set [CHR '' '', CHR 0x09, CHR 0x0A, CHR 0x0B, CHR 0x0C, CHR 0x0D]"

definition digits_value :: "ustring \<Rightarrow> int" where
  "digits_value ds = foldl (\<lambda>v c. 10 * v + (int (code c) - 48)) 0 ds"

definition wtoi64 :: "ustring \<Rightarrow> int option" where
  "wtoi64 s =
     (let s = dropWhile is_space s;
          neg = (s \<noteq> [] \<and> hd s = CHR ''-'');
          s = (if s \<noteq> [] \<and> hd s \<in> set ''+-'' then tl s else s);
          v = digits_value (takeWhile IsDigit s);
          v = (if neg then - v else v)
      in if - (2 ^ 63) \<le> v \<and> v < 2 ^ 63 then Some v else None)"

definition TryStrToInt64 :: "ustring \<Rightarrow> int option" where
  "TryStrToInt64 s =
     (if s = [] then None
      else case wtoi64 s of
             None \<Rightarrow> None
           | Some v \<Rightarrow> if v = 0 \<and> s \<noteq> ''0'' then None else Some v)"

definition wrap64 :: "int \<Rightarrow> int" where
  "wrap64 v = sint (word_of_int v :: s64)"

definition TryStrToSize :: "ustring \<Rightarrow> int option" where
  "TryStrToSize sizeStr =
     (let index = length (takeWhile IsDigit sizeStr)
      in if index > 0 then
           (case TryStrToInt64 (take index sizeStr) of
              None \<Rightarrow> None
            | Some n \<Rightarrow>
                (let rest = Trim (drop index sizeStr)
                 in if rest = [] then Some n
                    else if length rest = 1 then
                      (if hd rest \<in> set ''Gg'' then Some (wrap64 (wrap64 (wrap64 (n * 1024) * 1024) * 1024))
                       else if hd rest \<in> set ''Mm'' then Some (wrap64 (wrap64 (n * 1024) * 1024))
                       else if hd rest \<in> set ''Kk'' then Some (wrap64 (n * 1024))
                       else None)
                    else None))
         else None)"

section \<open>Masks for new names\<close>

text \<open>
  The loop of \<open>MaskFilePart\<close>: the rest of the mask, what is left of the part, and whether a backslash
  precedes. It returns the name and whether a wildcard was in effect at last.
\<close>

fun mask_loop :: "ustring \<Rightarrow> ustring \<Rightarrow> bool \<Rightarrow> bool \<Rightarrow> ustring \<times> bool" where
  "mask_loop part [] delimiter masked = ([], masked)"
| "mask_loop part (c # m) delimiter masked =
     (if c = Backslash \<and> \<not> delimiter then mask_loop part m True False
      else if c = CHR ''*'' \<and> \<not> delimiter then
        (case mask_loop [] m delimiter True of (result, masked) \<Rightarrow> (part @ result, masked))
      else if c = CHR ''?'' \<and> \<not> delimiter then
        (case mask_loop (tl part) m delimiter True of (result, masked) \<Rightarrow> (take 1 part @ result, masked))
      else (case mask_loop (tl part) m False masked of (result, masked) \<Rightarrow> (c # result, masked)))"

definition MaskFilePart :: "ustring \<Rightarrow> ustring \<Rightarrow> bool \<Rightarrow> ustring \<times> bool" where
  "MaskFilePart part m masked = mask_loop part m False masked"

definition IsEffectiveFileNameMask :: "ustring \<Rightarrow> bool" where
  "IsEffectiveFileNameMask m \<longleftrightarrow> m \<noteq> [] \<and> m \<noteq> ''*'' \<and> m \<noteq> ''*.*''"

definition MaskFileName :: "ustring \<Rightarrow> ustring \<Rightarrow> ustring" where
  "MaskFileName fileName m =
     (if IsEffectiveFileNameMask m then
        (let p = LastDelimiter ''.'' m
         in if p > 0 then
              (let p2 = LastDelimiter ''.'' fileName;
                   fileExt = (if p2 > 1 then SubString fileName (p2 + 1) (Length fileName - p2) else []);
                   (fileExt, masked) = MaskFilePart fileExt (SubString m (p + 1) (Length m - p)) False;
                   fileName = (if p2 > 1 then SetLength fileName (p2 - 1) else fileName);
                   fileName = fst (MaskFilePart fileName (SubString m 1 (p - 1)) masked)
               in if fileExt \<noteq> [] then fileName @ ''.'' @ fileExt else fileName)
            else fst (MaskFilePart fileName m False))
      else fileName)"

definition IsFileNameMask :: "ustring \<Rightarrow> bool" where
  "IsFileNameMask m = (if m = [] then True else snd (MaskFilePart [] m False))"

text \<open>\<open>wcschr\<close> finds the terminator as well.\<close>

fun DelimitFileNameMask :: "ustring \<Rightarrow> ustring" where
  "DelimitFileNameMask [] = []"
| "DelimitFileNameMask (c # m) =
     (if c \<in> {Backslash, CHR ''*'', CHR ''?'', NUL} then Backslash # c # DelimitFileNameMask m
      else c # DelimitFileNameMask m)"

section \<open>\<open>TFileMasks\<close>\<close>

datatype TKind = Any | NoExt | Regular

datatype TMaskBoundary = BNone | BOpen | BClose

record TMask =
  FileNameMaskKind :: TKind
  FileNameMask :: "ustring option"
  DirectoryMaskKind :: TKind
  RemoteDirectoryMask :: "ustring option"
  LocalDirectoryMask :: "ustring option"
  HighSizeMask :: TMaskBoundary
  HighSize :: int
  LowSizeMask :: TMaskBoundary
  LowSize :: int
  HighModificationMask :: TMaskBoundary
  HighModification :: int
  LowModificationMask :: TMaskBoundary
  LowModification :: int
  MaskStr :: ustring
  UserStr :: ustring

record TParams =
  PSize :: int
  PModification :: int

text \<open>The arrays have four elements; the strings of the masks are cached.\<close>

record TFileMasks =
  FForceDirectoryMasks :: int
  FStr :: ustring
  FNoImplicitMatchWithDirExcludeMask :: bool
  FAllDirsAreImplicitlyIncluded :: bool
  FAnyRelative :: bool
  FLocalRoot :: ustring
  FRemoteRoot :: ustring
  FMasks :: "TMask list list"
  FMasksStr :: "ustring list option list"

definition MASK_INDEX :: "bool \<Rightarrow> bool \<Rightarrow> nat" where
  "MASK_INDEX directory incl = (if directory then 2 else 0) + (if incl then 0 else 1)"

definition Masks_Init :: TFileMasks where
  "Masks_Init = \<lparr>FForceDirectoryMasks = -1, FStr = [], FNoImplicitMatchWithDirExcludeMask = False,
     FAllDirsAreImplicitlyIncluded = False, FAnyRelative = False, FLocalRoot = [], FRemoteRoot = [],
     FMasks = replicate 4 [], FMasksStr = replicate 4 None\<rparr>"

definition new_TFileMasks :: "int \<Rightarrow> TFileMasks" where
  "new_TFileMasks forceDirectoryMasks = Masks_Init\<lparr>FForceDirectoryMasks := forceDirectoryMasks\<rparr>"

definition Masks_Clear :: "TFileMasks \<Rightarrow> TFileMasks" where
  "Masks_Clear fm = fm\<lparr>FMasksStr := replicate 4 None, FMasks := replicate 4 []\<rparr>"

abbreviation (input) MaskSymbols :: ustring where "MaskSymbols \<equiv> ''?*[''"
abbreviation (input) FileMasksDelimiterStr :: ustring where "FileMasksDelimiterStr \<equiv> ''; ''"
abbreviation (input) AllFileMasksDelimiters :: ustring where "AllFileMasksDelimiters \<equiv> '';,|''"
abbreviation (input) DirectoryMaskDelimiters :: ustring where "DirectoryMaskDelimiters \<equiv> [Slash, Backslash]"

definition IsMask :: "ustring \<Rightarrow> bool" where
  "IsMask m \<longleftrightarrow> LastDelimiter MaskSymbols m > 0"

text \<open>The loop stops in front of the last character.\<close>

fun escape_loop :: "ustring \<Rightarrow> ustring" where
  "escape_loop [] = []"
| "escape_loop [c] = [c]"
| "escape_loop (c # d # s) =
     (if c \<in> set MaskSymbols then CHR ''['' # c # CHR '']'' # escape_loop (d # s) else c # escape_loop (d # s))"

definition EscapeMask :: "ustring \<Rightarrow> ustring" where
  "EscapeMask s = (if LastDelimiter MaskSymbols s > 0 then escape_loop s else s)"

definition NormalizeMask :: "ustring \<Rightarrow> ustring \<Rightarrow> ustring" where
  "NormalizeMask m anyMask = (if \<not> IsEffectiveFileNameMask m then anyMask else m)"

definition MakeDirectoryMask :: "ustring \<Rightarrow> ustring" where
  "MakeDirectoryMask str =
     (if str = [] \<or> \<not> IsDelimiter DirectoryMaskDelimiters str (Length str) then
        (let d = LastDelimiter DirectoryMaskDelimiters str
         in str @ [if d > 0 then str ! nat (d - 1) else Slash])
      else str)"

subsection \<open>Matching\<close>

definition MatchesMaskMask ::
  "(char \<Rightarrow> char) \<Rightarrow> (ustring \<Rightarrow> ustring \<Rightarrow> bool) \<Rightarrow> TKind \<Rightarrow> ustring option \<Rightarrow> ustring \<Rightarrow> bool" where
  "MatchesMaskMask up eqi maskKind maskMask str =
     (if maskKind = Any then True
      else if maskKind = NoExt \<and> Pos_str str ''.'' = 0 then True
      else case maskMask of Some m \<Rightarrow> Mask_Matches up eqi m str | None \<Rightarrow> False)"

definition bound_high :: "TMaskBoundary \<Rightarrow> int \<Rightarrow> int option \<Rightarrow> bool" where
  "bound_high b limit v =
     (case b of
        BNone \<Rightarrow> True
      | BOpen \<Rightarrow> (case v of Some x \<Rightarrow> x < limit | None \<Rightarrow> False)
      | BClose \<Rightarrow> (case v of Some x \<Rightarrow> x \<le> limit | None \<Rightarrow> False))"

definition bound_low :: "TMaskBoundary \<Rightarrow> int \<Rightarrow> int option \<Rightarrow> bool" where
  "bound_low b limit v =
     (case b of
        BNone \<Rightarrow> True
      | BOpen \<Rightarrow> (case v of Some x \<Rightarrow> x > limit | None \<Rightarrow> False)
      | BClose \<Rightarrow> (case v of Some x \<Rightarrow> x \<ge> limit | None \<Rightarrow> False))"

definition matches_one ::
  "(char \<Rightarrow> char) \<Rightarrow> (ustring \<Rightarrow> ustring \<Rightarrow> bool) \<Rightarrow> ustring \<Rightarrow> bool \<Rightarrow> ustring \<Rightarrow> TParams option \<Rightarrow> TMask \<Rightarrow> bool" where
  "matches_one up eqi fileName isLocal path params m \<longleftrightarrow>
     MatchesMaskMask up eqi (DirectoryMaskKind m) (if isLocal then LocalDirectoryMask m else RemoteDirectoryMask m) path \<and>
     MatchesMaskMask up eqi (FileNameMaskKind m) (FileNameMask m) fileName \<and>
     bound_high (HighSizeMask m) (HighSize m) (map_option PSize params) \<and>
     bound_low (LowSizeMask m) (LowSize m) (map_option PSize params) \<and>
     bound_high (HighModificationMask m) (HighModification m) (map_option PModification params) \<and>
     bound_low (LowModificationMask m) (LowModification m) (map_option PModification params)"

definition parent_path :: "ustring \<Rightarrow> ustring" where
  "parent_path path = SimpleUnixExcludeTrailingBackslash (UnixExtractFilePath path)"

lemma parent_path_split:
  assumes "Slash \<notin> set b"
  shows "parent_path (a @ Slash # b) = (if a = [] then ROOTDIRECTORY else a)"
proof -
  have "LastDelimiter SLASH (a @ Slash # b) = Length a + 1" using assms by (intro LastDelimiter_split) auto
  then have f: "UnixExtractFilePath (a @ Slash # b) = a @ [Slash]" by (simp add: UnixExtractFilePath_def Length_def nat_add_distrib)
  show ?thesis
    using IsDelimiter_last [of "a @ [Slash]" SLASH]
    by (auto simp: parent_path_def f SimpleUnixExcludeTrailingBackslash_def UnixExcludeTrailingBackslash_def Length_def)
qed

lemma parent_path_shorter:
  assumes "\<not> IsUnixRootPath path"
  shows "IsUnixRootPath (parent_path path) \<or> length (parent_path path) < length path"
proof (cases rule: LastDelimiter_cases [of path SLASH])
  case none
  then show ?thesis by (simp add: parent_path_def UnixExtractFilePath_def SimpleUnixExcludeTrailingBackslash_def
        UnixExcludeTrailingBackslash_def IsUnixRootPath_def)
next
  case (some a c b)
  then have "path = a @ Slash # b" "Slash \<notin> set b" by auto
  then show ?thesis using parent_path_split [of b a] by (auto simp: IsUnixRootPath_def)
qed

function MatchesMasks ::
  "(char \<Rightarrow> char) \<Rightarrow> (ustring \<Rightarrow> ustring \<Rightarrow> bool) \<Rightarrow> ustring \<Rightarrow> bool \<Rightarrow> bool \<Rightarrow> ustring \<Rightarrow> TParams option \<Rightarrow>
   TMask list \<Rightarrow> bool \<Rightarrow> bool" where
  "MatchesMasks up eqi fileName isLocal directory path params masks recurse =
     (if list_ex (matches_one up eqi fileName isLocal path params) masks then True
      else if directory \<and> \<not> IsUnixRootPath path \<and> recurse then
        MatchesMasks up eqi (UnixExtractFileName path) isLocal True (parent_path path) params masks recurse
      else False)"
  by pat_completeness auto
termination
proof (relation "measure (\<lambda>(_, _, _, _, _, path, _). if IsUnixRootPath path then 0 else length path)")
qed (use parent_path_shorter in \<open>auto simp: IsUnixRootPath_def\<close>)

declare MatchesMasks.simps [simp del]

text \<open>The second component is \<open>ImplicitMatch\<close>.\<close>

definition DoMatches ::
  "(char \<Rightarrow> char) \<Rightarrow> (ustring \<Rightarrow> ustring \<Rightarrow> bool) \<Rightarrow> TFileMasks \<Rightarrow> ustring \<Rightarrow> bool \<Rightarrow> bool \<Rightarrow> ustring \<Rightarrow> TParams option \<Rightarrow>
   bool \<Rightarrow> bool \<times> bool" where
  "DoMatches up eqi fm fileName isLocal directory path params recurseInclude =
     (let includes = FMasks fm ! MASK_INDEX directory True; excludes = FMasks fm ! MASK_INDEX directory False;
          implicitInclude = (FAllDirsAreImplicitlyIncluded fm \<and> directory \<or> includes = []);
          explicitInclude = MatchesMasks up eqi fileName isLocal directory path params includes recurseInclude;
          result = ((implicitInclude \<or> explicitInclude) \<and>
                    \<not> MatchesMasks up eqi fileName isLocal directory path params excludes False)
      in (result, result \<and> implicitInclude \<and> \<not> explicitInclude \<and>
                  (directory \<and> FNoImplicitMatchWithDirExcludeMask fm \<or> excludes = [])))"

definition Masks_Matches ::
  "(char \<Rightarrow> char) \<Rightarrow> (ustring \<Rightarrow> ustring \<Rightarrow> bool) \<Rightarrow> TFileMasks \<Rightarrow> ustring \<Rightarrow> bool \<Rightarrow> bool \<Rightarrow> TParams option \<Rightarrow> bool \<Rightarrow>
   bool \<times> bool" where
  "Masks_Matches up eqi fm fileName isLocal directory params recurseInclude =
     (if isLocal then
        (let path = ExtractFilePath fileName;
             path = (if path \<noteq> [] then ToUnixPath (ExcludeTrailingBackslash path) else path)
         in DoMatches up eqi fm (ExtractFileName fileName False) isLocal directory path params recurseInclude)
      else DoMatches up eqi fm (UnixExtractFileName fileName) isLocal directory (parent_path fileName) params recurseInclude)"

definition MatchesFileName ::
  "(char \<Rightarrow> char) \<Rightarrow> (ustring \<Rightarrow> ustring \<Rightarrow> bool) \<Rightarrow> TFileMasks \<Rightarrow> ustring \<Rightarrow> bool \<Rightarrow> TParams option \<Rightarrow> bool" where
  "MatchesFileName up eqi fm fileName directory params = fst (DoMatches up eqi fm fileName False directory [] params True)"

subsection \<open>Reading masks\<close>

definition CreateMaskMask :: "ustring \<Rightarrow> bool \<Rightarrow> TKind \<times> ustring option" where
  "CreateMaskMask m ex =
     (if ex \<and> \<not> IsEffectiveFileNameMask m then (Any, None)
      else (if ex \<and> m = ''*.'' then NoExt else Regular, Some m))"

text \<open>The new string with the positions of its first and last character.\<close>

definition TrimEx :: "ustring \<Rightarrow> int \<Rightarrow> int \<Rightarrow> ustring \<times> int \<times> int" where
  "TrimEx str start stop =
     (let buf = TrimLeft str; result = TrimRight buf
      in (result, start + (Length str - Length buf), stop - (Length buf - Length result)))"

definition mask_error :: "int \<Rightarrow> int \<Rightarrow> nb_error" where
  "mask_error start stop = EMaskError start (stop - start + 1)"

text \<open>A bound: whether it is one for the time, and the mask with it.\<close>

definition bound_part ::
  "(ustring \<Rightarrow> int option) \<Rightarrow> char \<Rightarrow> ustring \<Rightarrow> int \<Rightarrow> int \<Rightarrow> bool \<Rightarrow> TMask \<Rightarrow> TMask res" where
  "bound_part rel delimiter partStr partStart partEnd directory m =
     (let low = (delimiter = CHR ''>'');
          close = (partStr \<noteq> [] \<and> hd partStr = CHR ''='');
          boundary = (if close then BClose else BOpen);
          partStr = (if close then tl partStr else partStr)
      in if TryStrToInt64 partStr = None then Inl EOther
         else case rel partStr of
           Some modification \<Rightarrow>
             (if (if low then LowModificationMask m else HighModificationMask m) \<noteq> BNone \<or> directory
              then Inl (mask_error (partStart - 1) partEnd)
              else Inr (if low then m\<lparr>LowModificationMask := boundary, LowModification := modification\<rparr>
                        else m\<lparr>HighModificationMask := boundary, HighModification := modification\<rparr>))
         | None \<Rightarrow>
             (if (if low then LowSizeMask m else HighSizeMask m) \<noteq> BNone \<or> directory
              then Inl (mask_error (partStart - 1) partEnd)
              else case TryStrToSize partStr of
                     None \<Rightarrow> Inl (mask_error partStart partEnd)
                   | Some n \<Rightarrow> Inr (if low then m\<lparr>LowSizeMask := boundary, LowSize := n\<rparr>
                                    else m\<lparr>HighSizeMask := boundary, HighSize := n\<rparr>)))"

text \<open>The loop that removes the slashes at the end, also from the text shown to the user.\<close>

function strip_directory :: "ustring \<Rightarrow> ustring \<Rightarrow> int \<Rightarrow> int \<Rightarrow> ustring \<times> ustring" where
  "strip_directory partStr userStr offset d =
     (let partStr' = SetLength partStr (Length partStr - 1);
          userStr' = Delete userStr (offset + d) 1
      in if partStr' \<noteq> [] \<and> IsDelimiter DirectoryMaskDelimiters partStr' (Length partStr')
         then strip_directory partStr' userStr' offset (d - 1) else (partStr', userStr'))"
  by pat_completeness auto
termination
  by (relation "measure (\<lambda>(partStr, _). length partStr)") (auto simp: SetLength_def Length_def)

declare strip_directory.simps [simp del]

definition directory_masks :: "TFileMasks \<Rightarrow> ustring \<Rightarrow> bool \<times> ustring \<times> ustring" where
  "directory_masks fm dirStr =
     (let directoryMaskStr = SimpleUnixExcludeTrailingBackslash (ToUnixPath dirStr)
      in if directoryMaskStr = ''.'' then
           (True,
            if FRemoteRoot fm \<noteq> [] then SimpleUnixExcludeTrailingBackslash (FRemoteRoot fm) else directoryMaskStr,
            if FLocalRoot fm \<noteq> [] then SimpleUnixExcludeTrailingBackslash (FLocalRoot fm) else directoryMaskStr)
         else if StartsStr ''./'' directoryMaskStr then
           (let rest = Delete directoryMaskStr 1 2
            in (True,
                if FRemoteRoot fm \<noteq> [] then FRemoteRoot fm @ rest else directoryMaskStr,
                if FLocalRoot fm \<noteq> [] then FLocalRoot fm @ rest else directoryMaskStr))
         else (False, directoryMaskStr, directoryMaskStr))"

text \<open>The part in front of the bounds: the mask, whether it is for directories, whether it is relative.\<close>

definition name_part :: "TFileMasks \<Rightarrow> ustring \<Rightarrow> int \<Rightarrow> TMask \<Rightarrow> TMask \<times> bool \<times> bool" where
  "name_part fm partStr offset m =
     (let d = LastDelimiter DirectoryMaskDelimiters partStr;
          directory = (d > 0 \<and> d = Length partStr);
          (partStr, m) =
            (if directory then
               (case strip_directory partStr (UserStr m) offset d of
                  (partStr, userStr) \<Rightarrow>
                    (partStr, if FForceDirectoryMasks fm = 0 then m\<lparr>UserStr := userStr, MaskStr := userStr\<rparr>
                              else m\<lparr>UserStr := userStr\<rparr>))
             else if FForceDirectoryMasks fm > 0 then
               (partStr, m\<lparr>MaskStr := Insert (MaskStr m) [Slash] (offset + Length partStr)\<rparr>)
             else (partStr, m));
          d = (if directory then LastDelimiter DirectoryMaskDelimiters partStr else d);
          directory = (if directory then FForceDirectoryMasks fm \<noteq> 0 else FForceDirectoryMasks fm > 0)
      in if d > 0 then
           (case directory_masks fm (SubString partStr 1 d) of
              (relative, remoteMask, localMask) \<Rightarrow>
                (case CreateMaskMask remoteMask False of (kind, remoteMask) \<Rightarrow>
                 case CreateMaskMask (SubString partStr (d + 1) (Length partStr - d)) True of (nameKind, nameMask) \<Rightarrow>
                   (m\<lparr>DirectoryMaskKind := kind, RemoteDirectoryMask := remoteMask,
                      LocalDirectoryMask := if remoteMask \<noteq> None then Some localMask else None,
                      FileNameMaskKind := nameKind, FileNameMask := nameMask\<rparr>, directory, relative)))
         else (case CreateMaskMask partStr True of (nameKind, nameMask) \<Rightarrow>
                 (m\<lparr>FileNameMaskKind := nameKind, FileNameMask := nameMask\<rparr>, directory, False)))"

lemma copy_loop_pos: "copy_loop chs escapes s p = (r, d, p') \<Longrightarrow> p \<le> p'"
  by (induction chs escapes s p arbitrary: r d p' rule: copy_loop.induct) (fastforce split: if_splits prod.splits)+

lemma CopyToChars_from: "CopyToChars str from chs False escapes = (r, d, from') \<Longrightarrow> from < from'"
  by (auto simp: CopyToChars_def dest: copy_loop_pos split: prod.splits)

text \<open>The parts of a mask from a position on: the mask, its kind, and whether one is relative.\<close>

function create_parts ::
  "(ustring \<Rightarrow> int option) \<Rightarrow> TFileMasks \<Rightarrow> ustring \<Rightarrow> int \<Rightarrow> nat \<Rightarrow> char \<Rightarrow> TMask \<Rightarrow> bool \<Rightarrow> bool \<Rightarrow> (TMask \<times> bool \<times> bool) res" where
  "create_parts rel fm maskStr maskStart from partDelimiter m directory relative =
     (if from \<le> length maskStr then
        (case CopyToChars maskStr from ''<>'' False True of
           (partStr, nextDelimiter, next) \<Rightarrow>
             (case TrimEx partStr (maskStart + int from - 1) (maskStart + int next - 1 - 2) of
                (partStr, partStart, partEnd) \<Rightarrow>
                  if partDelimiter \<noteq> NUL then
                    rbind (bound_part rel partDelimiter partStr partStart partEnd directory m) (\<lambda>m.
                      create_parts rel fm maskStr maskStart next nextDelimiter m directory relative)
                  else if partStr \<noteq> [] then
                    (case name_part fm partStr (partStart - maskStart) m of
                       (m, directory, isRelative) \<Rightarrow>
                         create_parts rel fm maskStr maskStart next nextDelimiter m directory (relative \<or> isRelative))
                  else create_parts rel fm maskStr maskStart next nextDelimiter m directory relative))
      else Inr (m, directory, relative))"
  by pat_completeness auto
termination
  by (relation "measure (\<lambda>(_, _, maskStr, _, from, _). Suc (length maskStr) - from)")
     (force dest: CopyToChars_from [OF sym])+

declare create_parts.simps [simp del]

definition empty_mask :: "ustring \<Rightarrow> TMask" where
  "empty_mask str = \<lparr>FileNameMaskKind = Any, FileNameMask = None, DirectoryMaskKind = Any, RemoteDirectoryMask = None,
     LocalDirectoryMask = None, HighSizeMask = BNone, HighSize = 0, LowSizeMask = BNone, LowSize = 0,
     HighModificationMask = BNone, HighModification = 0, LowModificationMask = BNone, LowModification = 0,
     MaskStr = str, UserStr = str\<rparr>"

definition CreateMask ::
  "(ustring \<Rightarrow> int option) \<Rightarrow> ustring \<Rightarrow> int \<Rightarrow> bool \<Rightarrow> TFileMasks \<Rightarrow> TFileMasks res" where
  "CreateMask rel maskStr maskStart incl fm =
     rbind (create_parts rel fm maskStr maskStart 1 NUL (empty_mask maskStr) False False) (\<lambda>(m, directory, relative).
       let i = MASK_INDEX directory incl
       in Inr (fm\<lparr>FAnyRelative := FAnyRelative fm \<or> relative, FMasks := (FMasks fm)[i := (FMasks fm ! i) @ [m]]\<rparr>))"

text \<open>The masks of a string from a position on.\<close>

function str_loop ::
  "(ustring \<Rightarrow> int option) \<Rightarrow> ustring \<Rightarrow> bool \<Rightarrow> nat \<Rightarrow> bool \<Rightarrow> TFileMasks \<Rightarrow> TFileMasks res" where
  "str_loop rel str singleMask from incl fm =
     (if from \<le> length str then
        (case (if singleMask then (str, NUL, length str + 1)
               else CopyToChars str from AllFileMasksDelimiters False True) of
           (maskStr, nextDelimiter, next) \<Rightarrow>
             (case TrimEx maskStr (int from) (int next - 2) of
                (maskStr, maskStart, _) \<Rightarrow>
                  rbind (if maskStr \<noteq> [] then CreateMask rel maskStr maskStart incl fm else Inr fm) (\<lambda>fm.
                    if nextDelimiter = CHR ''|'' then
                      (if incl then str_loop rel str singleMask next False fm
                       else Inl (mask_error (int next - 1) (Length str)))
                    else str_loop rel str singleMask next incl fm)))
      else Inr fm)"
  by pat_completeness auto
termination
  by (relation "measure (\<lambda>(_, str, _, from, _). Suc (length str) - from)")
     (force dest: CopyToChars_from [OF sym] split: if_splits)+

declare str_loop.simps [simp del]

definition parse_masks :: "(ustring \<Rightarrow> int option) \<Rightarrow> ustring \<Rightarrow> bool \<Rightarrow> TFileMasks \<Rightarrow> TFileMasks res" where
  "parse_masks rel str singleMask fm =
     str_loop rel str singleMask 1 True (Masks_Clear (fm\<lparr>FAnyRelative := False, FStr := str\<rparr>))"

text \<open>
  \<open>SetStr\<close>: when the string is wrong, the former one is set again and the exception is passed on. What
  the failed attempt left behind is cleared by that at once. \<open>None\<close> stands for a recursion that never
  returns.
\<close>

partial_function (option) SetStr ::
  "(ustring \<Rightarrow> int option) \<Rightarrow> ustring \<Rightarrow> bool \<Rightarrow> TFileMasks \<Rightarrow> (TFileMasks \<times> nb_error option) option" where
  "SetStr rel str singleMask fm =
     (case parse_masks rel str singleMask fm of
        Inr fm' \<Rightarrow> Some (fm', None)
      | Inl e \<Rightarrow>
          Option.bind (SetStr rel (FStr fm) False (fm\<lparr>FStr := str\<rparr>)) (\<lambda>(fm', e').
            Some (fm', case e' of None \<Rightarrow> Some e | Some e' \<Rightarrow> Some e')))"

definition SetMasks ::
  "(ustring \<Rightarrow> int option) \<Rightarrow> ustring \<Rightarrow> TFileMasks \<Rightarrow> (TFileMasks \<times> nb_error option) option" where
  "SetMasks rel v fm = (if FStr fm \<noteq> v then SetStr rel v False fm else Some (fm, None))"

definition SetMask ::
  "(ustring \<Rightarrow> int option) \<Rightarrow> ustring \<Rightarrow> TFileMasks \<Rightarrow> (TFileMasks \<times> nb_error option) option" where
  "SetMask rel m fm = SetStr rel m True fm"

definition SetRoots ::
  "(ustring \<Rightarrow> int option) \<Rightarrow> ustring \<Rightarrow> ustring \<Rightarrow> TFileMasks \<Rightarrow> (TFileMasks \<times> nb_error option) option" where
  "SetRoots rel localRoot remoteRoot fm =
     (if FAnyRelative fm then
        (let fm = fm\<lparr>FLocalRoot := EscapeMask (UnixIncludeTrailingBackslash (ToUnixPath localRoot)),
                     FRemoteRoot := EscapeMask (UnixIncludeTrailingBackslash remoteRoot)\<rparr>
         in SetStr rel (FStr fm) False fm)
      else Some (fm, None))"

definition SetRoots_files ::
  "(ustring \<Rightarrow> int option) \<Rightarrow> ustring list \<Rightarrow> ustring \<Rightarrow> TFileMasks \<Rightarrow> (TFileMasks \<times> nb_error option) option" where
  "SetRoots_files rel localFileList remoteRoot fm =
     (if FAnyRelative fm then
        (case ExtractCommonPath localFileList of
           Inl e \<Rightarrow> Some (fm, Some e)
         | Inr (_, localRoot) \<Rightarrow> SetRoots rel localRoot remoteRoot fm)
      else Some (fm, None))"

definition GetMasksStr :: "nat \<Rightarrow> TFileMasks \<Rightarrow> ustring list \<times> TFileMasks" where
  "GetMasksStr index fm =
     (case FMasksStr fm ! index of
        Some strs \<Rightarrow> (strs, fm)
      | None \<Rightarrow>
          (let strs = map UserStr (FMasks fm ! index)
           in (strs, fm\<lparr>FMasksStr := (FMasksStr fm)[index := Some strs]\<rparr>)))"

text \<open>
  Copies of other masks and of strings; an object assigned to itself does not change. The constructors
  are declared not to throw, so an error they return ends the program.
\<close>

definition DoCopy ::
  "(ustring \<Rightarrow> int option) \<Rightarrow> TFileMasks \<Rightarrow> TFileMasks \<Rightarrow> (TFileMasks \<times> nb_error option) option" where
  "DoCopy rel source fm =
     SetStr rel (FStr source) False
       (fm\<lparr>FForceDirectoryMasks := FForceDirectoryMasks source,
           FNoImplicitMatchWithDirExcludeMask := FNoImplicitMatchWithDirExcludeMask source,
           FAllDirsAreImplicitlyIncluded := FAllDirsAreImplicitlyIncluded source,
           FLocalRoot := FLocalRoot source, FRemoteRoot := FRemoteRoot source\<rparr>)"

definition copy_TFileMasks :: "(ustring \<Rightarrow> int option) \<Rightarrow> TFileMasks \<Rightarrow> (TFileMasks \<times> nb_error option) option" where
  "copy_TFileMasks rel source = DoCopy rel source Masks_Init"

definition string_TFileMasks :: "(ustring \<Rightarrow> int option) \<Rightarrow> ustring \<Rightarrow> (TFileMasks \<times> nb_error option) option" where
  "string_TFileMasks rel masks = SetStr rel masks False Masks_Init"

definition assign_TFileMasks ::
  "(ustring \<Rightarrow> int option) \<Rightarrow> TFileMasks \<Rightarrow> TFileMasks \<Rightarrow> (TFileMasks \<times> nb_error option) option" where
  "assign_TFileMasks rel rhs fm = DoCopy rel rhs (fm\<lparr>FMasksStr := replicate 4 None\<rparr>)"

definition masks_eq :: "TFileMasks \<Rightarrow> TFileMasks \<Rightarrow> bool" where
  "masks_eq fm rhs \<longleftrightarrow> FStr fm = FStr rhs"

subsection \<open>Composing masks\<close>

definition double_delimiters :: "ustring \<Rightarrow> ustring" where
  "double_delimiters str = concat (map (\<lambda>c. if c \<in> set AllFileMasksDelimiters then [c, c] else [c]) str)"

text \<open>When all characters are removed, the test for the next one reads in front of the string.\<close>

definition strip_delimiters :: "ustring \<Rightarrow> ustring res" where
  "strip_delimiters str =
     (let result = rev (dropWhile (\<lambda>c. c \<in> set DirectoryMaskDelimiters) (rev str))
      in if result = [] then Inl ERangeError else Inr result)"

text \<open>The two lists that are composed: the result, and the masks without the marks for directories.\<close>

fun compose_loop :: "bool \<Rightarrow> ustring list \<Rightarrow> ustring \<Rightarrow> ustring \<Rightarrow> (ustring \<times> ustring) res" where
  "compose_loop directory [] result noDirMask = Inr (result, noDirMask)"
| "compose_loop directory (s # strs) result noDirMask =
     (let str = Trim s
      in if str \<noteq> [] then
           (let str = double_delimiters str
            in rbind (if directory then Inr (str, MakeDirectoryMask str)
                      else rbind (strip_delimiters str) (\<lambda>str. Inr (str, str))) (\<lambda>(strNoDirMask, str).
                 compose_loop directory strs (AddToList result str FileMasksDelimiterStr)
                   (AddToList noDirMask strNoDirMask FileMasksDelimiterStr)))
         else compose_loop directory strs result noDirMask)"

definition ComposeMaskStr :: "(ustring \<Rightarrow> int option) \<Rightarrow> ustring list \<Rightarrow> bool \<Rightarrow> ustring res option" where
  "ComposeMaskStr rel masksStr directory =
     (case compose_loop directory masksStr [] [] of
        Inl e \<Rightarrow> Some (Inl e)
      | Inr (result, noDirMask) \<Rightarrow>
          Option.bind (SetMasks rel noDirMask (new_TFileMasks (if directory then 1 else 0))) (\<lambda>(_, e).
            Some (case e of None \<Rightarrow> Inr result | Some e \<Rightarrow> Inl e)))"

text \<open>The composition of the four lists.\<close>

definition ComposeMaskStr_all ::
  "(ustring \<Rightarrow> int option) \<Rightarrow> ustring list \<Rightarrow> ustring list \<Rightarrow> ustring list \<Rightarrow> ustring list \<Rightarrow> ustring res option" where
  "ComposeMaskStr_all rel includeFiles excludeFiles includeDirs excludeDirs =
     Option.bind (ComposeMaskStr rel includeFiles False) (\<lambda>includes.
     Option.bind (ComposeMaskStr rel includeDirs True) (\<lambda>includeDirs.
     Option.bind (ComposeMaskStr rel excludeFiles False) (\<lambda>excludes.
     Option.bind (ComposeMaskStr rel excludeDirs True) (\<lambda>excludeDirs.
       Some (rbind includes (\<lambda>includes. rbind includeDirs (\<lambda>includeDirs.
             rbind excludes (\<lambda>excludes. rbind excludeDirs (\<lambda>excludeDirs.
               let includeMasks = AddToList includes includeDirs FileMasksDelimiterStr;
                   excludeMasks = AddToList excludes excludeDirs FileMasksDelimiterStr
               in Inr (if excludeMasks \<noteq> []
                       then (if includeMasks \<noteq> [] then includeMasks @ '' '' else includeMasks) @ ''| '' @ excludeMasks
                       else includeMasks))))))))))"

section \<open>Names from masks\<close>

lemma mask_loop_delimited: "fst (mask_loop part (DelimitFileNameMask g) False masked) = g"
proof (induction g arbitrary: part masked)
  case (Cons c g)
  then show ?case by (auto split: prod.split) (metis fst_conv)+
qed simp

lemma Delimit_append: "DelimitFileNameMask (u @ v) = DelimitFileNameMask u @ DelimitFileNameMask v"
  by (induction u) auto

lemma Delimit_dot: "CHR ''.'' \<in> set (DelimitFileNameMask g) \<longleftrightarrow> CHR ''.'' \<in> set g"
  by (induction g) auto

lemma Delimit_effective: "g \<noteq> [] \<Longrightarrow> IsEffectiveFileNameMask (DelimitFileNameMask g)"
  by (cases g) (auto simp: IsEffectiveFileNameMask_def)

text \<open>A delimited character behind a wildcard makes a mask look like a plain name.\<close>

lemma IsFileNameMask_forgets: "\<not> IsFileNameMask [CHR ''*'', Backslash, CHR ''?''] \<and> MaskFileName ''ab'' [CHR ''*'', Backslash, CHR ''?''] = ''ab?''"
  by code_simp

text \<open>C33: A name that is delimited as a mask, its wildcards behind backslashes, is the name every file gets
  from that mask, whatever the file was called; the name must not be empty and must not end with a
  dot, which the mask would lose.\<close>

theorem MaskFileName_literal:
  assumes "g \<noteq> []" "last g \<noteq> CHR ''.''"
  shows "MaskFileName f (DelimitFileNameMask g) = g"
proof (cases "CHR ''.'' \<in> set g")
  case True
  then obtain u v where g: "g = u @ CHR ''.'' # v" "CHR ''.'' \<notin> set v" by (meson split_list_last)
  have m: "DelimitFileNameMask g = DelimitFileNameMask u @ CHR ''.'' # DelimitFileNameMask v" by (simp add: g(1) Delimit_append)
  have p: "LastDelimiter ''.'' (DelimitFileNameMask g) = Length (DelimitFileNameMask u) + 1"
    unfolding m using g(2) by (intro LastDelimiter_split) (auto simp: Delimit_dot)
  let ?m = "DelimitFileNameMask g" and ?p = "Length (DelimitFileNameMask u) + 1" and ?p2 = "LastDelimiter ''.'' f"
  have ext: "SubString ?m (?p + 1) (Length ?m - ?p) = DelimitFileNameMask v"
    and nam: "SubString ?m 1 (?p - 1) = DelimitFileNameMask u"
    by (simp_all add: m ustring_simps Length_def nat_add_distrib)
  obtain masked where e: "MaskFilePart (if ?p2 > 1 then SubString f (?p2 + 1) (Length f - ?p2) else []) (DelimitFileNameMask v) False =
      (v, masked)"
    unfolding MaskFilePart_def using mask_loop_delimited by (metis prod.collapse)
  have n: "fst (MaskFilePart x (DelimitFileNameMask u) masked) = u" for x
    unfolding MaskFilePart_def by (rule mask_loop_delimited)
  have v: "v \<noteq> []" using assms(2) g(1) by auto
  have pos: "?p > 0" by (simp add: Length_def)
  show ?thesis
    unfolding MaskFileName_def if_P [OF Delimit_effective [OF assms(1)]] p Let_def if_P [OF pos] ext nam e prod.case n if_P [OF v]
    by (simp add: g(1))
next
  case False
  then have "LastDelimiter ''.'' (DelimitFileNameMask g) = 0" by (intro LastDelimiter_none) (simp add: Delimit_dot)
  then show ?thesis using Delimit_effective [OF assms(1)] mask_loop_delimited [of f g]
    by (simp add: MaskFileName_def MaskFilePart_def)
qed

theorem MaskFileName_literal_witness:
  "MaskFileName ''old.name'' (DelimitFileNameMask ''what?.t*t'') = ''what?.t*t''"
  by (rule MaskFileName_literal) simp_all

section \<open>Setting masks\<close>

text \<open>Reading masks changes nothing but the masks.\<close>

lemma CreateMask_frame:
  "CreateMask rel str start incl fm = Inr fm' \<Longrightarrow> \<exists>r ms. fm' = fm\<lparr>FAnyRelative := r, FMasks := ms\<rparr>"
  by (auto simp: CreateMask_def rbind_eq_Inr_iff Let_def)

lemma str_loop_frame:
  "str_loop rel str single from incl fm = Inr fm' \<Longrightarrow> \<exists>r ms. fm' = fm\<lparr>FAnyRelative := r, FMasks := ms\<rparr>"
proof (induction "Suc (length str) - from" arbitrary: "from" incl fm rule: less_induct)
  case less
  note loop = less.prems [unfolded str_loop.simps [of rel str single "from" incl fm]]
  show ?case
  proof (cases "from \<le> length str")
    case True
    obtain m d nx where c: "(if single then (str, NUL, length str + 1)
        else CopyToChars str from AllFileMasksDelimiters False True) = (m, d, nx)" by (metis prod_cases3)
    obtain t st en where t: "TrimEx m (int from) (int nx - 2) = (t, st, en)" by (metis prod_cases3)
    have nx: "from < nx" using c True CopyToChars_from by (fastforce split: if_splits)
    from loop True obtain fm1 incl1 where fm1: "(if t \<noteq> [] then CreateMask rel t st incl fm else Inr fm) = Inr fm1"
        "str_loop rel str single nx incl1 fm1 = Inr fm'"
      by (auto simp: c t rbind_eq_Inr_iff split: if_splits)
    have "\<exists>r1 ms1. fm1 = fm\<lparr>FAnyRelative := r1, FMasks := ms1\<rparr>"
    proof (cases "t = []")
      case True
      then have "fm1 = fm\<lparr>FAnyRelative := FAnyRelative fm, FMasks := FMasks fm\<rparr>" using fm1(1) by simp
      then show ?thesis by blast
    next
      case False
      then have "CreateMask rel t st incl fm = Inr fm1" using fm1(1) by simp
      then show ?thesis by (rule CreateMask_frame)
    qed
    then obtain r1 ms1 where f1: "fm1 = fm\<lparr>FAnyRelative := r1, FMasks := ms1\<rparr>" by blast
    have "Suc (length str) - nx < Suc (length str) - from" using nx True by simp
    from less.hyps [OF this fm1(2)] obtain r ms where "fm' = fm1\<lparr>FAnyRelative := r, FMasks := ms\<rparr>" by blast
    then show ?thesis unfolding f1 by auto
  next
    case False
    then have "fm' = fm\<lparr>FAnyRelative := FAnyRelative fm, FMasks := FMasks fm\<rparr>" using loop by simp
    then show ?thesis by blast
  qed
qed

definition masks_valid :: "(ustring \<Rightarrow> int option) \<Rightarrow> TFileMasks \<Rightarrow> bool" where
  "masks_valid rel fm \<longleftrightarrow> parse_masks rel (FStr fm) False fm = Inr (fm\<lparr>FMasksStr := replicate 4 None\<rparr>)"

lemma parse_masks_FStr [simp]: "parse_masks rel str single (fm\<lparr>FStr := x\<rparr>) = parse_masks rel str single fm"
  by (simp add: parse_masks_def)

lemma parse_masks_valid:
  assumes "parse_masks rel str False fm = Inr fm'"
  shows "masks_valid rel fm' \<and> FStr fm' = str"
proof -
  let ?fm = "Masks_Clear (fm\<lparr>FAnyRelative := False, FStr := str\<rparr>)"
  obtain r ms where fm': "fm' = ?fm\<lparr>FAnyRelative := r, FMasks := ms\<rparr>"
    using str_loop_frame assms unfolding parse_masks_def by blast
  have "Masks_Clear (fm'\<lparr>FAnyRelative := False, FStr := FStr fm'\<rparr>) = ?fm" "FStr fm' = str"
      "fm'\<lparr>FMasksStr := replicate 4 None\<rparr> = fm'"
    unfolding fm' by (simp_all add: Masks_Clear_def)
  then show ?thesis using assms unfolding masks_valid_def parse_masks_def by simp
qed

lemma parse_masks_cached: "parse_masks rel str single fm = Inr fm' \<Longrightarrow> FMasksStr fm' = replicate 4 None"
  unfolding parse_masks_def by (drule str_loop_frame) (auto simp: Masks_Clear_def)

lemma SetStr_ok: "parse_masks rel str single fm = Inr fm' \<Longrightarrow> SetStr rel str single fm = Some (fm', None)"
  by (subst SetStr.simps) simp

lemma SetStr_restores:
  assumes "parse_masks rel str single fm = Inl e" "parse_masks rel (FStr fm) False fm = Inr fm'"
  shows "SetStr rel str single fm = Some (fm', Some e)"
  using assms SetStr_ok [of rel "FStr fm" False "fm\<lparr>FStr := str\<rparr>" fm'] by (subst SetStr.simps) simp

lemma SetStr_never_returns:
  assumes "parse_masks rel str single fm = Inl e" "parse_masks rel str False fm = Inl e'"
    "parse_masks rel (FStr fm) False fm = Inl e''"
  shows "SetStr rel str single fm = None"
proof -
  let ?stuck = "\<lambda>rel str single fm. parse_masks rel str single fm \<in> range Inl \<and> parse_masks rel str False fm \<in> range Inl \<and>
      parse_masks rel (FStr fm) False fm \<in> range Inl"
  have none: "\<not> ?stuck rel str single fm" if "SetStr rel str single fm = Some r" for rel str single fm r
    using _ that
  proof (rule SetStr.raw_induct [where P = "\<lambda>rel str single fm _. \<not> ?stuck rel str single fm"])
    fix f rel str single fm r
    assume IH: "\<And>rel str single fm r. f rel str single fm = Some r \<Longrightarrow> \<not> ?stuck rel str single fm"
      and r: "(case parse_masks rel str single fm of
          Inl e \<Rightarrow> Option.bind (f rel (FStr fm) False (fm\<lparr>FStr := str\<rparr>)) (\<lambda>(fm', e').
            Some (fm', case e' of None \<Rightarrow> Some e | Some e' \<Rightarrow> Some e'))
        | Inr fm' \<Rightarrow> Some (fm', None)) = Some r"
    show "\<not> ?stuck rel str single fm"
    proof
      assume a: "?stuck rel str single fm"
      then obtain e where "parse_masks rel str single fm = Inl e" by auto
      then obtain q where "f rel (FStr fm) False (fm\<lparr>FStr := str\<rparr>) = Some q" using r by (auto simp: bind_eq_Some_conv)
      from IH [OF this] show False using a by simp
    qed
  qed
  show ?thesis
  proof (rule ccontr)
    assume "SetStr rel str single fm \<noteq> None"
    then obtain r where "SetStr rel str single fm = Some r" by blast
    from none [OF this] show False using assms by simp
  qed
qed

lemma parse_masks_cache [simp]: "parse_masks rel str single (fm\<lparr>FMasksStr := x\<rparr>) = parse_masks rel str single fm"
  by (simp add: parse_masks_def Masks_Clear_def)

text \<open>C29: Setting the string of valid masks is atomic: it always returns; either the new string is read
  and its masks are set, or the exception of the reader is passed on and all masks are as before, only
  the cached texts are gone. Masks set as a list are valid again in both cases, so that the recovery
  works every time.\<close>

theorem SetStr_atomic:
  assumes "masks_valid rel fm"
  shows "\<exists>fm' e. SetStr rel str single fm = Some (fm', e) \<and>
    (case e of None \<Rightarrow> parse_masks rel str single fm = Inr fm'
             | Some err \<Rightarrow> parse_masks rel str single fm = Inl err \<and> fm' = fm\<lparr>FMasksStr := replicate 4 None\<rparr>) \<and>
    (e = None \<and> single \<or> masks_valid rel fm')"
proof (cases "parse_masks rel str single fm")
  case (Inr fm')
  then have "e = None \<and> single \<or> masks_valid rel fm'" if "e = None" for e :: "nb_error option"
    using parse_masks_valid that by (cases single) auto
  then show ?thesis using SetStr_ok [OF Inr] Inr by auto
next
  case (Inl err)
  let ?fm = "fm\<lparr>FMasksStr := replicate 4 None\<rparr>"
  have "SetStr rel str single fm = Some (?fm, Some err)"
    using SetStr_restores [OF Inl] assms unfolding masks_valid_def .
  moreover have "masks_valid rel ?fm" using assms unfolding masks_valid_def by simp
  ultimately show ?thesis using Inl by auto
qed

lemma new_masks_valid: "masks_valid rel (new_TFileMasks k)"
  by (simp add: masks_valid_def parse_masks_def new_TFileMasks_def Masks_Init_def Masks_Clear_def str_loop.simps)

theorem SetStr_atomic_witness:
  "parse_masks (\<lambda>_. None) ''*.c | *.o | x'' False (new_TFileMasks 0) = Inl (EMaskError 11 3) \<and>
   SetStr (\<lambda>_. None) ''*.c | *.o | x'' False (new_TFileMasks 0) = Some (new_TFileMasks 0, Some (EMaskError 11 3))"
proof -
  have "parse_masks (\<lambda>_. None) ''*.c | *.o | x'' False (new_TFileMasks 0) = Inl (EMaskError 11 3)" by code_simp
  moreover have "(new_TFileMasks 0)\<lparr>FMasksStr := replicate 4 None\<rparr> = new_TFileMasks 0"
    by (simp add: new_TFileMasks_def Masks_Init_def)
  ultimately show ?thesis
    using SetStr_atomic [OF new_masks_valid [of "\<lambda>_. None" 0], of "''*.c | *.o | x''" False] by (auto split: option.splits)
qed

text \<open>
  A single mask may contain the delimiters of lists. When the string of such a mask is no valid list,
  the recovery from a wrong string never ends.
\<close>

lemma SetMask_then_SetMasks_never_returns:
  "\<exists>fm. SetMask (\<lambda>_. None) ''a|b|c'' (new_TFileMasks 0) = Some (fm, None) \<and> SetMasks (\<lambda>_. None) ''x|y|z'' fm = None"
proof -
  obtain fm where fm: "parse_masks (\<lambda>_. None) ''a|b|c'' True (new_TFileMasks 0) = Inr fm"
    and bad: "parse_masks (\<lambda>_. None) ''x|y|z'' False fm = Inl (EMaskError 4 2)"
      "parse_masks (\<lambda>_. None) (FStr fm) False fm = Inl (EMaskError 4 2)" "FStr fm \<noteq> ''x|y|z''"
  proof -
    let ?fm = "case parse_masks (\<lambda>_. None) ''a|b|c'' True (new_TFileMasks 0) of Inr fm \<Rightarrow> fm | Inl _ \<Rightarrow> Masks_Init"
    have "parse_masks (\<lambda>_. None) ''a|b|c'' True (new_TFileMasks 0) = Inr ?fm" by code_simp
    moreover have "parse_masks (\<lambda>_. None) ''x|y|z'' False ?fm = Inl (EMaskError 4 2)" by code_simp
    moreover have "parse_masks (\<lambda>_. None) (FStr ?fm) False ?fm = Inl (EMaskError 4 2)" by code_simp
    moreover have "FStr ?fm \<noteq> ''x|y|z''" by code_simp
    ultimately show ?thesis by (rule that)
  qed
  have "SetMask (\<lambda>_. None) ''a|b|c'' (new_TFileMasks 0) = Some (fm, None)" using SetStr_ok [OF fm] by (simp add: SetMask_def)
  moreover have "SetMasks (\<lambda>_. None) ''x|y|z'' fm = None"
    using SetStr_never_returns [OF bad(1,1,2)] bad(3) by (simp add: SetMasks_def)
  ultimately show ?thesis by blast
qed

section \<open>Composed masks are read back\<close>

text \<open>Texts of masks for files as a user enters them: trimmed, without bounds and without a final slash.\<close>

definition mask_text :: "ustring \<Rightarrow> bool" where
  "mask_text s \<longleftrightarrow> s \<noteq> [] \<and> Trim s = s \<and> CHR ''<'' \<notin> set s \<and> CHR ''>'' \<notin> set s \<and>
     last s \<noteq> Slash \<and> last s \<noteq> Backslash"

lemma TrimRight_prefix: "\<exists>t. s = TrimRight s @ t"
proof -
  let ?P = "\<lambda>c. c = CHR '' '' \<or> c = CHR 0x0A \<or> c = CHR 0x0D \<or> c = NUL"
  have "rev s = takeWhile ?P (rev s) @ dropWhile ?P (rev s)" by simp
  then have "s = rev (dropWhile ?P (rev s)) @ rev (takeWhile ?P (rev s))" by (metis rev_append rev_rev_ident)
  then show ?thesis unfolding TrimRight_def by blast
qed

lemma Trim_fixed:
  assumes "Trim s = s"
  shows "TrimLeft s = s" "TrimRight s = s"
proof -
  obtain t where t: "TrimLeft s = s @ t" using TrimRight_prefix [of "TrimLeft s"] assms by (auto simp: Trim_def)
  have "length (TrimLeft s) \<le> length s" by (simp add: TrimLeft_def length_dropWhile_le)
  then have "t = []" using t by simp
  then show "TrimLeft s = s" using t by simp
  then show "TrimRight s = s" using assms by (simp add: Trim_def)
qed

lemma TrimLeft_ends: "TrimLeft s = s \<Longrightarrow> s \<noteq> [] \<Longrightarrow> hd s \<noteq> CHR '' ''"
  using hd_dropWhile [of "\<lambda>c. c = CHR '' ''" s] by (simp add: TrimLeft_def)

lemma TrimRight_ends: "TrimRight s = s \<Longrightarrow> s \<noteq> [] \<Longrightarrow> last s \<noteq> CHR '' ''"
  using hd_dropWhile [of "\<lambda>c. c = CHR '' '' \<or> c = CHR 0x0A \<or> c = CHR 0x0D \<or> c = NUL" "rev s"]
  by (simp add: TrimRight_def rev_swap hd_rev)

lemma double_simps [simp]:
  "double_delimiters [] = []"
  "double_delimiters (c # s) = (if c \<in> set AllFileMasksDelimiters then [c, c] else [c]) @ double_delimiters s"
  by (simp_all add: double_delimiters_def)

lemma double_last: "s \<noteq> [] \<Longrightarrow> double_delimiters s \<noteq> [] \<and> last (double_delimiters s) = last s"
  by (induction s) auto

text \<open>Copying up to a delimiter undoes the doubling.\<close>

lemma copy_doubled_end:
  "copy_loop AllFileMasksDelimiters True (double_delimiters s) p = (s, NUL, p + length (double_delimiters s))"
  by (induction s arbitrary: p) (auto split: prod.split)

lemma copy_doubled:
  "copy_loop AllFileMasksDelimiters True (double_delimiters s @ CHR '';'' # CHR '' '' # r) p =
     (s, CHR '';'', p + length (double_delimiters s))"
  by (induction s arbitrary: p) (auto split: prod.split)

fun join_masks :: "ustring list \<Rightarrow> ustring" where
  "join_masks [] = []"
| "join_masks [s] = double_delimiters s"
| "join_masks (s # t # strs) = double_delimiters s @ FileMasksDelimiterStr @ join_masks (t # strs)"

lemma join_masks_Cons: "strs \<noteq> [] \<Longrightarrow> join_masks (s # strs) = double_delimiters s @ FileMasksDelimiterStr @ join_masks strs"
  by (cases strs) simp_all

lemma mask_textD:
  assumes "mask_text s"
  shows "s \<noteq> []" "TrimLeft s = s" "TrimRight s = s" "hd s \<noteq> CHR '' ''" "last s \<noteq> CHR '' ''"
    "set s \<inter> set ''<>'' = {}" "last s \<notin> set DirectoryMaskDelimiters" "Trim s = s"
  using assms Trim_fixed [of s] TrimLeft_ends [of s] TrimRight_ends [of s] by (auto simp: mask_text_def)

lemma copy_none: "set s \<inter> set chs = {} \<Longrightarrow> copy_loop chs escapes s p = (s, NUL, p + length s)"
  by (induction s arbitrary: p) auto

lemma create_parts_text:
  assumes "mask_text s" "FForceDirectoryMasks fm \<le> 0"
  shows "\<exists>m r. create_parts rel fm s start 1 NUL (empty_mask s) False False = Inr (m, False, r) \<and> UserStr m = s"
proof -
  note t = mask_textD [OF assms(1)]
  have copy: "CopyToChars s 1 ''<>'' False True = (s, NUL, length s + 2)"
    using copy_none [OF t(6), of True 1] by (simp add: CopyToChars_def)
  have trim: "TrimEx s a b = (s, a, b)" for a b using t(2,3) by (simp add: TrimEx_def)
  have dir: "\<not> (LastDelimiter DirectoryMaskDelimiters s > 0 \<and> LastDelimiter DirectoryMaskDelimiters s = Length s)"
  proof (cases rule: LastDelimiter_cases [of s DirectoryMaskDelimiters])
    case (some a c b)
    then have "b \<noteq> []" using t(7) by auto
    then show ?thesis using some by auto
  qed simp
  have len: "Suc 0 \<le> length s" using t(1) by (cases s) simp_all
  obtain m d r where n: "name_part fm s (start + 1 - 1 - start) (empty_mask s) = (m, d, r)" by (metis prod_cases3)
  have m: "UserStr m = s" "\<not> d"
    using n dir assms(2) by (auto simp: name_part_def Let_def empty_mask_def [of s] split: prod.splits if_splits)
  have "create_parts rel fm s start 1 NUL (empty_mask s) False False = create_parts rel fm s start (length s + 2) NUL m d r"
    unfolding create_parts.simps [of rel fm s start 1] copy using len t(1) n by (simp add: trim)
  also have "\<dots> = Inr (m, d, r)" unfolding create_parts.simps [of rel fm s start "length s + 2"] by simp
  finally show ?thesis using m by auto
qed

lemma CreateMask_text:
  assumes "mask_text s" "FForceDirectoryMasks fm \<le> 0" "length (FMasks fm) = 4"
  shows "\<exists>fm'. CreateMask rel s start True fm = Inr fm' \<and> FForceDirectoryMasks fm' \<le> 0 \<and> length (FMasks fm') = 4 \<and>
    map UserStr (FMasks fm' ! 0) = map UserStr (FMasks fm ! 0) @ [s] \<and> tl (FMasks fm') = tl (FMasks fm)"
proof -
  obtain m r where "create_parts rel fm s start 1 NUL (empty_mask s) False False = Inr (m, False, r)" "UserStr m = s"
    using create_parts_text [OF assms(1,2)] by blast
  then show ?thesis using assms(2,3) by (cases "FMasks fm") (auto simp: CreateMask_def MASK_INDEX_def)
qed

lemma copy_spaced:
  "set sp \<subseteq> {CHR '' ''} \<Longrightarrow> copy_loop AllFileMasksDelimiters True (sp @ x) p =
     (case copy_loop AllFileMasksDelimiters True x (p + length sp) of (r, d, p') \<Rightarrow> (sp @ r, d, p'))"
  by (induction sp arbitrary: p) (auto split: prod.split)

lemma TrimEx_spaced:
  assumes "mask_text s" "set sp \<subseteq> {CHR '' ''}"
  shows "fst (TrimEx (sp @ s) a b) = s"
proof -
  note t = mask_textD [OF assms(1)]
  have "dropWhile (\<lambda>c. c = CHR '' '') (sp @ s) = dropWhile (\<lambda>c. c = CHR '' '') s"
    using assms(2) by (intro dropWhile_append2) auto
  then have "TrimLeft (sp @ s) = TrimLeft s" by (simp add: TrimLeft_def)
  then show ?thesis using t(2,3) by (simp add: TrimEx_def Let_def)
qed

lemma CopyToChars_spaced:
  assumes "set sp \<subseteq> {CHR '' ''}"
    and "copy_loop AllFileMasksDelimiters True x (length pre + 1 + length sp) = (s, d, e)"
  shows "CopyToChars (pre @ sp @ x) (length pre + 1) AllFileMasksDelimiters False True = (sp @ s, d, e + 1)"
proof -
  have "drop (length pre + 1 - 1) (pre @ sp @ x) = sp @ x" by simp
  moreover have "copy_loop AllFileMasksDelimiters True (sp @ x) (length pre + 1) = (sp @ s, d, e)"
    unfolding copy_spaced [OF assms(1)] assms(2) prod.case ..
  ultimately show ?thesis unfolding CopyToChars_def by simp
qed

lemma copy_doubled_rest:
  assumes "r = [] \<or> (\<exists>t. r = CHR '';'' # CHR '' '' # t)"
  obtains d where "d \<noteq> CHR ''|''"
    "copy_loop AllFileMasksDelimiters True (double_delimiters s @ r) q = (s, d, q + length (double_delimiters s))"
proof (cases "r = []")
  case True
  show ?thesis
  proof (rule that [of NUL])
    show "copy_loop AllFileMasksDelimiters True (double_delimiters s @ r) q = (s, NUL, q + length (double_delimiters s))"
      unfolding True append_Nil2 by (rule copy_doubled_end)
  qed simp
next
  case False
  then obtain t where r: "r = CHR '';'' # CHR '' '' # t" using assms by blast
  show ?thesis
  proof (rule that [of "CHR '';''"])
    show "copy_loop AllFileMasksDelimiters True (double_delimiters s @ r) q = (s, CHR '';'', q + length (double_delimiters s))"
      unfolding r by (rule copy_doubled)
  qed simp
qed

text \<open>Reading one mask of a joined string.\<close>

lemma str_loop_step:
  assumes "mask_text s" "set sp \<subseteq> {CHR '' ''}" "str = pre @ sp @ double_delimiters s @ r"
    and "r = [] \<or> (\<exists>t. r = CHR '';'' # CHR '' '' # t)" "FForceDirectoryMasks fm \<le> 0" "length (FMasks fm) = 4"
  shows "\<exists>fm'. str_loop rel str False (length pre + 1) True fm =
      str_loop rel str False (length pre + 1 + length sp + length (double_delimiters s) + 1) True fm' \<and>
    FForceDirectoryMasks fm' \<le> 0 \<and> length (FMasks fm') = 4 \<and>
    map UserStr (FMasks fm' ! 0) = map UserStr (FMasks fm ! 0) @ [s] \<and> tl (FMasks fm') = tl (FMasks fm)"
proof -
  let ?n = "length pre + 1 + length sp + length (double_delimiters s) + 1"
  obtain d where d: "d \<noteq> CHR ''|''" "copy_loop AllFileMasksDelimiters True (double_delimiters s @ r) (length pre + 1 + length sp) =
      (s, d, length pre + 1 + length sp + length (double_delimiters s))"
    using copy_doubled_rest [OF assms(4)] by metis
  have copy: "CopyToChars str (length pre + 1) AllFileMasksDelimiters False True = (sp @ s, d, ?n)"
    unfolding assms(3) by (rule CopyToChars_spaced [OF assms(2) d(2)])
  obtain t st en where "TrimEx (sp @ s) (int (length pre + 1)) (int ?n - 2) = (t, st, en)"
    by (rule prod_cases3)
  then have trim: "TrimEx (sp @ s) (int (length pre + 1)) (int ?n - 2) = (s, st, en)"
    using TrimEx_spaced [OF assms(1,2), of "int (length pre + 1)" "int ?n - 2"] by (simp only: fst_conv)
  obtain fm' where fm': "CreateMask rel s st True fm = Inr fm'" "FForceDirectoryMasks fm' \<le> 0 \<and> length (FMasks fm') = 4 \<and>
      map UserStr (FMasks fm' ! 0) = map UserStr (FMasks fm ! 0) @ [s] \<and> tl (FMasks fm') = tl (FMasks fm)"
    using CreateMask_text [OF assms(1,5,6)] by blast
  have s: "s \<noteq> []" using mask_textD(1) [OF assms(1)] .
  have "0 < length (double_delimiters s)" using double_last [OF s] by simp
  then have len: "length pre + 1 \<le> length str" unfolding assms(3) length_append by linarith
  have "str_loop rel str False (length pre + 1) True fm = str_loop rel str False ?n True fm'"
    unfolding str_loop.simps [of rel str False "length pre + 1"] if_P [OF len] if_False copy prod.case trim
      if_P [OF s] fm'(1) rbind_simps if_not_P [OF d(1)] ..
  then show ?thesis using fm'(2) by blast
qed

lemma str_loop_joined:
  assumes "\<forall>s \<in> set strs. mask_text s" "strs \<noteq> []" "set sp \<subseteq> {CHR '' ''}" "str = pre @ sp @ join_masks strs"
    "FForceDirectoryMasks fm \<le> 0" "length (FMasks fm) = 4"
  shows "\<exists>fm'. str_loop rel str False (length pre + 1) True fm = Inr fm' \<and>
    map UserStr (FMasks fm' ! 0) = map UserStr (FMasks fm ! 0) @ strs \<and> tl (FMasks fm') = tl (FMasks fm)"
  using assms
proof (induction strs arbitrary: pre sp fm)
  case (Cons s strs)
  define r where "r = (if strs = [] then [] else FileMasksDelimiterStr @ join_masks strs)"
  have str: "str = pre @ sp @ double_delimiters s @ r" using Cons.prems(4) join_masks_Cons [of strs s] by (simp add: r_def)
  have r: "r = [] \<or> (\<exists>t. r = CHR '';'' # CHR '' '' # t)" by (simp add: r_def)
  have "mask_text s" using Cons.prems(1) by simp
  from str_loop_step [OF this Cons.prems(3) str r Cons.prems(5,6), of rel] obtain fm1 where
      fm1: "str_loop rel str False (length pre + 1) True fm =
        str_loop rel str False (length pre + 1 + length sp + length (double_delimiters s) + 1) True fm1"
      "FForceDirectoryMasks fm1 \<le> 0" "length (FMasks fm1) = 4" "map UserStr (FMasks fm1 ! 0) = map UserStr (FMasks fm ! 0) @ [s]"
      "tl (FMasks fm1) = tl (FMasks fm)"
    by blast
  show ?case
  proof (cases "strs = []")
    case True
    then have "str_loop rel str False (length pre + 1 + length sp + length (double_delimiters s) + 1) True fm1 = Inr fm1"
      unfolding str_loop.simps [of rel str False "length pre + 1 + length sp + length (double_delimiters s) + 1"] by (simp add: str r_def)
    then show ?thesis using fm1 True by auto
  next
    case False
    define pre' where "pre' = pre @ sp @ double_delimiters s @ '';''"
    have "str = pre' @ '' '' @ join_masks strs" using str False by (simp add: r_def pre'_def)
    from Cons.IH [OF _ False _ this fm1(2,3)] Cons.prems(1) obtain fm2 where
      "str_loop rel str False (length pre' + 1) True fm1 = Inr fm2"
      "map UserStr (FMasks fm2 ! 0) = map UserStr (FMasks fm1 ! 0) @ strs" "tl (FMasks fm2) = tl (FMasks fm1)" by auto
    moreover have "length pre' + 1 = length pre + 1 + length sp + length (double_delimiters s) + 1" by (simp add: pre'_def)
    ultimately show ?thesis using fm1 by (intro exI [of _ fm2]) simp
  qed
qed simp

lemma join_masks_snoc: "strs \<noteq> [] \<Longrightarrow> join_masks (strs @ [s]) = join_masks strs @ FileMasksDelimiterStr @ double_delimiters s"
  by (induction strs rule: join_masks.induct) simp_all

lemma join_masks_last:
  "strs \<noteq> [] \<Longrightarrow> \<forall>s \<in> set strs. mask_text s \<Longrightarrow> join_masks strs \<noteq> [] \<and> last (join_masks strs) \<noteq> CHR '' ''"
proof (induction strs rule: rev_induct)
  case (snoc s strs)
  then have "mask_text s" by simp
  then have "double_delimiters s \<noteq> [] \<and> last (double_delimiters s) \<noteq> CHR '' ''"
    using mask_textD [of s] double_last [of s] by simp
  then show ?case using join_masks_snoc [of strs s] by (cases "strs = []") auto
qed simp

lemma AddToList_not_ended:
  assumes "v \<noteq> []" "lst \<noteq> []" "last lst \<noteq> CHR '' ''"
  shows "AddToList lst v FileMasksDelimiterStr = lst @ FileMasksDelimiterStr @ v"
proof -
  have "SubString lst (Length lst - 2 + 1) 2 \<noteq> FileMasksDelimiterStr"
  proof
    assume eq: "SubString lst (Length lst - 2 + 1) 2 = FileMasksDelimiterStr"
    have "SubString lst (Length lst - 2 + 1) 2 = drop (nat (Length lst - 2)) (take (nat (Length lst - 2) + 2) lst)"
      by (simp add: SubString_conv take_drop add.commute)
    also have "\<dots> = drop (length lst - 2) lst" if "length lst \<ge> 2" using that by (simp add: Length_def nat_diff_distrib)
    finally show False
      using eq assms(2,3) last_drop [of "length lst - 2" lst]
      by (cases "length lst \<ge> 2") (auto simp: SubString_conv Length_def length_Suc_conv not_le less_Suc_eq numeral_2_eq_2)
  qed
  then show ?thesis using assms(1,2) by (simp add: AddToList_def Length_def)
qed

lemma AddToList_join:
  assumes "\<forall>s \<in> set (strs @ [s]). mask_text s"
  shows "AddToList (join_masks strs) (double_delimiters s) FileMasksDelimiterStr = join_masks (strs @ [s])"
proof -
  have "double_delimiters s \<noteq> []" using assms double_last [of s] mask_textD(1) [of s] by simp
  moreover have "join_masks strs \<noteq> [] \<and> last (join_masks strs) \<noteq> CHR '' ''" if "strs \<noteq> []"
    using join_masks_last [OF that] assms by simp
  ultimately show ?thesis
    using AddToList_not_ended [of "double_delimiters s" "join_masks strs"] join_masks_snoc [of strs s]
    by (cases "strs = []") (simp_all add: AddToList_def)
qed

lemma strip_none: "mask_text s \<Longrightarrow> strip_delimiters (double_delimiters s) = Inr (double_delimiters s)"
proof -
  assume "mask_text s"
  then have s: "double_delimiters s \<noteq> []" "last (double_delimiters s) \<notin> set DirectoryMaskDelimiters"
    using double_last [of s] mask_textD(1,7) [of s] by auto
  then have "dropWhile (\<lambda>c. c \<in> set DirectoryMaskDelimiters) (rev (double_delimiters s)) = rev (double_delimiters s)"
    by (cases "rev (double_delimiters s)") (auto simp: last_rev [symmetric] rev_swap)
  then show ?thesis using s(1) by (simp add: strip_delimiters_def Let_def)
qed

lemma compose_loop_text:
  "\<forall>s \<in> set (ts @ strs). mask_text s \<Longrightarrow>
   compose_loop False strs (join_masks ts) (join_masks ts) = Inr (join_masks (ts @ strs), join_masks (ts @ strs))"
proof (induction strs arbitrary: ts)
  case (Cons s strs)
  then have s: "mask_text s" by simp
  have add: "AddToList (join_masks ts) (double_delimiters s) FileMasksDelimiterStr = join_masks (ts @ [s])"
    using Cons.prems by (intro AddToList_join) simp
  have "compose_loop False (s # strs) (join_masks ts) (join_masks ts) =
      compose_loop False strs (join_masks (ts @ [s])) (join_masks (ts @ [s]))"
    using mask_textD(1,8) [OF s] strip_none [OF s] add by (simp only: compose_loop.simps Let_def rbind_simps) simp
  then show ?case using Cons.IH [of "ts @ [s]"] Cons.prems by simp
qed simp

lemma parse_joined:
  assumes "\<forall>s \<in> set strs. mask_text s" "FForceDirectoryMasks fm \<le> 0"
  shows "\<exists>fm'. parse_masks rel (join_masks strs) False fm = Inr fm' \<and> map UserStr (FMasks fm' ! 0) = strs \<and>
    tl (FMasks fm') = replicate 3 []"
proof (cases "strs = []")
  case True
  then show ?thesis by (simp add: parse_masks_def str_loop.simps Masks_Clear_def numeral_eq_Suc)
next
  case False
  let ?fm = "Masks_Clear (fm\<lparr>FAnyRelative := False, FStr := join_masks strs\<rparr>)"
  have "FForceDirectoryMasks ?fm \<le> 0" "length (FMasks ?fm) = 4" "FMasks ?fm ! 0 = []" "tl (FMasks ?fm) = replicate 3 []"
    using assms(2) by (simp_all add: Masks_Clear_def numeral_eq_Suc)
  then show ?thesis
    using str_loop_joined [OF assms(1) False, of "[]" "join_masks strs" "[]" ?fm rel] by (simp add: parse_masks_def)
qed

text \<open>C30: Texts of file masks, also with the delimiters of lists in them, are composed to a string from
  which exactly these texts are read back, in the same order, as masks that include files; nothing is
  excluded and no mask is for directories.\<close>

theorem ComposeMaskStr_round_trip:
  assumes "\<forall>s \<in> set strs. mask_text s" "FForceDirectoryMasks fm \<le> 0"
  shows "\<exists>str fm'. ComposeMaskStr rel strs False = Some (Inr str) \<and> SetStr rel str False fm = Some (fm', None) \<and>
    fst (GetMasksStr (MASK_INDEX False True) fm') = strs \<and> tl (FMasks fm') = replicate 3 []"
proof -
  let ?str = "join_masks strs"
  obtain fm' where fm': "parse_masks rel ?str False fm = Inr fm'" "map UserStr (FMasks fm' ! 0) = strs" "tl (FMasks fm') = replicate 3 []"
    using parse_joined [OF assms] by blast
  obtain tmp where "parse_masks rel ?str False (new_TFileMasks 0) = Inr tmp"
    using parse_joined [OF assms(1), of "new_TFileMasks 0" rel] by (auto simp: new_TFileMasks_def)
  then have "\<exists>tmp. SetMasks rel ?str (new_TFileMasks 0) = Some (tmp, None)"
    using SetStr_ok by (auto simp: SetMasks_def)
  moreover have "compose_loop False strs [] [] = Inr (?str, ?str)" using compose_loop_text [of "[]" strs] assms(1) by simp
  ultimately have "ComposeMaskStr rel strs False = Some (Inr ?str)" by (auto simp: ComposeMaskStr_def)
  moreover have "FMasksStr fm' ! 0 = None"
    using parse_masks_cached [OF fm'(1)] by simp
  ultimately show ?thesis using SetStr_ok [OF fm'(1)] fm'(2,3) by (auto simp: GetMasksStr_def MASK_INDEX_def Let_def)
qed

theorem ComposeMaskStr_round_trip_witness:
  "\<exists>str fm'. ComposeMaskStr (\<lambda>_. None) [''*.c'', ''a;b|c'', ''x/y, z''] False = Some (Inr str) \<and>
    SetStr (\<lambda>_. None) str False (new_TFileMasks 0) = Some (fm', None) \<and>
    fst (GetMasksStr (MASK_INDEX False True) fm') = [''*.c'', ''a;b|c'', ''x/y, z''] \<and> tl (FMasks fm') = replicate 3 []"
proof -
  have "\<forall>s \<in> set [''*.c'', ''a;b|c'', ''x/y, z'']. mask_text s" by code_simp
  moreover have "FForceDirectoryMasks (new_TFileMasks 0) \<le> 0" by (simp add: new_TFileMasks_def)
  ultimately show ?thesis by (rule ComposeMaskStr_round_trip)
qed

section \<open>Escaped roots\<close>

lemma escape_loop_none: "set r \<inter> set MaskSymbols = {} \<Longrightarrow> escape_loop r = r"
  by (induction r rule: escape_loop.induct) auto

lemma EscapeMask_loop: "EscapeMask r = escape_loop r"
proof (cases rule: LastDelimiter_cases [of r MaskSymbols])
  case none
  then show ?thesis using escape_loop_none [OF none(1)] by (simp add: EscapeMask_def)
next
  case (some a c b)
  then have "LastDelimiter MaskSymbols r > 0" by (simp add: Length_def)
  then show ?thesis by (simp add: EscapeMask_def)
qed

lemma CmpName_escaped:
  assumes "case_mapping up eqi" "c \<in> set MaskSymbols"
  shows "CmpName up eqi m (CHR ''['' # c # CHR '']'' # p) s \<longleftrightarrow> peek s = c \<and> CmpName up eqi m p (tl s)"
proof -
  have "up (CHR ''['') = CHR ''[''" using case_mappingD(4) [OF assms(1)] by simp
  then show ?thesis by (auto simp: CmpName.simps(2) [of up eqi m "CHR ''[''"] Let_def peek_def [of "CHR '']'' # p"])
qed

lemma CmpName_dot_more:
  assumes "case_mapping up eqi" "NUL \<notin> set s" "\<not> CmpName up eqi m p []"
  shows "CmpName up eqi m (CHR ''.'' # p) s \<longleftrightarrow> (\<exists>t. s = CHR ''.'' # t \<and> CmpName up eqi m p t)"
proof -
  have up: "up (CHR ''.'') = CHR ''.''" "up NUL = NUL"
    using case_mappingD(1) [OF assms(1), of NUL] case_mappingD(5) [OF assms(1), of "CHR ''.''"] by simp_all
  have "up d \<noteq> NUL" "up d = CHR ''.'' \<longleftrightarrow> d = CHR ''.''" if "s = d # t" for d t
    using case_mappingD(1,5) [OF assms(1), of d] assms(2) that by auto
  then show ?thesis
    using assms(3) up by (cases s) (auto simp: CmpName.simps(2) [of up eqi m "CHR ''.''"] Let_def peek_def)
qed

lemma in_set_MaskSymbols:
  assumes "c \<in> set MaskSymbols"
  obtains "c = CHR ''?''" | "c = CHR ''*''" | "c = CHR ''[''"
  using assms by auto

lemma CmpName_escape_loop:
  assumes "case_mapping up eqi"
  shows "r \<noteq> [] \<Longrightarrow> last r = Slash \<Longrightarrow> NUL \<notin> set r \<Longrightarrow> NUL \<notin> set s \<Longrightarrow>
    CmpName up eqi m (escape_loop r) s \<longleftrightarrow> map up s = map up r"
proof (induction r arbitrary: s rule: escape_loop.induct)
  case (2 c)
  then show ?case using CmpName_literals [OF assms, of s "[c]" m] by simp
next
  case (3 c d r)
  have IH: "CmpName up eqi m (escape_loop (d # r)) t \<longleftrightarrow> map up t = map up (d # r)" if "NUL \<notin> set t" for t
  proof (cases "c \<in> set MaskSymbols")
    case True
    show ?thesis using "3.prems" that by (intro "3.IH"(1) [OF True]) simp_all
  next
    case False
    show ?thesis using "3.prems" that by (intro "3.IH"(2) [OF False]) simp_all
  qed
  note up = case_mappingD [OF assms]
  consider "c \<in> set MaskSymbols" | "c = CHR ''.''" | "c \<notin> set (NUL # ''*?[.'')" using "3.prems"(3) by auto
  then have "CmpName up eqi m (escape_loop (c # d # r)) s \<longleftrightarrow>
    (\<exists>e t. s = e # t \<and> up e = up c \<and> CmpName up eqi m (escape_loop (d # r)) t)"
  proof cases
    case 1
    then have "up e = c \<longleftrightarrow> e = c" for e using up(2-4) [of e] by (elim in_set_MaskSymbols) simp_all
    then have e: "up e = up c \<longleftrightarrow> e = c" for e by metis
    have "c \<noteq> NUL" using 1 by auto
    then have "(peek s = c \<and> CmpName up eqi m (escape_loop (d # r)) (tl s)) \<longleftrightarrow>
        (\<exists>t. s = c # t \<and> CmpName up eqi m (escape_loop (d # r)) t)"
      by (cases s) (auto simp: peek_def)
    then show ?thesis using 1 CmpName_escaped [OF assms 1, of m "escape_loop (d # r)" s] unfolding e by simp
  next
    case 2
    have e: "up e = up c \<longleftrightarrow> e = CHR ''.''" for e using 2 up(5) [of c] up(5) [of e] by simp
    have "\<not> CmpName up eqi m (escape_loop (d # r)) []" using IH [of "[]"] by simp
    from CmpName_dot_more [OF assms "3.prems"(4) this] show ?thesis unfolding e using 2 by simp
  next
    case 3
    then have "c \<notin> set MaskSymbols" by auto
    then show ?thesis using CmpName_literal [OF assms 3 "3.prems"(4), of m "escape_loop (d # r)"] by simp
  qed
  also have "\<dots> \<longleftrightarrow> map up s = map up (c # d # r)"
  proof (cases s)
    case (Cons e t)
    then have "NUL \<notin> set t" using "3.prems"(4) by simp
    then show ?thesis using IH [of t] Cons by simp
  qed simp
  finally show ?case .
qed simp

text \<open>C31: A root directory that is escaped for a mask, with the slash at its end that \<open>SetRoots\<close> adds,
  matches exactly itself without regard to case, whatever wildcards and brackets its name contains.\<close>

theorem EscapeMask_literal:
  assumes "case_mapping up eqi" "r = UnixIncludeTrailingBackslash root" "root \<noteq> []" "NUL \<notin> set r" "NUL \<notin> set s"
  shows "Mask_Matches up eqi (EscapeMask r) s \<longleftrightarrow> map up s = map up r"
proof -
  have "r \<noteq> []" "last r = Slash" using assms(2,3) by (auto simp: UnixInclude_conv)
  then show ?thesis using CmpName_escape_loop [OF assms(1), of r s False] assms(4,5) by (simp add: Mask_Matches_def EscapeMask_loop)
qed

theorem EscapeMask_literal_witness:
  "\<not> Mask_Matches ascii_up (\<lambda>a b. map ascii_up a = map ascii_up b) (EscapeMask (UnixIncludeTrailingBackslash ''/a*[1]'')) ''/ab1/'' \<and>
   Mask_Matches ascii_up (\<lambda>a b. map ascii_up a = map ascii_up b) (EscapeMask (UnixIncludeTrailingBackslash ''/a*[1]'')) ''/A*[1]/''"
proof -
  have r: "UnixIncludeTrailingBackslash ''/a*[1]'' = ''/a*[1]/''" by code_simp
  have "map ascii_up ''/ab1/'' \<noteq> map ascii_up ''/a*[1]/''" "map ascii_up ''/A*[1]/'' = map ascii_up ''/a*[1]/''" by code_simp+
  then show ?thesis
    using EscapeMask_literal [OF case_mapping_ascii refl, of "''/a*[1]''" "''/ab1/''"]
      EscapeMask_literal [OF case_mapping_ascii refl, of "''/a*[1]''" "''/A*[1]/''"] unfolding r by simp
qed

section \<open>Directories below a match\<close>

text \<open>The absolute path of the directory with the given names from the root on.\<close>

definition unix_dir :: "ustring list \<Rightarrow> ustring" where
  "unix_dir cs = (if cs = [] then ROOTDIRECTORY else concat (map (\<lambda>c. Slash # c) cs))"

definition dir_name :: "ustring \<Rightarrow> bool" where
  "dir_name c \<longleftrightarrow> c \<noteq> [] \<and> Slash \<notin> set c"

lemma unix_dir_snoc: "unix_dir (cs @ [c]) = concat (map (\<lambda>c. Slash # c) cs) @ Slash # c"
  by (simp add: unix_dir_def)

lemma unix_dir_root: "IsUnixRootPath (unix_dir [])"
  by (simp add: unix_dir_def IsUnixRootPath_def)

lemma unix_dir_step:
  assumes "dir_name c"
  shows "\<not> IsUnixRootPath (unix_dir (cs @ [c]))" "UnixExtractFileName (unix_dir (cs @ [c])) = c"
    "parent_path (unix_dir (cs @ [c])) = unix_dir cs"
proof -
  let ?a = "concat (map (\<lambda>c. Slash # c) cs)"
  have c: "c \<noteq> []" "Slash \<notin> set c" using assms by (auto simp: dir_name_def)
  show "\<not> IsUnixRootPath (unix_dir (cs @ [c]))" unfolding unix_dir_snoc using c(1) by (cases ?a) (auto simp: IsUnixRootPath_def)
  have "LastDelimiter SLASH (?a @ Slash # c) = Length ?a + 1" using c by (intro LastDelimiter_split) auto
  then show "UnixExtractFileName (unix_dir (cs @ [c])) = c"
    unfolding unix_dir_snoc by (simp add: UnixExtractFileName_def ustring_simps Length_def nat_add_distrib)
  have "?a = [] \<longleftrightarrow> cs = []" by auto
  then show "parent_path (unix_dir (cs @ [c])) = unix_dir cs"
    unfolding unix_dir_snoc parent_path_split [OF c(2)] by (simp add: unix_dir_def)
qed

text \<open>C32: A directory on an absolute path is included explicitly exactly when one of the masks matches it
  or one of the directories it is in, up to those in the root: what is below an included directory is
  included with it.\<close>

theorem directory_included_with_parent:
  assumes "\<forall>d \<in> set cs. dir_name d"
  shows "MatchesMasks up eqi c isLocal True (unix_dir cs) params masks True \<longleftrightarrow>
    (\<exists>k \<le> length cs. \<exists>m \<in> set masks. matches_one up eqi ((cs @ [c]) ! k) isLocal (unix_dir (take k cs)) params m)"
  using assms
proof (induction cs arbitrary: c rule: rev_induct)
  case Nil
  then show ?case by (subst MatchesMasks.simps) (simp add: unix_dir_root list_ex_iff)
next
  case (snoc d cs)
  let ?any = "\<lambda>c path. \<exists>m \<in> set masks. matches_one up eqi c isLocal path params m"
  have d: "dir_name d" using snoc.prems by simp
  have "MatchesMasks up eqi c isLocal True (unix_dir (cs @ [d])) params masks True \<longleftrightarrow>
      ?any c (unix_dir (cs @ [d])) \<or> MatchesMasks up eqi d isLocal True (unix_dir cs) params masks True"
    by (subst MatchesMasks.simps) (simp add: unix_dir_step [OF d] list_ex_iff)
  also have "\<dots> \<longleftrightarrow> ?any c (unix_dir (cs @ [d])) \<or> (\<exists>k \<le> length cs. ?any ((cs @ [d]) ! k) (unix_dir (take k cs)))"
    using snoc by simp
  also have "\<dots> \<longleftrightarrow> (\<exists>k \<le> length (cs @ [d]). ?any (((cs @ [d]) @ [c]) ! k) (unix_dir (take k (cs @ [d]))))"
  proof -
    have "((cs @ [d]) @ [c]) ! k = (cs @ [d]) ! k" "take k (cs @ [d]) = take k cs" if "k \<le> length cs" for k
      using that by (simp_all add: nth_append)
    moreover have "((cs @ [d]) @ [c]) ! Suc (length cs) = c" "take (Suc (length cs)) (cs @ [d]) = cs @ [d]"
      by (simp_all add: nth_append)
    moreover have "length (cs @ [d]) = Suc (length cs)" by simp
    moreover have "(\<exists>k \<le> Suc n. P k) \<longleftrightarrow> P (Suc n) \<or> (\<exists>k \<le> n. P k)" for P n by (auto simp: le_Suc_eq)
    ultimately show ?thesis by (simp only: cong: conj_cong)
  qed
  finally show ?case .
qed

text \<open>A directory three levels below one that the mask names, and one elsewhere.\<close>

theorem directory_included_with_parent_witness:
  "\<exists>fm. SetStr (\<lambda>_. None) ''/src/'' False (new_TFileMasks (-1)) = Some (fm, None) \<and>
    MatchesMasks ascii_up (\<lambda>a b. map ascii_up a = map ascii_up b) ''c'' False True (unix_dir [''src'', ''a'', ''b'']) None (FMasks fm ! 2) True"
proof -
  let ?eqi = "\<lambda>a b. map ascii_up a = map ascii_up b"
  let ?fm = "case parse_masks (\<lambda>_. None) ''/src/'' False (new_TFileMasks (-1)) of Inr fm \<Rightarrow> fm | Inl _ \<Rightarrow> Masks_Init"
  have fm: "parse_masks (\<lambda>_. None) ''/src/'' False (new_TFileMasks (-1)) = Inr ?fm" by code_simp
  have "\<forall>d \<in> set [''src'', ''a'', ''b'']. dir_name d" by code_simp
  note incl = directory_included_with_parent [OF this, of ascii_up ?eqi "''c''" False None "FMasks ?fm ! 2"]
  have "list_ex (matches_one ascii_up ?eqi ''src'' False (unix_dir []) None) (FMasks ?fm ! 2)" by code_simp
  then have "MatchesMasks ascii_up ?eqi ''c'' False True (unix_dir [''src'', ''a'', ''b'']) None (FMasks ?fm ! 2) True"
    unfolding incl by (intro exI [of _ 0]) (simp add: list_ex_iff)
  then show ?thesis using SetStr_ok [OF fm] by blast
qed

end
