(* ===== verification/Security.thy ===== *)
theory Security
  imports Masks
begin

text \<open>
  The encoding of stored passwords, \<open>src/core/WinSCPSecurity.cpp\<close>, with \<open>Random\<close> of
  \<open>src/base/Sysutils.cpp\<close> and the hexadecimal encoding of \<open>src/base/Common.cpp\<close>. Byte strings are
  lists of characters. The conversions between text and UTF-8 are functions of the operating system and
  parameters, \<open>utf8\<close> and \<open>unicode\<close>. The generator of random numbers is a parameter as well: \<open>rnd i\<close> is
  the number it draws at its \<open>i\<close>-th call, at least zero and less than \<open>2 ^ 31\<close>. The certificate check
  of the file calls the operating system and is not modelled.
\<close>

unbundle bit_operations_syntax

section \<open>Characters\<close>

abbreviation (input) PWALG_SIMPLE_MAGIC :: int where "PWALG_SIMPLE_MAGIC \<equiv> 0xA3"
abbreviation (input) PWALG_SIMPLE_MAXLEN :: int where "PWALG_SIMPLE_MAXLEN \<equiv> 50"
abbreviation (input) PWALG_SIMPLE_FLAG :: u8 where "PWALG_SIMPLE_FLAG \<equiv> 0xFF"
abbreviation (input) PWALG_SIMPLE_INTERNAL :: u8 where "PWALG_SIMPLE_INTERNAL \<equiv> 0"
abbreviation (input) PWALG_SIMPLE_EXTERNAL :: u8 where "PWALG_SIMPLE_EXTERNAL \<equiv> 1"
abbreviation (input) PWALG_SIMPLE_INTERNAL2 :: u8 where "PWALG_SIMPLE_INTERNAL2 \<equiv> 2"

definition PWALG_SIMPLE_STRING :: ustring where
  "PWALG_SIMPLE_STRING = ''0123456789ABCDEF''"

definition byte_of :: "char \<Rightarrow> u8" where
  "byte_of c = word_of_nat (code c)"

definition char_of_byte :: "u8 \<Rightarrow> char" where
  "char_of_byte b = char_of (unat b)"

definition hex_pair :: "u8 \<Rightarrow> ustring" where
  "hex_pair b = [PWALG_SIMPLE_STRING ! unat (drop_bit 4 (b AND 0xF0)), PWALG_SIMPLE_STRING ! unat (b AND 0x0F)]"

definition SimpleEncryptChar :: "u8 \<Rightarrow> ustring" where
  "SimpleEncryptChar ch = hex_pair (NOT ch XOR word_of_int PWALG_SIMPLE_MAGIC)"

text \<open>The value of the next character and the rest of the string.\<close>

definition SimpleDecryptNextChar :: "ustring \<Rightarrow> u8 \<times> ustring" where
  "SimpleDecryptNextChar str =
     (case str of
        a # b # _ \<Rightarrow>
          (word_of_int (NOT ((push_bit 4 (Pos_char PWALG_SIMPLE_STRING a - 1) + (Pos_char PWALG_SIMPLE_STRING b - 1)) XOR
             PWALG_SIMPLE_MAGIC)),
           Delete str 1 2)
      | _ \<Rightarrow> (0, str))"

section \<open>Passwords\<close>

definition Random :: "int \<Rightarrow> int \<Rightarrow> int" where
  "Random draw m = draw div ((2 ^ 31 - 1) div m)"

definition random_char :: "(nat \<Rightarrow> int) \<Rightarrow> nat \<Rightarrow> ustring" where
  "random_char rnd i = SimpleEncryptChar (word_of_int (Random (rnd i) 256))"

lemma length_encrypted [simp]: "length (SimpleEncryptChar c) = 2" "length (random_char rnd i) = 2"
  by (simp_all add: SimpleEncryptChar_def hex_pair_def random_char_def)

fun shift_loop :: "(nat \<Rightarrow> int) \<Rightarrow> nat \<Rightarrow> nat \<Rightarrow> ustring \<Rightarrow> ustring" where
  "shift_loop rnd i 0 result = result"
| "shift_loop rnd i (Suc n) result = shift_loop rnd (Suc i) n (result @ random_char rnd i)"

function pad_loop :: "(nat \<Rightarrow> int) \<Rightarrow> nat \<Rightarrow> ustring \<Rightarrow> ustring" where
  "pad_loop rnd i result =
     (if Length result < PWALG_SIMPLE_MAXLEN * 2 then pad_loop rnd (Suc i) (result @ random_char rnd i) else result)"
  by pat_completeness auto
termination
  by (relation "measure (\<lambda>(_, _, result). 100 - length result)") (auto simp: Length_def)

declare pad_loop.simps [simp del]

definition EncryptPassword :: "(ustring \<Rightarrow> ustring) \<Rightarrow> (nat \<Rightarrow> int) \<Rightarrow> ustring \<Rightarrow> ustring \<Rightarrow> ustring" where
  "EncryptPassword utf8 rnd unicodePassword unicodeKey =
     (let password = utf8 unicodeKey @ utf8 unicodePassword;
          len = Length password;
          result = SimpleEncryptChar PWALG_SIMPLE_FLAG;
          result =
            (if len > 255 then
               result @ SimpleEncryptChar PWALG_SIMPLE_INTERNAL2 @ SimpleEncryptChar (word_of_int (drop_bit 8 len)) @
                 SimpleEncryptChar (word_of_int (len AND 0xFF))
             else result @ SimpleEncryptChar PWALG_SIMPLE_INTERNAL @ SimpleEncryptChar (word_of_int len));
          dataLen = Length result div 2 + 1 + Length password;
          (shift, i) = (if dataLen < PWALG_SIMPLE_MAXLEN then (Random (rnd 0) (PWALG_SIMPLE_MAXLEN - dataLen), 1) else (0, 0));
          result = result @ SimpleEncryptChar (word_of_int shift);
          result = shift_loop rnd i (nat shift) result;
          result = result @ concat (map (\<lambda>c. SimpleEncryptChar (byte_of c)) password)
      in pad_loop rnd (i + nat shift) result)"

fun decrypt_loop :: "nat \<Rightarrow> ustring \<Rightarrow> ustring" where
  "decrypt_loop 0 password = []"
| "decrypt_loop (Suc n) password =
     (case SimpleDecryptNextChar password of (b, password) \<Rightarrow> char_of_byte b # decrypt_loop n password)"

text \<open>
  The two bytes of a long length are read by two operands of one addition, whose order the language
  leaves open; \<open>leftFirst\<close> is the choice of the compiler. The length \<open>-1\<close> is \<open>None\<close>.
\<close>

definition read_length :: "bool \<Rightarrow> u8 \<Rightarrow> ustring \<Rightarrow> int option \<times> ustring" where
  "read_length leftFirst flag password =
     (if flag = PWALG_SIMPLE_FLAG then
        (case SimpleDecryptNextChar password of (version, password) \<Rightarrow>
           if version = PWALG_SIMPLE_INTERNAL then
             (case SimpleDecryptNextChar password of (b, password) \<Rightarrow> (Some (uint b), password))
           else if version = PWALG_SIMPLE_INTERNAL2 then
             (case SimpleDecryptNextChar password of (b1, password) \<Rightarrow>
              case SimpleDecryptNextChar password of (b2, password) \<Rightarrow>
                (Some (if leftFirst then push_bit 8 (uint b1) + uint b2 else push_bit 8 (uint b2) + uint b1), password))
           else (None, password))
      else (Some (uint flag), password))"

definition DecryptPassword ::
  "(ustring \<Rightarrow> ustring) \<Rightarrow> (ustring \<Rightarrow> ustring) \<Rightarrow> bool \<Rightarrow> ustring \<Rightarrow> ustring \<Rightarrow> ustring" where
  "DecryptPassword utf8 unicode leftFirst password unicodeKey =
     (case SimpleDecryptNextChar password of (flag, password) \<Rightarrow>
        (case read_length leftFirst flag password of
           (None, _) \<Rightarrow> unicode []
         | (Some len, password) \<Rightarrow>
             (case SimpleDecryptNextChar password of (shift, password) \<Rightarrow>
                let password = Delete password 1 (uint shift * 2);
                    result = decrypt_loop (nat len) password
                in unicode
                     (if flag = PWALG_SIMPLE_FLAG then
                        (let key = utf8 unicodeKey
                         in if SubString result 1 (Length key) \<noteq> key then [] else Delete result 1 (Length key))
                      else result))))"

section \<open>Passwords encrypted elsewhere\<close>

definition ByteToHex :: "u8 \<Rightarrow> bool \<Rightarrow> ustring" where
  "ByteToHex b upperCase =
     (let digits = (if upperCase then ''0123456789ABCDEF'' else ''0123456789abcdef'')
      in [digits ! unat (drop_bit 4 (b AND 0xF0)), digits ! unat (b AND 0x0F)])"

fun BytesToHex :: "u8 list \<Rightarrow> bool \<Rightarrow> char \<Rightarrow> ustring" where
  "BytesToHex [] upperCase separator = []"
| "BytesToHex (b # bs) upperCase separator =
     ByteToHex b upperCase @ (if separator \<noteq> NUL \<and> bs \<noteq> [] then [separator] else []) @ BytesToHex bs upperCase separator"

text \<open>\<open>towupper\<close> of the C library, in the locale it starts with.\<close>

definition hex_UpCase :: "char \<Rightarrow> char" where
  "hex_UpCase c = ascii_up c"

fun hex_loop :: "ustring \<Rightarrow> ustring \<Rightarrow> ustring" where
  "hex_loop (a # b # hex) result =
     (let p1 = Pos_char PWALG_SIMPLE_STRING (hex_UpCase a); p2 = Pos_char PWALG_SIMPLE_STRING (hex_UpCase b)
      in if p1 \<le> 0 \<or> p2 \<le> 0 then []
         else hex_loop hex (result @ [char_of_byte (word_of_int ((p1 - 1) * 16 + p2 - 1))]))"
| "hex_loop _ result = result"

definition HexToBytes :: "ustring \<Rightarrow> ustring" where
  "HexToBytes hex = (if Length hex mod 2 = 0 then hex_loop hex [] else [])"

definition HexToByte :: "ustring \<Rightarrow> u8 option" where
  "HexToByte hex =
     (case hex of
        a # b # _ \<Rightarrow>
          (let p1 = Pos_char PWALG_SIMPLE_STRING (hex_UpCase a); p2 = Pos_char PWALG_SIMPLE_STRING (hex_UpCase b)
           in Some (if p1 \<le> 0 \<or> p2 \<le> 0 then 0 else word_of_int (push_bit 4 (p1 - 1) + (p2 - 1))))
      | _ \<Rightarrow> None)"

definition SetExternalEncryptedPassword :: "(ustring \<Rightarrow> ustring) \<Rightarrow> ustring \<Rightarrow> ustring" where
  "SetExternalEncryptedPassword utf8 password =
     SimpleEncryptChar PWALG_SIMPLE_FLAG @ SimpleEncryptChar PWALG_SIMPLE_EXTERNAL @
     utf8 (BytesToHex (map byte_of password) True NUL)"

text \<open>\<open>None\<close> is the result false, with which the password is not assigned.\<close>

definition GetExternalEncryptedPassword :: "(ustring \<Rightarrow> ustring) \<Rightarrow> ustring \<Rightarrow> ustring option" where
  "GetExternalEncryptedPassword unicode encrypted =
     (case SimpleDecryptNextChar encrypted of (flag, encrypted) \<Rightarrow>
        if flag = PWALG_SIMPLE_FLAG then
          (case SimpleDecryptNextChar encrypted of (version, encrypted) \<Rightarrow>
             if version = PWALG_SIMPLE_EXTERNAL then Some (HexToBytes (unicode encrypted)) else None)
        else None)"

section \<open>Decoding undoes encoding\<close>

lemma Pos_digit: "n < 16 \<Longrightarrow> Pos_char PWALG_SIMPLE_STRING (PWALG_SIMPLE_STRING ! n) = int n + 1"
proof -
  have "\<forall>n \<in> set [0..<16]. Pos_char PWALG_SIMPLE_STRING (PWALG_SIMPLE_STRING ! n) = int n + 1" by code_simp
  then show "n < 16 \<Longrightarrow> ?thesis" by simp
qed

lemma low_nibble: "uint ((b :: u8) AND 0x0F) = uint b mod 16"
proof -
  have "uint (b AND 0x0F) = uint b AND mask 4" by (simp add: unsigned_and_eq mask_numeral)
  then show ?thesis by (simp add: take_bit_eq_mask [symmetric] take_bit_eq_mod)
qed

lemma high_nibble: "uint (drop_bit 4 ((b :: u8) AND 0xF0)) = uint b div 16"
proof -
  have "take_bit 8 (uint b) = uint b" using uint_lt2p [of b] by (simp add: take_bit_int_eq_self)
  then have "uint (drop_bit 4 (b AND 0xF0)) = drop_bit 4 (uint b) AND mask 4"
    by (simp add: unsigned_drop_bit_eq unsigned_and_eq drop_bit_and mask_numeral)
  also have "\<dots> = uint b div 16 mod 16" by (simp add: take_bit_eq_mask [symmetric] take_bit_eq_mod drop_bit_eq_div)
  also have "\<dots> = uint b div 16"
  proof (rule mod_pos_pos_trivial)
    show "0 \<le> uint b div 16" by (simp add: pos_imp_zdiv_nonneg_iff)
    show "uint b div 16 < 16" using uint_lt2p [of b] by simp
  qed
  finally show ?thesis .
qed

lemma nibble_bounds: "unat (drop_bit 4 ((b :: u8) AND 0xF0)) < 16" "unat (b AND 0x0F) < 16"
proof -
  have "uint b < 256" using uint_lt2p [of b] by simp
  then show "unat (drop_bit 4 (b AND 0xF0)) < 16" unfolding unat_eq_nat_uint high_nibble by linarith
  show "unat (b AND 0x0F) < 16" unfolding unat_eq_nat_uint low_nibble by simp
qed

lemma hex_pair_digits:
  "\<exists>x y. hex_pair b = [x, y] \<and> Pos_char PWALG_SIMPLE_STRING x - 1 = uint b div 16 \<and> Pos_char PWALG_SIMPLE_STRING y - 1 = uint b mod 16 \<and>
     x \<in> set PWALG_SIMPLE_STRING \<and> y \<in> set PWALG_SIMPLE_STRING"
proof -
  have len: "length PWALG_SIMPLE_STRING = 16" by code_simp
  have "int (unat (drop_bit 4 (b AND 0xF0))) = uint b div 16" "int (unat (b AND 0x0F)) = uint b mod 16"
    unfolding uint_nat [symmetric] high_nibble low_nibble by rule+
  then have "Pos_char PWALG_SIMPLE_STRING (PWALG_SIMPLE_STRING ! unat (drop_bit 4 (b AND 0xF0))) - 1 = uint b div 16"
    "Pos_char PWALG_SIMPLE_STRING (PWALG_SIMPLE_STRING ! unat (b AND 0x0F)) - 1 = uint b mod 16"
    unfolding Pos_digit [OF nibble_bounds(1)] Pos_digit [OF nibble_bounds(2)] by linarith+
  then show ?thesis
    using nth_mem [of _ PWALG_SIMPLE_STRING] nibble_bounds [of b] unfolding hex_pair_def len by blast
qed

lemma decrypt_next [simp]: "SimpleDecryptNextChar (SimpleEncryptChar c @ rest) = (c, rest)"
proof -
  let ?b = "NOT c XOR word_of_int PWALG_SIMPLE_MAGIC"
  obtain x y where xy: "SimpleEncryptChar c = [x, y]" "Pos_char PWALG_SIMPLE_STRING x - 1 = uint ?b div 16"
      "Pos_char PWALG_SIMPLE_STRING y - 1 = uint ?b mod 16"
    unfolding SimpleEncryptChar_def using hex_pair_digits [of ?b] by blast
  have "push_bit 4 (uint ?b div 16) + uint ?b mod 16 = uint ?b" by (simp add: push_bit_eq_mult)
  moreover have "word_of_int (NOT (uint ?b XOR PWALG_SIMPLE_MAGIC)) = c"
    by (rule bit_word_eqI) (auto simp: bit_simps)
  ultimately show ?thesis by (simp add: SimpleDecryptNextChar_def xy Delete_conv)
qed

lemma decrypt_next_end [simp]: "SimpleDecryptNextChar (SimpleEncryptChar c) = (c, [])"
  using decrypt_next [of c "[]"] by simp

lemma char_of_byte_of [simp]: "char_of_byte (byte_of c) = c"
proof -
  have "of_char c mod 256 < (256 :: nat)" by simp
  then have "code c < 256" by (simp only: of_char_mod_256 code_def)
  then have "unat (byte_of c) = code c" by (simp add: byte_of_def unsigned_of_nat take_bit_nat_eq_self)
  then show ?thesis by (simp add: char_of_byte_def code_def)
qed

lemma shift_loop_append: "shift_loop rnd i n r = r @ concat (map (random_char rnd) [i..<i + n])"
proof (induction n arbitrary: i r)
  case (Suc n)
  then show ?case by (simp add: upt_conv_Cons del: upt_Suc)
qed simp

lemma length_random_chars: "length (concat (map (random_char rnd) is)) = 2 * length is"
  by (induction "is") simp_all

lemma pad_loop_append: "\<exists>t. pad_loop rnd i r = r @ t"
proof (induction rnd i r rule: pad_loop.induct)
  case (1 rnd i r)
  then show ?case
    unfolding pad_loop.simps [of rnd i r] by (cases "Length r < PWALG_SIMPLE_MAXLEN * 2") (auto simp del: append_assoc simp: append_assoc)
qed

lemma decrypt_loop_encrypted:
  "decrypt_loop (length p) (concat (map (\<lambda>c. SimpleEncryptChar (byte_of c)) p) @ t) = p"
  by (induction p) simp_all

lemma div_div_le:
  assumes "0 < (m :: int)" "m \<le> a div m" "d \<le> a"
  shows "d div (a div m) \<le> m"
proof -
  define q where "q = a div m"
  have "a = m * q + a mod m" "a mod m < m" using assms(1) by (simp_all add: q_def)
  moreover have "m \<le> q" using assms(2) by (simp add: q_def)
  ultimately have "d < m * q + q" using assms(3) by linarith
  also have "m * q + q = (m + 1) * q" by (simp add: distrib_right)
  finally have "d < (m + 1) * q" .
  moreover have "0 < q" using assms(1) \<open>m \<le> q\<close> by linarith
  moreover have "d div q * q \<le> d" using div_mult_mod_eq [of d q] pos_mod_sign [OF \<open>0 < q\<close>, of d] by linarith
  ultimately have "\<not> (m + 1) * q \<le> d div q * q" by linarith
  then have "\<not> m + 1 \<le> d div q" using mult_right_mono [of "m + 1" "d div q" q] \<open>0 < q\<close> by linarith
  then have "d div q \<le> m" by linarith
  then show ?thesis by (simp add: q_def)
qed

lemma Random_bounds:
  assumes "0 \<le> draw" "draw < 2 ^ 31" "0 < m" "m \<le> 256"
  shows "0 \<le> Random draw m" "Random draw m \<le> m"
proof -
  have q: "256 \<le> (2 ^ 31 - 1) div m" using zdiv_mono2 [of "2 ^ 31 - 1" m 256] assms(3,4) by simp
  then show "0 \<le> Random draw m" using assms(1) unfolding Random_def by (simp add: pos_imp_zdiv_nonneg_iff)
  have "m \<le> (2 ^ 31 - 1) div m" "draw \<le> 2 ^ 31 - 1" using q assms(2,4) by linarith+
  then show "Random draw m \<le> m" unfolding Random_def using div_div_le [OF assms(3)] by blast
qed

lemma shift_bounds:
  assumes "0 \<le> dataLen" "0 \<le> draw" "draw < 2 ^ 31"
    "(if dataLen < PWALG_SIMPLE_MAXLEN then (Random draw (PWALG_SIMPLE_MAXLEN - dataLen), k) else (0, l)) = (shift, i)"
  shows "0 \<le> shift \<and> shift \<le> 50"
proof (cases "dataLen < PWALG_SIMPLE_MAXLEN")
  case True
  then show ?thesis using Random_bounds [OF assms(2,3), of "PWALG_SIMPLE_MAXLEN - dataLen"] assms(1,4) by simp
next
  case False
  then show ?thesis using assms(4) by simp
qed

text \<open>The parts of an encoded password: its length, a shift of random characters, the bytes, and random characters.\<close>

definition length_part :: "int \<Rightarrow> ustring" where
  "length_part len =
     (if len > 255 then SimpleEncryptChar PWALG_SIMPLE_INTERNAL2 @ SimpleEncryptChar (word_of_int (drop_bit 8 len)) @
        SimpleEncryptChar (word_of_int (len AND 0xFF))
      else SimpleEncryptChar PWALG_SIMPLE_INTERNAL @ SimpleEncryptChar (word_of_int len))"

lemma EncryptPassword_steps:
  fixes utf8 :: "ustring \<Rightarrow> ustring"
  assumes "p = utf8 key @ utf8 pw" "result = SimpleEncryptChar PWALG_SIMPLE_FLAG @ length_part (Length p)"
    "dataLen = Length result div 2 + 1 + Length p"
    "(if dataLen < PWALG_SIMPLE_MAXLEN then (Random (rnd 0) (PWALG_SIMPLE_MAXLEN - dataLen), 1) else (0, 0)) = (shift, i)"
  shows "EncryptPassword utf8 rnd pw key = pad_loop rnd (i + nat shift) (result @ SimpleEncryptChar (word_of_int shift) @
    concat (map (random_char rnd) [i..<i + nat shift]) @ concat (map (\<lambda>c. SimpleEncryptChar (byte_of c)) p))"
proof -
  have r: "(if Length p > 255 then
         SimpleEncryptChar PWALG_SIMPLE_FLAG @ SimpleEncryptChar PWALG_SIMPLE_INTERNAL2 @
           SimpleEncryptChar (word_of_int (drop_bit 8 (Length p))) @ SimpleEncryptChar (word_of_int (Length p AND 0xFF))
       else SimpleEncryptChar PWALG_SIMPLE_FLAG @ SimpleEncryptChar PWALG_SIMPLE_INTERNAL @ SimpleEncryptChar (word_of_int (Length p))) =
      result"
    by (simp add: length_part_def assms(2))
  show ?thesis
    unfolding EncryptPassword_def Let_def assms(1) [symmetric] r assms(3) [symmetric] assms(4) prod.case shift_loop_append append_assoc ..
qed

lemma EncryptPassword_start:
  fixes utf8 :: "ustring \<Rightarrow> ustring"
  shows "\<exists>x. EncryptPassword utf8 rnd pw key = SimpleEncryptChar PWALG_SIMPLE_FLAG @ length_part (Length (utf8 key @ utf8 pw)) @ x"
proof -
  define p result dataLen where d: "p = utf8 key @ utf8 pw" "result = SimpleEncryptChar PWALG_SIMPLE_FLAG @ length_part (Length p)"
    "dataLen = Length result div 2 + 1 + Length p"
  obtain shift i where s: "(if dataLen < PWALG_SIMPLE_MAXLEN then (Random (rnd 0) (PWALG_SIMPLE_MAXLEN - dataLen), 1) else (0, 0)) =
      (shift, i :: nat)" by (meson surj_pair)
  obtain t where "EncryptPassword utf8 rnd pw key = (result @ SimpleEncryptChar (word_of_int shift) @
      concat (map (random_char rnd) [i..<i + nat shift]) @ concat (map (\<lambda>c. SimpleEncryptChar (byte_of c)) p)) @ t"
    using EncryptPassword_steps [of p utf8 key pw result dataLen rnd shift i, OF d s] pad_loop_append by metis
  then show ?thesis unfolding d(2) d(1) append_assoc by blast
qed

lemma EncryptPassword_parts:
  assumes "\<forall>i. 0 \<le> rnd i \<and> rnd i < 2 ^ 31" "p = utf8 key @ utf8 pw"
  shows "\<exists>n r t. EncryptPassword utf8 rnd pw key = SimpleEncryptChar PWALG_SIMPLE_FLAG @ length_part (Length p) @
    SimpleEncryptChar (word_of_int (int n)) @ r @ concat (map (\<lambda>c. SimpleEncryptChar (byte_of c)) p) @ t \<and>
    length r = 2 * n \<and> n < 256"
proof -
  let ?result = "SimpleEncryptChar PWALG_SIMPLE_FLAG @ length_part (Length p)"
  let ?dataLen = "Length ?result div 2 + 1 + Length p"
  obtain shift i where s: "(if ?dataLen < PWALG_SIMPLE_MAXLEN then (Random (rnd 0) (PWALG_SIMPLE_MAXLEN - ?dataLen), 1) else (0, 0)) =
      (shift, i :: nat)" by (meson surj_pair)
  have "0 \<le> ?dataLen" by (simp add: Length_def length_part_def)
  then have shift: "0 \<le> shift" "shift \<le> 50" using shift_bounds [OF _ _ _ s] assms(1) by auto
  let ?r = "concat (map (random_char rnd) [i..<i + nat shift])"
  let ?all = "?result @ SimpleEncryptChar (word_of_int shift) @ ?r @ concat (map (\<lambda>c. SimpleEncryptChar (byte_of c)) p)"
  have "EncryptPassword utf8 rnd pw key = pad_loop rnd (i + nat shift) ?all"
    using EncryptPassword_steps [of p utf8 key pw ?result ?dataLen rnd shift i, OF assms(2) refl refl s] by (simp only: append_assoc)
  then obtain t where t: "EncryptPassword utf8 rnd pw key = ?all @ t" using pad_loop_append [of rnd "i + nat shift" ?all] by auto
  have "length ?r = 2 * nat shift" by (simp add: length_random_chars)
  then show ?thesis using t shift by (intro exI [of _ "nat shift"] exI [of _ ?r] exI [of _ t]) simp
qed

lemma read_length_part:
  assumes "0 \<le> len" "len < 2 ^ 16" "leftFirst \<or> len \<le> 255"
  shows "read_length leftFirst PWALG_SIMPLE_FLAG (length_part len @ rest) = (Some len, rest)"
proof (cases "len > 255")
  case True
  have "uint (word_of_int (drop_bit 8 len) :: u8) = len div 256"
    using assms(1,2) by (simp add: drop_bit_eq_div take_bit_int_eq_self uint_word_of_int)
  moreover have "uint (word_of_int (len AND 0xFF) :: u8) = len mod 256"
  proof -
    have "len AND 0xFF = len AND mask 8" by (simp add: mask_numeral)
    then show ?thesis by (simp add: take_bit_eq_mask [symmetric] take_bit_eq_mod uint_word_of_int)
  qed
  moreover have "push_bit 8 (len div 256) + len mod 256 = len" by (simp add: push_bit_eq_mult)
  ultimately show ?thesis using True assms(3) by (simp add: read_length_def length_part_def)
next
  case False
  then have "uint (word_of_int len :: u8) = len" using assms(1) by (simp add: uint_word_of_int)
  then show ?thesis using False by (simp add: read_length_def length_part_def)
qed

text \<open>C34: What decoding gives for an encoded password and any key, whatever the random numbers are: when the
  key, in UTF-8, starts the bytes that were encoded, the rest of them, so that the key of the encoding
  gives the password back; otherwise nothing. Key and password have less than 65536 bytes together, and
  when they have more than 255, the compiler has to evaluate the operands of the sum that makes up
  the length from left to right.\<close>

theorem DecryptPassword_EncryptPassword:
  assumes "\<forall>i. 0 \<le> rnd i \<and> rnd i < 2 ^ 31" "p = utf8 key @ utf8 pw" "length p < 2 ^ 16" "leftFirst \<or> length p \<le> 255"
  shows "DecryptPassword utf8 unicode leftFirst (EncryptPassword utf8 rnd pw key) key' =
    unicode (if prefix (utf8 key') p then drop (length (utf8 key')) p else [])"
proof -
  obtain n r t where e: "EncryptPassword utf8 rnd pw key = SimpleEncryptChar PWALG_SIMPLE_FLAG @ length_part (Length p) @
      SimpleEncryptChar (word_of_int (int n)) @ r @ concat (map (\<lambda>c. SimpleEncryptChar (byte_of c)) p) @ t"
      "length r = 2 * n" "n < 256"
    using EncryptPassword_parts [of rnd p utf8 key pw, OF assms(1,2)] by blast
  have len: "read_length leftFirst PWALG_SIMPLE_FLAG (length_part (Length p) @ x) = (Some (Length p), x)" for x
    using assms(3,4) by (intro read_length_part) (auto simp: Length_def)
  have n: "uint (word_of_int (int n) :: u8) = int n" using e(3) by (simp add: unsigned_of_nat take_bit_nat_eq_self)
  have del: "Delete (r @ x) 1 (int n * 2) = x" for x using e(2) by (simp add: Delete_conv)
  have nl: "nat (Length p) = length p" by (simp add: Length_def)
  have "DecryptPassword utf8 unicode leftFirst (EncryptPassword utf8 rnd pw key) key' =
      unicode (if SubString p 1 (Length (utf8 key')) \<noteq> utf8 key' then [] else Delete p 1 (Length (utf8 key')))"
    unfolding DecryptPassword_def e(1) decrypt_next prod.case len option.case n del Let_def nl decrypt_loop_encrypted by simp
  moreover have "SubString p 1 (Length (utf8 key')) = utf8 key' \<longleftrightarrow> prefix (utf8 key') p" by (simp add: Length_def)
  ultimately show ?thesis by (simp add: Delete_conv Length_def)
qed

theorem DecryptPassword_EncryptPassword_witness:
  "DecryptPassword id id True (EncryptPassword id (\<lambda>i. 1000000000) ''secret'' ''user'') ''user'' = ''secret'' \<and>
   DecryptPassword id id True (EncryptPassword id (\<lambda>i. 1000000000) ''secret'' ''user'') ''other'' = []"
  using DecryptPassword_EncryptPassword [of "\<lambda>i. 1000000000" "''usersecret''" id "''user''" "''secret''" True id "''user''"]
    DecryptPassword_EncryptPassword [of "\<lambda>i. 1000000000" "''usersecret''" id "''user''" "''secret''" True id "''other''"]
  by simp

lemma ByteToHex_pair: "ByteToHex b True = hex_pair b"
  by (simp add: ByteToHex_def hex_pair_def PWALG_SIMPLE_STRING_def Let_def)

lemma UpCase_digit: "c \<in> set PWALG_SIMPLE_STRING \<Longrightarrow> hex_UpCase c = c"
proof -
  have "\<forall>c \<in> set PWALG_SIMPLE_STRING. hex_UpCase c = c" by code_simp
  then show "c \<in> set PWALG_SIMPLE_STRING \<Longrightarrow> hex_UpCase c = c" by blast
qed

lemma hex_loop_pair: "hex_loop (hex_pair b @ hex) result = hex_loop hex (result @ [char_of_byte b])"
proof -
  obtain x y where xy: "hex_pair b = [x, y]" "Pos_char PWALG_SIMPLE_STRING x - 1 = uint b div 16"
      "Pos_char PWALG_SIMPLE_STRING y - 1 = uint b mod 16" "hex_UpCase x = x" "hex_UpCase y = y"
    using hex_pair_digits [of b] UpCase_digit by metis
  have "0 \<le> uint b div 16" "0 \<le> uint b mod 16" by (simp_all add: pos_imp_zdiv_nonneg_iff)
  then have pos: "\<not> (Pos_char PWALG_SIMPLE_STRING x \<le> 0 \<or> Pos_char PWALG_SIMPLE_STRING y \<le> 0)" using xy(2,3) by linarith
  have "(Pos_char PWALG_SIMPLE_STRING x - 1) * 16 + (Pos_char PWALG_SIMPLE_STRING y - 1) = uint b"
    unfolding xy(2,3) by (rule div_mult_mod_eq)
  then have v: "(Pos_char PWALG_SIMPLE_STRING x - 1) * 16 + Pos_char PWALG_SIMPLE_STRING y - 1 = uint b" by (simp only: add_diff_eq)
  show ?thesis unfolding xy(1) append_Cons append_Nil hex_loop.simps Let_def xy(4,5) if_not_P [OF pos] v by simp
qed

lemma hex_loop_bytes: "hex_loop (BytesToHex bs True NUL) result = result @ map char_of_byte bs"
  by (induction bs arbitrary: result) (simp_all add: ByteToHex_pair hex_loop_pair)

lemma BytesToHex_digits: "set (BytesToHex bs True NUL) \<subseteq> set PWALG_SIMPLE_STRING \<and> length (BytesToHex bs True NUL) = 2 * length bs"
proof (induction bs)
  case (Cons b bs)
  then show ?case using hex_pair_digits [of b] by (auto simp: ByteToHex_pair)
qed simp

lemma HexToBytes_BytesToHex: "HexToBytes (BytesToHex (map byte_of p) True NUL) = p"
  using BytesToHex_digits [of "map byte_of p"] by (simp add: HexToBytes_def Length_def hex_loop_bytes comp_def)

text \<open>C35: A password that was encrypted elsewhere is stored and read back unchanged, and the two kinds of
  stored passwords are never confused: the internal decoding gives nothing for it, and a password
  encoded here is not taken for one encrypted elsewhere. The conversions between text and UTF-8 must
  keep hexadecimal digits.\<close>

theorem external_password_round_trip:
  assumes "\<And>s. set s \<subseteq> set PWALG_SIMPLE_STRING \<Longrightarrow> unicode (utf8 s) = s"
  shows "GetExternalEncryptedPassword unicode (SetExternalEncryptedPassword utf8 p) = Some p \<and>
    DecryptPassword utf8 unicode leftFirst (SetExternalEncryptedPassword utf8 p) key = unicode [] \<and>
    GetExternalEncryptedPassword unicode (EncryptPassword utf8 rnd pw key) = None"
proof (intro conjI)
  let ?hex = "BytesToHex (map byte_of p) True NUL"
  have "unicode (utf8 ?hex) = ?hex" using BytesToHex_digits by (intro assms) blast
  then show "GetExternalEncryptedPassword unicode (SetExternalEncryptedPassword utf8 p) = Some p"
    by (simp add: GetExternalEncryptedPassword_def SetExternalEncryptedPassword_def HexToBytes_BytesToHex)
  show "DecryptPassword utf8 unicode leftFirst (SetExternalEncryptedPassword utf8 p) key = unicode []"
    by (simp add: DecryptPassword_def SetExternalEncryptedPassword_def read_length_def)
  obtain x where x: "EncryptPassword utf8 rnd pw key = SimpleEncryptChar PWALG_SIMPLE_FLAG @ length_part (Length (utf8 key @ utf8 pw)) @ x"
    using EncryptPassword_start by blast
  show "GetExternalEncryptedPassword unicode (EncryptPassword utf8 rnd pw key) = None"
    unfolding x by (simp add: GetExternalEncryptedPassword_def length_part_def)
qed

theorem external_password_round_trip_witness:
  "GetExternalEncryptedPassword id (SetExternalEncryptedPassword id ''pass'') = Some ''pass'' \<and>
   DecryptPassword id id True (SetExternalEncryptedPassword id ''pass'') ''key'' = [] \<and>
   GetExternalEncryptedPassword id (EncryptPassword id (\<lambda>_. 7) ''pass'' ''key'') = None"
  using external_password_round_trip [of id id "''pass''" True "''key''" "\<lambda>_. 7" "''pass''"] by simp

end
