(* ===== verification/StringSort.thy ===== *)
theory StringSort
  imports NB_Prelude "HOL-Library.Multiset"
begin

text \<open>
  Sorting of string lists: \<open>TStringList::QuickSort\<close> and \<open>ExchangeItems\<close> of \<open>src/base/Classes.cpp\<close>. The
  routine exchanges items in place and keeps track of where the pivot moves; indices are integers
  as in the code, because the right one may fall to -1. Access out of range is \<open>EUndefinedBehaviour\<close>.
  The comparison is a parameter \<open>c\<close> with the laws of a total preorder.
\<close>

section \<open>The routine\<close>

abbreviation (input) item :: "'a list \<Rightarrow> int \<Rightarrow> 'a" where "item xs k \<equiv> xs ! nat k"

definition in_range :: "'a list \<Rightarrow> int \<Rightarrow> bool" where
  "in_range xs k \<longleftrightarrow> 0 \<le> k \<and> k < int (length xs)"

definition ExchangeItems :: "'a list \<Rightarrow> int \<Rightarrow> int \<Rightarrow> 'a list" where
  "ExchangeItems xs i j = xs[nat i := item xs j, nat j := item xs i]"

function inc_loop :: "('a \<Rightarrow> 'a \<Rightarrow> int) \<Rightarrow> 'a list \<Rightarrow> int \<Rightarrow> int \<Rightarrow> int res" where
  "inc_loop c xs p i =
     (if in_range xs i \<and> in_range xs p then
        (if c (item xs i) (item xs p) < 0 then inc_loop c xs p (i + 1) else Inr i)
      else Inl EUndefinedBehaviour)"
  by pat_completeness auto
termination
  by (relation "measure (\<lambda>(_, xs, _, i). nat (int (length xs) - i))") (auto simp: in_range_def)

function dec_loop :: "('a \<Rightarrow> 'a \<Rightarrow> int) \<Rightarrow> 'a list \<Rightarrow> int \<Rightarrow> int \<Rightarrow> int res" where
  "dec_loop c xs p j =
     (if in_range xs j \<and> in_range xs p then
        (if c (item xs j) (item xs p) > 0 then dec_loop c xs p (j - 1) else Inr j)
      else Inl EUndefinedBehaviour)"
  by pat_completeness auto
termination
  by (relation "measure (\<lambda>(_, _, _, j). nat (j + 1))") (auto simp: in_range_def)

declare inc_loop.simps [simp del] dec_loop.simps [simp del]

lemma inc_loop_le: "inc_loop c xs p i = Inr i' \<Longrightarrow> i \<le> i'"
proof (induction c xs p i rule: inc_loop.induct)
  case (1 c xs p i)
  then show ?case by (subst (asm) (2) inc_loop.simps) (fastforce split: if_splits)
qed

lemma dec_loop_le: "dec_loop c xs p j = Inr j' \<Longrightarrow> j' \<le> j"
proof (induction c xs p j rule: dec_loop.induct)
  case (1 c xs p j)
  then show ?case by (subst (asm) (2) dec_loop.simps) (fastforce split: if_splits)
qed

text \<open>The inner \<open>do\<close> loop: the items, the two indices and the position of the pivot.\<close>

function partition_loop :: "('a \<Rightarrow> 'a \<Rightarrow> int) \<Rightarrow> 'a list \<Rightarrow> int \<Rightarrow> int \<Rightarrow> int \<Rightarrow> ('a list \<times> int \<times> int) res" where
  "partition_loop c xs index j p =
     (case inc_loop c xs p index of
        Inl e \<Rightarrow> Inl e
      | Inr i' \<Rightarrow>
          (case dec_loop c xs p j of
             Inl e \<Rightarrow> Inl e
           | Inr j' \<Rightarrow>
               if i' \<le> j' then
                 (let xs' = ExchangeItems xs i' j';
                      p' = (if p = i' then j' else if p = j' then i' else p)
                  in if i' + 1 \<le> j' - 1 then partition_loop c xs' (i' + 1) (j' - 1) p'
                     else Inr (xs', i' + 1, j' - 1))
               else Inr (xs, i', j')))"
  by pat_completeness auto
termination
  by (relation "measure (\<lambda>(_, _, i, j, _). nat (j - i + 1))") (auto dest!: inc_loop_le dec_loop_le)

declare partition_loop.simps [simp del]

text \<open>The outer \<open>do\<close> loop goes on with \<open>L = Index\<close>. \<open>None\<close> stands for a run that does not end.\<close>

partial_function (option) QuickSort :: "('a \<Rightarrow> 'a \<Rightarrow> int) \<Rightarrow> 'a list \<Rightarrow> int \<Rightarrow> int \<Rightarrow> 'a list res option" where
  "QuickSort c xs l r =
     (case partition_loop c xs l r ((l + r) div 2) of
        Inl e \<Rightarrow> Some (Inl e)
      | Inr (xs, index, j) \<Rightarrow>
          Option.bind (if l < j then QuickSort c xs l j else Some (Inr xs)) (\<lambda>res.
            case res of
              Inl e \<Rightarrow> Some (Inl e)
            | Inr xs \<Rightarrow> if index < r then QuickSort c xs index r else Some (Inr xs)))"

section \<open>Rearrangements of a range\<close>

inductive rearr :: "int \<Rightarrow> int \<Rightarrow> 'a list \<Rightarrow> 'a list \<Rightarrow> bool" for l r where
  refl: "rearr l r xs xs"
| swap: "rearr l r xs ys \<Longrightarrow> 0 \<le> l \<Longrightarrow> r < int (length ys) \<Longrightarrow> l \<le> i \<Longrightarrow> i \<le> r \<Longrightarrow> l \<le> j \<Longrightarrow> j \<le> r \<Longrightarrow>
    rearr l r xs (ExchangeItems ys i j)"

lemma length_Exchange [simp]: "length (ExchangeItems xs i j) = length xs"
  by (simp add: ExchangeItems_def)

lemma item_Exchange:
  assumes "in_range xs i" "in_range xs j" "in_range xs k"
  shows "item (ExchangeItems xs i j) k = (if k = i then item xs j else if k = j then item xs i else item xs k)"
  using assms by (auto simp: ExchangeItems_def in_range_def nth_list_update)

lemma mset_Exchange:
  assumes "in_range xs i" "in_range xs j"
  shows "mset (ExchangeItems xs i j) = mset xs"
  using assms mset_swap [of "nat j" xs "nat i"] by (simp add: ExchangeItems_def in_range_def nat_less_iff)

lemma rearr_length: "rearr l r xs ys \<Longrightarrow> length ys = length xs"
  by (induction rule: rearr.induct) simp_all

lemma rearr_mset: "rearr l r xs ys \<Longrightarrow> mset ys = mset xs"
  by (induction rule: rearr.induct) (simp_all add: mset_Exchange in_range_def)

lemma rearr_outside: "rearr l r xs ys \<Longrightarrow> in_range xs k \<Longrightarrow> k < l \<or> r < k \<Longrightarrow> item ys k = item xs k"
proof (induction rule: rearr.induct)
  case (swap xs ys i j)
  have "length ys = length xs" using swap.hyps(1) by (rule rearr_length)
  then show ?case using swap by (subst item_Exchange) (auto simp: in_range_def)
qed simp

lemma rearr_all:
  assumes "rearr l r xs ys" "\<And>k. l \<le> k \<Longrightarrow> k \<le> r \<Longrightarrow> P (item xs k)" "l \<le> k" "k \<le> r"
  shows "P (item ys k)"
  using assms
proof (induction arbitrary: k rule: rearr.induct)
  case (swap xs ys i j)
  have "P (item ys i)" "P (item ys j)" "P (item ys k)" using swap by blast+
  then show ?case using swap.hyps swap.prems by (subst item_Exchange) (auto simp: in_range_def)
qed simp

lemma rearr_trans: "rearr l r ys zs \<Longrightarrow> rearr l r xs ys \<Longrightarrow> rearr l r xs zs"
  by (induction rule: rearr.induct) (auto intro: rearr.intros)

lemma rearr_mono: "rearr l r xs ys \<Longrightarrow> 0 \<le> l' \<Longrightarrow> l' \<le> l \<Longrightarrow> r \<le> r' \<Longrightarrow> r' < int (length xs) \<Longrightarrow> rearr l' r' xs ys"
proof (induction rule: rearr.induct)
  case (swap xs ys i j)
  have "length ys = length xs" using swap.hyps(1) by (rule rearr_length)
  then show ?case using swap by (intro rearr.swap) auto
qed (rule rearr.refl)

section \<open>One pass\<close>

lemma inc_loop_stops:
  assumes "0 \<le> i" "i \<le> k" "in_range xs k" "in_range xs p" "\<not> c (item xs k) (item xs p) < 0"
  shows "\<exists>i'. inc_loop c xs p i = Inr i' \<and> i \<le> i' \<and> i' \<le> k \<and> (\<forall>m. i \<le> m \<longrightarrow> m < i' \<longrightarrow> c (item xs m) (item xs p) < 0) \<and>
    \<not> c (item xs i') (item xs p) < 0"
  using assms
proof (induction "nat (k - i)" arbitrary: i)
  case 0
  then have "i = k" by simp
  then show ?case using 0 by (subst inc_loop.simps) auto
next
  case (Suc n)
  have r: "in_range xs i" using Suc by (auto simp: in_range_def)
  show ?case
  proof (cases "c (item xs i) (item xs p) < 0")
    case True
    then have "i < k" using Suc.prems(2,5) by (cases "i = k") auto
    then have "n = nat (k - (i + 1))" using Suc.hyps(2) by linarith
    from Suc.hyps(1) [OF this _ _ Suc.prems(3-5)] \<open>i < k\<close> Suc.prems(1) obtain i' where i': "inc_loop c xs p (i + 1) = Inr i'" "i + 1 \<le> i'" "i' \<le> k"
        "\<forall>m. i + 1 \<le> m \<longrightarrow> m < i' \<longrightarrow> c (item xs m) (item xs p) < 0" "\<not> c (item xs i') (item xs p) < 0"
      by auto
    have "\<forall>m. i \<le> m \<longrightarrow> m < i' \<longrightarrow> c (item xs m) (item xs p) < 0"
    proof (intro allI impI)
      fix m assume "i \<le> m" "m < i'"
      then show "c (item xs m) (item xs p) < 0" using i'(4) True by (cases "m = i") auto
    qed
    moreover have "inc_loop c xs p i = Inr i'" using r Suc.prems(4) True i'(1) by (subst inc_loop.simps) simp
    ultimately show ?thesis using i' by (intro exI [of _ i']) auto
  next
    case False
    then show ?thesis using r Suc.prems by (intro exI [of _ i]) (subst inc_loop.simps, auto)
  qed
qed

lemma dec_loop_stops:
  assumes "j < int (length xs)" "k \<le> j" "in_range xs k" "in_range xs p" "\<not> c (item xs k) (item xs p) > 0"
  shows "\<exists>j'. dec_loop c xs p j = Inr j' \<and> k \<le> j' \<and> j' \<le> j \<and> (\<forall>m. j' < m \<longrightarrow> m \<le> j \<longrightarrow> c (item xs m) (item xs p) > 0) \<and>
    \<not> c (item xs j') (item xs p) > 0"
  using assms
proof (induction "nat (j - k)" arbitrary: j)
  case 0
  then have "j = k" by simp
  then show ?case using 0 by (subst dec_loop.simps) auto
next
  case (Suc n)
  have r: "in_range xs j" using Suc by (auto simp: in_range_def)
  show ?case
  proof (cases "c (item xs j) (item xs p) > 0")
    case True
    then have "k < j" using Suc.prems(2,5) by (cases "j = k") auto
    then have "n = nat (j - 1 - k)" using Suc.hyps(2) by linarith
    from Suc.hyps(1) [OF this _ _ Suc.prems(3-5)] \<open>k < j\<close> Suc.prems(1) obtain j' where j': "dec_loop c xs p (j - 1) = Inr j'" "k \<le> j'" "j' \<le> j - 1"
        "\<forall>m. j' < m \<longrightarrow> m \<le> j - 1 \<longrightarrow> c (item xs m) (item xs p) > 0" "\<not> c (item xs j') (item xs p) > 0"
      by auto
    have "\<forall>m. j' < m \<longrightarrow> m \<le> j \<longrightarrow> c (item xs m) (item xs p) > 0"
    proof (intro allI impI)
      fix m assume "j' < m" "m \<le> j"
      then show "c (item xs m) (item xs p) > 0" using j'(4) True by (cases "m = j") auto
    qed
    moreover have "dec_loop c xs p j = Inr j'" using r Suc.prems(4) True j'(1) by (subst dec_loop.simps) simp
    ultimately show ?thesis using j' by (intro exI [of _ j']) auto
  next
    case False
    then show ?thesis using r Suc.prems by (intro exI [of _ j]) (subst dec_loop.simps, auto)
  qed
qed

definition compare_laws :: "('a \<Rightarrow> 'a \<Rightarrow> int) \<Rightarrow> bool" where
  "compare_laws c \<longleftrightarrow> (\<forall>x. c x x = 0) \<and> (\<forall>x y. c x y \<le> 0 \<longleftrightarrow> 0 \<le> c y x) \<and> (\<forall>x y z. c x y \<le> 0 \<longrightarrow> c y z \<le> 0 \<longrightarrow> c x z \<le> 0)"

lemma compare_lawsD:
  assumes "compare_laws c"
  shows "c x x = 0" "c x y \<le> 0 \<longleftrightarrow> 0 \<le> c y x" "c x y \<le> 0 \<Longrightarrow> c y z \<le> 0 \<Longrightarrow> c x z \<le> 0"
  using assms unfolding compare_laws_def by blast+

text \<open>What holds whenever the inner loop starts over: the two ends are on their side of the pivot, and both inner loops meet an item that stops them.\<close>

definition pass_inv ::
  "('a \<Rightarrow> 'a \<Rightarrow> int) \<Rightarrow> 'a list \<Rightarrow> int \<Rightarrow> int \<Rightarrow> 'a \<Rightarrow> 'a list \<Rightarrow> int \<Rightarrow> int \<Rightarrow> int \<Rightarrow> bool" where
  "pass_inv c xs0 l r pv xs i j p \<longleftrightarrow>
     rearr l r xs0 xs \<and> 0 \<le> l \<and> r < int (length xs) \<and> l \<le> i \<and> j \<le> r \<and> l \<le> p \<and> p \<le> r \<and> item xs p = pv \<and>
     (\<forall>m. l \<le> m \<longrightarrow> m < i \<longrightarrow> c (item xs m) pv \<le> 0) \<and> (\<forall>m. j < m \<longrightarrow> m \<le> r \<longrightarrow> 0 \<le> c (item xs m) pv) \<and>
     (\<exists>k. i \<le> k \<and> k \<le> r \<and> 0 \<le> c (item xs k) pv) \<and> (\<exists>k. l \<le> k \<and> k \<le> j \<and> c (item xs k) pv \<le> 0)"

definition pass_done :: "('a \<Rightarrow> 'a \<Rightarrow> int) \<Rightarrow> 'a list \<Rightarrow> int \<Rightarrow> int \<Rightarrow> 'a \<Rightarrow> 'a list \<Rightarrow> int \<Rightarrow> int \<Rightarrow> bool" where
  "pass_done c xs0 l r pv xs i j \<longleftrightarrow>
     rearr l r xs0 xs \<and> i \<le> r + 1 \<and> l - 1 \<le> j \<and> j < i \<and>
     (\<forall>m. l \<le> m \<longrightarrow> m < i \<longrightarrow> c (item xs m) pv \<le> 0) \<and> (\<forall>m. j < m \<longrightarrow> m \<le> r \<longrightarrow> 0 \<le> c (item xs m) pv)"

text \<open>Where the two inner loops stop.\<close>

lemma pass_stops:
  assumes "pass_inv c xs0 l r pv xs i j p" "c pv pv = 0"
  obtains i1 j1 where "inc_loop c xs p i = Inr i1" "dec_loop c xs p j = Inr j1" "i \<le> i1" "i1 \<le> r" "l \<le> j1" "j1 \<le> j"
    "\<forall>m. l \<le> m \<longrightarrow> m < i1 \<longrightarrow> c (item xs m) pv \<le> 0" "\<forall>m. j1 < m \<longrightarrow> m \<le> r \<longrightarrow> 0 \<le> c (item xs m) pv"
    "0 \<le> c (item xs i1) pv" "c (item xs j1) pv \<le> 0" "i \<le> p \<Longrightarrow> i1 \<le> p" "p \<le> j \<Longrightarrow> p \<le> j1"
proof -
  note inv = assms(1) [unfolded pass_inv_def]
  have p: "in_range xs p" "item xs p = pv" using inv by (auto simp: in_range_def)
  obtain k where k: "i \<le> k" "k \<le> r" "0 \<le> c (item xs k) pv" using inv by blast
  obtain i1 where i1: "inc_loop c xs p i = Inr i1" "i \<le> i1" "i1 \<le> k" "\<forall>m. i \<le> m \<longrightarrow> m < i1 \<longrightarrow> c (item xs m) pv < 0"
      "\<not> c (item xs i1) pv < 0"
    using inc_loop_stops [of i k xs p c] inv k p by (auto simp: in_range_def)
  obtain k' where k': "l \<le> k'" "k' \<le> j" "c (item xs k') pv \<le> 0" using inv by blast
  obtain j1 where j1: "dec_loop c xs p j = Inr j1" "k' \<le> j1" "j1 \<le> j" "\<forall>m. j1 < m \<longrightarrow> m \<le> j \<longrightarrow> 0 < c (item xs m) pv"
      "\<not> 0 < c (item xs j1) pv"
    using dec_loop_stops [of j xs k' p c] inv k' p by (auto simp: in_range_def)
  have le: "c (item xs m) pv \<le> 0" if "l \<le> m" "m < i1" for m
    using inv i1(4) that by (cases "m < i") (auto simp: not_less less_imp_le)
  have ge: "0 \<le> c (item xs m) pv" if "j1 < m" "m \<le> r" for m
    using inv j1(4) that by (cases "j < m") (auto simp: not_less less_imp_le)
  have "i1 \<le> p" if "i \<le> p" using inc_loop_stops [of i p xs p c] inv that p assms(2) i1(1) by auto
  moreover have "p \<le> j1" if "p \<le> j" using dec_loop_stops [of j xs p p c] inv that p assms(2) j1(1) by auto
  ultimately show ?thesis using that [of i1 j1] i1 j1 k k' le ge by auto
qed

text \<open>An exchange keeps the invariant, with the position of the pivot.\<close>

lemma pass_exchange:
  assumes inv: "pass_inv c xs0 l r pv xs i j p" and le: "\<forall>m. l \<le> m \<longrightarrow> m < i1 \<longrightarrow> c (item xs m) pv \<le> 0"
    and ge: "\<forall>m. j1 < m \<longrightarrow> m \<le> r \<longrightarrow> 0 \<le> c (item xs m) pv" and stop: "0 \<le> c (item xs i1) pv" "c (item xs j1) pv \<le> 0"
    and bounds: "i \<le> i1" "i1 \<le> j1" "j1 \<le> j"
  defines "xs' \<equiv> ExchangeItems xs i1 j1" and "p' \<equiv> (if p = i1 then j1 else if p = j1 then i1 else p)"
  shows "\<not> i1 + 1 \<le> j1 - 1 \<Longrightarrow> pass_done c xs0 l r pv xs' (i1 + 1) (j1 - 1)"
    and "i1 + 1 \<le> j1 - 1 \<Longrightarrow> pass_inv c xs0 l r pv xs' (i1 + 1) (j1 - 1) p'"
proof -
  note i = inv [unfolded pass_inv_def]
  have r: "0 \<le> l" "r < int (length xs)" "l \<le> i1" "j1 \<le> r" using i bounds by auto
  have item: "item xs' k = (if k = i1 then item xs j1 else if k = j1 then item xs i1 else item xs k)" if "l \<le> k" "k \<le> r" for k
    unfolding xs'_def using r bounds(2) that by (intro item_Exchange) (auto simp: in_range_def)
  have re: "rearr l r xs0 xs'" unfolding xs'_def using i r bounds(2) by (intro rearr.swap) auto
  have le': "c (item xs' m) pv \<le> 0" if "l \<le> m" "m < i1 + 1" for m
    using item [of m] le stop(2) that r bounds(2) by (cases "m = i1") auto
  have ge': "0 \<le> c (item xs' m) pv" if "j1 - 1 < m" "m \<le> r" for m
    using item [of m] ge stop(1) that r bounds(2) by (cases "m = j1") (auto split: if_splits)
  show "pass_done c xs0 l r pv xs' (i1 + 1) (j1 - 1)" if "\<not> i1 + 1 \<le> j1 - 1"
    using that unfolding pass_done_def using re le' ge' r bounds(2) by auto
  assume go: "i1 + 1 \<le> j1 - 1"
  have "item xs' p' = pv" "l \<le> p'" "p' \<le> r"
    using i item [of p'] r bounds(2) by (auto simp: p'_def)
  moreover have "length xs' = length xs" by (simp add: xs'_def)
  moreover have "\<exists>k. i1 + 1 \<le> k \<and> k \<le> r \<and> 0 \<le> c (item xs' k) pv"
    using ge' [of j1] r go by (intro exI [of _ j1]) auto
  moreover have "\<exists>k. l \<le> k \<and> k \<le> j1 - 1 \<and> c (item xs' k) pv \<le> 0"
    using le' [of i1] r go by (intro exI [of _ i1]) auto
  ultimately show "pass_inv c xs0 l r pv xs' (i1 + 1) (j1 - 1) p'"
    unfolding pass_inv_def using re le' ge' r by auto
qed

lemma partition_loop_done:
  assumes "pass_inv c xs0 l r pv xs i j p" "c pv pv = 0"
  shows "\<exists>xs' i' j'. partition_loop c xs i j p = Inr (xs', i', j') \<and> pass_done c xs0 l r pv xs' i' j' \<and>
    i \<le> i' \<and> j' \<le> j \<and> (i \<le> p \<and> p \<le> j \<longrightarrow> i < i' \<and> j' < j)"
  using assms
proof (induction "nat (j - i + 1)" arbitrary: xs i j p rule: less_induct)
  case less
  obtain i1 j1 where s: "inc_loop c xs p i = Inr i1" "dec_loop c xs p j = Inr j1" "i \<le> i1" "i1 \<le> r" "l \<le> j1" "j1 \<le> j"
      "\<forall>m. l \<le> m \<longrightarrow> m < i1 \<longrightarrow> c (item xs m) pv \<le> 0" "\<forall>m. j1 < m \<longrightarrow> m \<le> r \<longrightarrow> 0 \<le> c (item xs m) pv"
      "0 \<le> c (item xs i1) pv" "c (item xs j1) pv \<le> 0" "i \<le> p \<Longrightarrow> i1 \<le> p" "p \<le> j \<Longrightarrow> p \<le> j1"
    using pass_stops [OF less.prems] by blast
  note step = partition_loop.simps [of c xs i j p, unfolded s(1,2) sum.case Let_def]
  show ?case
  proof (cases "i1 \<le> j1")
    case True
    let ?xs = "ExchangeItems xs i1 j1" and ?p = "if p = i1 then j1 else if p = j1 then i1 else p"
    note ex = pass_exchange [OF less.prems(1) s(7-10,3) True s(6)]
    show ?thesis
    proof (cases "i1 + 1 \<le> j1 - 1")
      case go: True
      have "nat (j1 - 1 - (i1 + 1) + 1) < nat (j - i + 1)" using s(3,6) go by linarith
      from less.hyps [OF this ex(2) [OF go] less.prems(2)] obtain xs' i' j' where
        "partition_loop c ?xs (i1 + 1) (j1 - 1) ?p = Inr (xs', i', j')" "pass_done c xs0 l r pv xs' i' j'" "i1 + 1 \<le> i'" "j' \<le> j1 - 1"
        by blast
      then show ?thesis unfolding step using True go s(3,6) by auto
    next
      case stop: False
      then show ?thesis unfolding step using True ex(1) [OF stop] s(3,6) by auto
    qed
  next
    case False
    have "rearr l r xs0 xs" using less.prems(1) unfolding pass_inv_def by blast
    then have "pass_done c xs0 l r pv xs i1 j1" unfolding pass_done_def using s(4,5,7,8) False by auto
    moreover have "\<not> (i \<le> p \<and> p \<le> j)" using False s(11,12) by auto
    ultimately show ?thesis unfolding step using False s(3,6) by auto
  qed
qed

section \<open>Sorting\<close>

definition sorted_on :: "('a \<Rightarrow> 'a \<Rightarrow> int) \<Rightarrow> int \<Rightarrow> int \<Rightarrow> 'a list \<Rightarrow> bool" where
  "sorted_on c l r xs \<longleftrightarrow> (\<forall>k m. l \<le> k \<longrightarrow> k < m \<longrightarrow> m \<le> r \<longrightarrow> c (item xs k) (item xs m) \<le> 0)"

lemma partition_start:
  assumes "c (item xs ((l + r) div 2)) (item xs ((l + r) div 2)) = 0" "0 \<le> l" "l < r" "r < int (length xs)"
  obtains xs' i j where "partition_loop c xs l r ((l + r) div 2) = Inr (xs', i, j)"
    "pass_done c xs l r (item xs ((l + r) div 2)) xs' i j" "l < i" "j < r"
proof -
  let ?p = "(l + r) div 2"
  have p: "l \<le> ?p" "?p \<le> r" using assms(3) by linarith+
  have k: "\<exists>k. l \<le> k \<and> k \<le> r \<and> 0 \<le> c (item xs k) (item xs ?p)" "\<exists>k. l \<le> k \<and> k \<le> r \<and> c (item xs k) (item xs ?p) \<le> 0"
    using p assms(1) by (metis order_refl)+
  have "pass_inv c xs l r (item xs ?p) xs l r ?p"
    unfolding pass_inv_def using assms(2-4) p k by (auto intro: rearr.refl)
  from partition_loop_done [OF this assms(1)] show ?thesis using that p by blast
qed

text \<open>The parts that are sorted by themselves fit together.\<close>

lemma sorted_on_parts:
  assumes "compare_laws c" "sorted_on c l j xs" "sorted_on c i r xs" "j < i"
    and low: "\<And>m. l \<le> m \<Longrightarrow> m < i \<Longrightarrow> c (item xs m) pv \<le> 0" and high: "\<And>m. j < m \<Longrightarrow> m \<le> r \<Longrightarrow> 0 \<le> c (item xs m) pv"
  shows "sorted_on c l r xs"
  unfolding sorted_on_def
proof (intro allI impI)
  fix k m assume km: "l \<le> k" "k < m" "m \<le> r"
  show "c (item xs k) (item xs m) \<le> 0"
  proof (cases "m \<le> j \<or> i \<le> k")
    case True
    then show ?thesis using assms(2,3) km unfolding sorted_on_def by auto
  next
    case False
    then have "c (item xs k) pv \<le> 0" "0 \<le> c (item xs m) pv" using low [of k] high [of m] km by auto
    then show ?thesis using compare_lawsD(2,3) [OF assms(1)] by blast
  qed
qed

lemma sorted_on_outside:
  assumes "sorted_on c l j xs" "rearr i r xs ys" "j < i" "0 \<le> l" "j < int (length xs)"
  shows "sorted_on c l j ys"
  unfolding sorted_on_def
proof (intro allI impI)
  fix k m assume "l \<le> k" "k < m" "m \<le> j"
  moreover from this have "item ys k = item xs k" "item ys m = item xs m"
    using assms(3-5) by (auto intro!: rearr_outside [OF assms(2)] simp: in_range_def)
  ultimately show "c (item ys k) (item ys m) \<le> 0" using assms(1) unfolding sorted_on_def by simp
qed

text \<open>After a pass, sorting the two sides sorts the whole range.\<close>

lemma sort_sides:
  assumes "compare_laws c" "pass_done c xs l r pv xs1 i j" "0 \<le> l" "r < int (length xs)" "l < i" "j < r"
    and "rearr l j xs1 xs2" "sorted_on c l j xs2" "rearr i r xs2 xs3" "sorted_on c i r xs3"
  shows "rearr l r xs xs3 \<and> sorted_on c l r xs3"
proof -
  note d = assms(2) [unfolded pass_done_def]
  have len: "length xs1 = length xs" "length xs2 = length xs" using d assms(7) rearr_length by metis+
  have out2: "item xs2 m = item xs1 m" if "j < m" "m \<le> r" for m
    using that assms(3,4) d len by (intro rearr_outside [OF assms(7)]) (auto simp: in_range_def)
  have out3: "item xs3 m = item xs2 m" if "l \<le> m" "m < i" for m
    using that assms(3,4) d len by (intro rearr_outside [OF assms(9)]) (auto simp: in_range_def)
  have low2: "c (item xs2 m) pv \<le> 0" if "l \<le> m" "m < i" for m
    using rearr_all [OF assms(7), of "\<lambda>x. c x pv \<le> 0" m] out2 [of m] d that by (cases "m \<le> j") auto
  have high2: "0 \<le> c (item xs2 m) pv" if "j < m" "m \<le> r" for m
    using out2 [OF that] d that by auto
  have low3: "c (item xs3 m) pv \<le> 0" if "l \<le> m" "m < i" for m
    using out3 [OF that] low2 that by simp
  have high3: "0 \<le> c (item xs3 m) pv" if "j < m" "m \<le> r" for m
    using rearr_all [OF assms(9), of "\<lambda>x. 0 \<le> c x pv" m] out3 [of m] high2 d that by (cases "i \<le> m") auto
  have "sorted_on c l j xs3" using sorted_on_outside [OF assms(8,9)] d assms(3,4,6) len by auto
  then have sorted: "sorted_on c l r xs3" using sorted_on_parts [OF assms(1) _ assms(10)] d low3 high3 by blast
  have "rearr l r xs1 xs2" "rearr l r xs2 xs3"
    using rearr_mono [OF assms(7)] rearr_mono [OF assms(9)] assms(3-6) len by auto
  then show ?thesis using d rearr_trans sorted by blast
qed

lemma QuickSort_range:
  assumes "compare_laws c"
  shows "0 \<le> l \<Longrightarrow> l < r \<Longrightarrow> r < int (length xs) \<Longrightarrow>
    \<exists>ys. QuickSort c xs l r = Some (Inr ys) \<and> rearr l r xs ys \<and> sorted_on c l r ys"
proof (induction "nat (r - l)" arbitrary: l r xs rule: less_induct)
  case less
  define pv where "pv = item xs ((l + r) div 2)"
  obtain xs1 i j where p: "partition_loop c xs l r ((l + r) div 2) = Inr (xs1, i, j)" "pass_done c xs l r pv xs1 i j" "l < i" "j < r"
    using partition_start [of c xs l r, OF compare_lawsD(1) [OF assms] less.prems] unfolding pv_def by blast
  have part: "\<exists>ys. (if a < b then QuickSort c zs a b else Some (Inr zs)) = Some (Inr ys) \<and> rearr a b zs ys \<and> sorted_on c a b ys"
    if "l \<le> a" "b \<le> r" "b - a < r - l" "length zs = length xs" for a b zs
  proof (cases "a < b")
    case True
    then show ?thesis using less.hyps [of b a zs] that less.prems by auto
  next
    case False
    then show ?thesis by (auto simp: sorted_on_def intro: rearr.refl)
  qed
  have len1: "length xs1 = length xs" using p(2) rearr_length unfolding pass_done_def by blast
  obtain xs2 where s2: "(if l < j then QuickSort c xs1 l j else Some (Inr xs1)) = Some (Inr xs2)" "rearr l j xs1 xs2" "sorted_on c l j xs2"
    using part [of l j xs1] p(4) len1 by auto
  have len2: "length xs2 = length xs" using s2(2) rearr_length len1 by metis
  obtain xs3 where s3: "(if i < r then QuickSort c xs2 i r else Some (Inr xs2)) = Some (Inr xs3)" "rearr i r xs2 xs3" "sorted_on c i r xs3"
    using part [of i r xs2] p(3) len2 by auto
  have "QuickSort c xs l r = Some (Inr xs3)"
    unfolding QuickSort.simps [of c xs l r] p(1) sum.case prod.case s2(1) Option.bind.bind_lunit s3(1) ..
  then show ?case using sort_sides [OF assms p(2) less.prems(1,3) p(3,4) s2(2,3) s3(2,3)] by blast
qed

text \<open>The quicksort of string lists ends for every list of at least two items and every comparison that is a
  total preorder, accesses no item outside the list, and returns the same items in ascending order.\<close>

lemma QuickSort_sorts:
  assumes "compare_laws c" "1 < length xs"
  shows "\<exists>ys. QuickSort c xs 0 (int (length xs) - 1) = Some (Inr ys) \<and> mset ys = mset xs \<and> sorted_wrt (\<lambda>x y. c x y \<le> 0) ys"
proof -
  obtain ys where ys: "QuickSort c xs 0 (int (length xs) - 1) = Some (Inr ys)" "rearr 0 (int (length xs) - 1) xs ys"
      "sorted_on c 0 (int (length xs) - 1) ys"
    using QuickSort_range [OF assms(1), of 0 "int (length xs) - 1" xs] assms(2) by auto
  have "sorted_wrt (\<lambda>x y. c x y \<le> 0) ys"
    unfolding sorted_wrt_iff_nth_less
  proof (intro allI impI)
    fix k m assume km: "k < m" "m < length ys"
    then have "c (item ys (int k)) (item ys (int m)) \<le> 0"
      using ys(3) rearr_length [OF ys(2)] unfolding sorted_on_def by (metis of_nat_0_le_iff of_nat_less_iff zle_diff1_eq)
    then show "c (ys ! k) (ys ! m) \<le> 0" by simp
  qed
  then show ?thesis using ys rearr_mset by blast
qed

end
