(* ===== verification/StringList.thy ===== *)
theory StringList
  imports StringSort UnixPath "HOL-Library.List_Lexorder"
begin

text \<open>
  String lists: \<open>TStringList\<close> and what it inherits from \<open>TStrings\<close>, \<open>src/base/Classes.cpp\<close>. An item is a
  string with an object; the vectors of strings and of objects have the same length in the code and are
  one list here. The comparisons of the operating system, with and without regard to case, are the
  parameter \<open>cmp\<close>. Notifications of changes are not modelled. \<open>NPOS\<close> is -1.
\<close>

datatype TDuplicates = dupAccept | dupError | dupIgnore

record 'o TStringList =
  FItems :: "(ustring \<times> 'o option) list"
  FSorted :: bool
  FCaseSensitive :: bool
  FDuplicates :: TDuplicates

type_synonym compare = "bool \<Rightarrow> ustring \<Rightarrow> ustring \<Rightarrow> int"

definition new_TStringList :: "'o TStringList" where
  "new_TStringList = \<lparr>FItems = [], FSorted = False, FCaseSensitive = False, FDuplicates = dupAccept\<rparr>"

definition List_GetCount :: "'o TStringList \<Rightarrow> int" where
  "List_GetCount sl = int (length (FItems sl))"

definition CompareStrings :: "compare \<Rightarrow> 'o TStringList \<Rightarrow> ustring \<Rightarrow> ustring \<Rightarrow> int" where
  "CompareStrings cmp sl s1 s2 = cmp (FCaseSensitive sl) s1 s2"

section \<open>Searching\<close>

text \<open>The binary search of \<open>Find\<close>: both limits and whether an equal string was met.\<close>

function find_loop :: "(nat \<Rightarrow> int) \<Rightarrow> bool \<Rightarrow> nat \<Rightarrow> nat \<Rightarrow> bool \<Rightarrow> nat \<times> nat \<times> bool" where
  "find_loop c leftmost l h found =
     (if l < h then
        (let idx = (l + h) div 2
         in if (if leftmost then c idx < 0 else c idx > 0) then
              (if leftmost then find_loop c leftmost (idx + 1) h found else find_loop c leftmost l idx found)
            else
              (let found = (if c idx = 0 then True else found)
               in if \<not> leftmost then find_loop c leftmost (idx + 1) h found else find_loop c leftmost l idx found))
      else (l, h, found))"
  by pat_completeness auto
termination
  by (relation "measure (\<lambda>(_, _, l, h, _). h - l)") auto

declare find_loop.simps [simp del]

primrec linear_search :: "(ustring \<Rightarrow> bool) \<Rightarrow> ustring list \<Rightarrow> int \<Rightarrow> int" where
  "linear_search P [] index = -1"
| "linear_search P (s # ss) index = (if P s then index else linear_search P ss (index + 1))"

definition Find :: "compare \<Rightarrow> 'o TStringList \<Rightarrow> ustring \<Rightarrow> bool \<Rightarrow> bool \<times> int" where
  "Find cmp sl s leftmost =
     (if FSorted sl then
        (case find_loop (\<lambda>idx. CompareStrings cmp sl (fst (FItems sl ! idx)) s) leftmost 0 (length (FItems sl)) False of
           (l, h, found) \<Rightarrow> (found, if leftmost then int l else if found then int h - 1 else int h))
      else
        (let index = linear_search (\<lambda>k. CompareStrings cmp sl k s = 0) (map fst (FItems sl)) 0
         in (index \<noteq> -1, index)))"

definition Strings_IndexOf :: "compare \<Rightarrow> 'o TStringList \<Rightarrow> ustring \<Rightarrow> int" where
  "Strings_IndexOf cmp sl s = linear_search (\<lambda>k. CompareStrings cmp sl k s = 0) (map fst (FItems sl)) 0"

definition List_IndexOf :: "compare \<Rightarrow> 'o TStringList \<Rightarrow> ustring \<Rightarrow> int" where
  "List_IndexOf cmp sl s =
     (if \<not> FSorted sl then Strings_IndexOf cmp sl s
      else case Find cmp sl s True of (found, index) \<Rightarrow> if found then index else -1)"

section \<open>Changing\<close>

definition InsertItem :: "int \<Rightarrow> ustring \<Rightarrow> 'o option \<Rightarrow> 'o TStringList \<Rightarrow> 'o TStringList res" where
  "InsertItem index s obj sl =
     (if index = -1 \<or> index > List_GetCount sl then Inl EListError
      else if index < 0 then Inl EUndefinedBehaviour
      else Inr (sl\<lparr>FItems := take (nat index) (FItems sl) @ (s, obj) # drop (nat index) (FItems sl)\<rparr>))"

definition AddObject :: "compare \<Rightarrow> ustring \<Rightarrow> 'o option \<Rightarrow> 'o TStringList \<Rightarrow> (int \<times> 'o TStringList) res" where
  "AddObject cmp s obj sl =
     (let put = (\<lambda>index. rbind (InsertItem index s obj sl) (\<lambda>sl. Inr (index, sl)))
      in if \<not> FSorted sl then put (List_GetCount sl)
         else (case Find cmp sl s False of (found, index) \<Rightarrow>
                 if found then
                   (case FDuplicates sl of
                      dupIgnore \<Rightarrow> Inr (index, sl)
                    | dupError \<Rightarrow> Inl EListError
                    | dupAccept \<Rightarrow> put (index + 1))
                 else put index))"

definition List_Add :: "compare \<Rightarrow> ustring \<Rightarrow> 'o TStringList \<Rightarrow> (int \<times> 'o TStringList) res" where
  "List_Add cmp s sl = AddObject cmp s None sl"

text \<open>\<open>TStrings::Add\<close> is not virtual: what \<open>TStrings\<close> adds itself goes to the end, also of a sorted list.\<close>

definition Strings_Add :: "ustring \<Rightarrow> 'o option \<Rightarrow> 'o TStringList \<Rightarrow> (int \<times> 'o TStringList) res" where
  "Strings_Add s obj sl = rbind (InsertItem (List_GetCount sl) s obj sl) (\<lambda>sl'. Inr (List_GetCount sl, sl'))"

definition Strings_Delete :: "int \<Rightarrow> 'o TStringList \<Rightarrow> 'o TStringList res" where
  "Strings_Delete index sl =
     (if index = -1 \<or> index \<ge> List_GetCount sl then Inl EListError
      else if index < 0 then Inl EUndefinedBehaviour
      else Inr (sl\<lparr>FItems := take (nat index) (FItems sl) @ drop (nat index + 1) (FItems sl)\<rparr>))"

definition Strings_Clear :: "'o TStringList \<Rightarrow> 'o TStringList" where
  "Strings_Clear sl = sl\<lparr>FItems := []\<rparr>"

definition SetString :: "int \<Rightarrow> ustring \<Rightarrow> 'o TStringList \<Rightarrow> 'o TStringList res" where
  "SetString index s sl =
     (if FSorted sl then Inl EListError
      else if index = -1 \<or> index > List_GetCount sl then Inl EListError
      else if index < 0 then Inl EUndefinedBehaviour
      else if index < List_GetCount sl then Inr (sl\<lparr>FItems := (FItems sl)[nat index := (s, snd (FItems sl ! nat index))]\<rparr>)
      else InsertItem index s None sl)"

definition InsertObject :: "int \<Rightarrow> ustring \<Rightarrow> 'o option \<Rightarrow> 'o TStringList \<Rightarrow> 'o TStringList res" where
  "InsertObject index key obj sl =
     (if FSorted sl then Inl EListError
      else if index = -1 \<or> index > List_GetCount sl then Inl EListError
      else InsertItem index key obj sl)"

text \<open>Reading the string behind the last one appends an empty string.\<close>

definition GetString :: "int \<Rightarrow> 'o TStringList \<Rightarrow> (ustring \<times> 'o TStringList) res" where
  "GetString index sl =
     (if index = -1 \<or> index > List_GetCount sl then Inl EListError
      else if index < 0 then Inl EUndefinedBehaviour
      else if index = List_GetCount sl then rbind (InsertItem index [] None sl) (\<lambda>sl. Inr ([], sl))
      else Inr (fst (FItems sl ! nat index), sl))"

definition SetObject :: "int \<Rightarrow> 'o option \<Rightarrow> 'o TStringList \<Rightarrow> 'o TStringList res" where
  "SetObject index obj sl =
     (if index = -1 \<or> index \<ge> List_GetCount sl then Inl EListError
      else if index < 0 then Inl EUndefinedBehaviour
      else Inr (sl\<lparr>FItems := (FItems sl)[nat index := (fst (FItems sl ! nat index), obj)]\<rparr>))"

definition CustomSort :: "((ustring \<times> 'o option) \<Rightarrow> (ustring \<times> 'o option) \<Rightarrow> int) \<Rightarrow> 'o TStringList \<Rightarrow> 'o TStringList res option" where
  "CustomSort c sl =
     (if \<not> FSorted sl \<and> List_GetCount sl > 1 then
        Option.bind (QuickSort c (FItems sl) 0 (List_GetCount sl - 1)) (\<lambda>res.
          Some (rbind res (\<lambda>items. Inr (sl\<lparr>FItems := items\<rparr>))))
      else Some (Inr sl))"

definition Strings_Sort :: "compare \<Rightarrow> 'o TStringList \<Rightarrow> 'o TStringList res option" where
  "Strings_Sort cmp sl = CustomSort (\<lambda>x y. CompareStrings cmp sl (fst x) (fst y)) sl"

definition SetSorted :: "compare \<Rightarrow> bool \<Rightarrow> 'o TStringList \<Rightarrow> 'o TStringList res option" where
  "SetSorted cmp v sl =
     (if v \<noteq> FSorted sl then
        Option.bind (if v then Strings_Sort cmp sl else Some (Inr sl)) (\<lambda>res.
          Some (rbind res (\<lambda>sl. Inr (sl\<lparr>FSorted := v\<rparr>))))
      else Some (Inr sl))"

definition SetCaseSensitive :: "compare \<Rightarrow> bool \<Rightarrow> 'o TStringList \<Rightarrow> 'o TStringList res option" where
  "SetCaseSensitive cmp v sl =
     (if v \<noteq> FCaseSensitive sl then
        (let sl = sl\<lparr>FCaseSensitive := v\<rparr>
         in if FSorted sl then Strings_Sort cmp sl else Some (Inr sl))
      else Some (Inr sl))"

definition Strings_Equals :: "'o TStringList \<Rightarrow> 'o TStringList \<Rightarrow> bool" where
  "Strings_Equals sl sl' \<longleftrightarrow> map fst (FItems sl) = map fst (FItems sl')"

fun AddStrings :: "compare \<Rightarrow> (ustring \<times> 'o option) list \<Rightarrow> 'o TStringList \<Rightarrow> 'o TStringList res" where
  "AddStrings cmp [] sl = Inr sl"
| "AddStrings cmp ((s, obj) # items) sl = rbind (AddObject cmp s obj sl) (\<lambda>(_, sl). AddStrings cmp items sl)"

definition Strings_Assign :: "compare \<Rightarrow> 'o TStringList \<Rightarrow> 'o TStringList \<Rightarrow> 'o TStringList res" where
  "Strings_Assign cmp source sl = AddStrings cmp (FItems source) (Strings_Clear sl)"

section \<open>Names and values\<close>

definition IndexOfName :: "compare \<Rightarrow> 'o TStringList \<Rightarrow> ustring \<Rightarrow> int" where
  "IndexOfName cmp sl name =
     linear_search (\<lambda>s. let p = Pos_char s (CHR ''='') in p > 0 \<and> CompareStrings cmp sl (SubString s 1 (p - 1)) name = 0)
       (map fst (FItems sl)) 0"

definition ExtractName :: "ustring \<Rightarrow> ustring" where
  "ExtractName s = (let p = Pos_char s (CHR ''='') in if p > 0 then SetLength s (p - 1) else [])"

definition Strings_GetValue :: "compare \<Rightarrow> 'o TStringList \<Rightarrow> ustring \<Rightarrow> ustring" where
  "Strings_GetValue cmp sl name =
     (let index = IndexOfName cmp sl name
      in if index \<ge> 0 then SubString_from (fst (FItems sl ! nat index)) (Length name + 2) else [])"

definition Strings_SetValue :: "compare \<Rightarrow> ustring \<Rightarrow> ustring \<Rightarrow> 'o TStringList \<Rightarrow> 'o TStringList res" where
  "Strings_SetValue cmp name v sl =
     (let index = IndexOfName cmp sl name
      in if v \<noteq> [] then
           rbind (if index < 0 then Strings_Add [] None sl else Inr (index, sl)) (\<lambda>(index, sl).
             SetString index (name @ ''='' @ v) sl)
         else if index \<ge> 0 then Strings_Delete index sl
         else Inr sl)"

section \<open>Text\<close>

abbreviation (input) EolCR :: char where "EolCR \<equiv> CHR 0x0D"
abbreviation (input) EolLF :: char where "EolLF \<equiv> CHR 0x0A"

definition GetTextStr :: "ustring list \<Rightarrow> ustring" where
  "GetTextStr strs = concat (map (\<lambda>s. s @ [EolCR, EolLF]) strs)"

text \<open>The lines of a text up to its terminator; a carriage return and a line feed end a line together or each alone.\<close>

function text_lines :: "ustring \<Rightarrow> ustring list" where
  "text_lines p =
     (if p = [] \<or> hd p = CHR 0x00 then []
      else
        (let s = takeWhile (\<lambda>c. \<not> (c = CHR 0x00 \<or> c = EolLF \<or> c = EolCR)) p;
             p = drop (length s) p;
             p = (if p \<noteq> [] \<and> hd p = EolCR then tl p else p);
             p = (if p \<noteq> [] \<and> hd p = EolLF then tl p else p)
         in s # text_lines p))"
  by pat_completeness auto
termination
  by (relation "measure length") (auto simp: Let_def neq_Nil_conv split: if_splits)

declare text_lines.simps [simp del]

fun add_lines :: "ustring list \<Rightarrow> 'o TStringList \<Rightarrow> 'o TStringList res" where
  "add_lines [] sl = Inr sl"
| "add_lines (s # ss) sl = rbind (Strings_Add s None sl) (\<lambda>(_, sl). add_lines ss sl)"

definition SetTextStr :: "ustring \<Rightarrow> 'o TStringList \<Rightarrow> 'o TStringList res" where
  "SetTextStr txt sl = add_lines (text_lines txt) (Strings_Clear sl)"

text \<open>
  Text with delimiters. For a single empty string the code adds two characters as numbers and assigns
  the character with the sum as its code.
\<close>

definition GetDelimitedText :: "char \<Rightarrow> char \<Rightarrow> ustring list \<Rightarrow> ustring" where
  "GetDelimitedText quote delimiter strs =
     (if strs = [[]] then [char_of (of_char quote + of_char quote :: nat)]
      else butlast (concat (map (\<lambda>line. [quote] @ line @ [quote] @ [delimiter]) strs)))"

definition GetCommaText :: "ustring list \<Rightarrow> ustring" where
  "GetCommaText strs = GetDelimitedText (CHR 0x22) (CHR '','') strs"

function tokenize :: "ustring \<Rightarrow> ustring \<Rightarrow> bool \<Rightarrow> ustring list" where
  "tokenize str delimiters trimEmpty =
     (let token = takeWhile (\<lambda>c. c \<notin> set delimiters) str;
          rest = drop (length token) str;
          add = (if token \<noteq> [] \<or> \<not> trimEmpty then [token] else [])
      in if rest = [] then add else add @ tokenize (tl rest) delimiters trimEmpty)"
  by pat_completeness auto
termination
  by (relation "measure (\<lambda>(str, _). length str)") (auto simp: neq_Nil_conv)

declare tokenize.simps [simp del]

definition SetDelimitedText :: "char \<Rightarrow> ustring \<Rightarrow> 'o TStringList \<Rightarrow> 'o TStringList res" where
  "SetDelimitedText delimiter v sl = add_lines (tokenize v [delimiter, EolLF] True) (Strings_Clear sl)"

definition SetCommaText :: "ustring \<Rightarrow> 'o TStringList \<Rightarrow> 'o TStringList res" where
  "SetCommaText v sl = SetDelimitedText (CHR '','') v sl"

section \<open>Binary search\<close>

definition ascending :: "(nat \<Rightarrow> int) \<Rightarrow> nat \<Rightarrow> bool" where
  "ascending c n \<longleftrightarrow> (\<forall>i j. i < j \<longrightarrow> j < n \<longrightarrow> (c j < 0 \<longrightarrow> c i < 0) \<and> (0 < c i \<longrightarrow> 0 < c j))"

lemma ascendingD:
  assumes "ascending c n" "i \<le> j" "j < n"
  shows "c j < 0 \<Longrightarrow> c i < 0" "0 < c i \<Longrightarrow> 0 < c j" "0 \<le> c i \<Longrightarrow> 0 \<le> c j" "c j \<le> 0 \<Longrightarrow> c i \<le> 0"
proof -
  have "(c j < 0 \<longrightarrow> c i < 0) \<and> (0 < c i \<longrightarrow> 0 < c j)"
  proof (cases "i = j")
    case False
    then have "i < j" using assms(2) by simp
    then show ?thesis using assms(1,3) unfolding ascending_def by blast
  qed simp
  then show "c j < 0 \<Longrightarrow> c i < 0" "0 < c i \<Longrightarrow> 0 < c j" "0 \<le> c i \<Longrightarrow> 0 \<le> c j" "c j \<le> 0 \<Longrightarrow> c i \<le> 0"
    by linarith+
qed

text \<open>A range is described by the limit that is found, and by whether it contains an equal item.\<close>

definition search_split :: "(nat \<Rightarrow> int) \<Rightarrow> bool \<Rightarrow> nat \<Rightarrow> nat \<Rightarrow> nat \<Rightarrow> bool" where
  "search_split c leftmost l m h \<longleftrightarrow> l \<le> m \<and> m \<le> h \<and>
     (\<forall>i. l \<le> i \<longrightarrow> i < m \<longrightarrow> (if leftmost then c i < 0 else c i \<le> 0)) \<and>
     (\<forall>i. m \<le> i \<longrightarrow> i < h \<longrightarrow> (if leftmost then 0 \<le> c i else 0 < c i))"

definition has_equal :: "(nat \<Rightarrow> int) \<Rightarrow> nat \<Rightarrow> nat \<Rightarrow> bool" where
  "has_equal c l h \<longleftrightarrow> (\<exists>i. l \<le> i \<and> i < h \<and> c i = 0)"

lemma has_equal_up:
  assumes "ascending c n" "l \<le> k" "k < h" "h \<le> n" "c k \<le> 0"
  shows "has_equal c l h \<longleftrightarrow> c k = 0 \<or> has_equal c (k + 1) h"
proof
  assume "has_equal c l h"
  then obtain i where i: "l \<le> i" "i < h" "c i = 0" by (auto simp: has_equal_def)
  show "c k = 0 \<or> has_equal c (k + 1) h"
  proof (cases "i \<le> k")
    case True
    then have "0 \<le> c k" using ascendingD(3) [OF assms(1) True] i(3) assms(3,4) by simp
    then show ?thesis using assms(5) by simp
  next
    case False
    then show ?thesis using i by (auto simp: has_equal_def)
  qed
next
  assume "c k = 0 \<or> has_equal c (k + 1) h"
  then obtain i where "k \<le> i" "i < h" "c i = 0" using assms(3) unfolding has_equal_def by (metis add_leE order_refl)
  then show "has_equal c l h" using assms(2) unfolding has_equal_def by (intro exI [of _ i]) simp
qed

lemma has_equal_down:
  assumes "ascending c n" "l \<le> k" "k < h" "h \<le> n" "0 \<le> c k"
  shows "has_equal c l h \<longleftrightarrow> c k = 0 \<or> has_equal c l k"
proof
  assume "has_equal c l h"
  then obtain i where i: "l \<le> i" "i < h" "c i = 0" by (auto simp: has_equal_def)
  show "c k = 0 \<or> has_equal c l k"
  proof (cases "k \<le> i")
    case True
    then have "c k \<le> 0" using ascendingD(4) [OF assms(1) True] i assms(4) by simp
    then show ?thesis using assms(5) by simp
  next
    case False
    then show ?thesis using i by (auto simp: has_equal_def)
  qed
next
  assume "c k = 0 \<or> has_equal c l k"
  then obtain i where "l \<le> i" "i \<le> k" "c i = 0" using assms(2) unfolding has_equal_def by (metis less_imp_le order_refl)
  then show "has_equal c l h" using assms(3) unfolding has_equal_def by (intro exI [of _ i]) simp
qed

lemma search_split_up:
  assumes "ascending c n" "k < h" "h \<le> n" "if leftmost then c k < 0 else c k \<le> 0" "search_split c leftmost (k + 1) m h" "l \<le> k"
  shows "search_split c leftmost l m h"
proof -
  have "if leftmost then c i < 0 else c i \<le> 0" if "i \<le> k" for i
    using ascendingD(1,4) [OF assms(1) that] assms(2-4) by (auto split: if_splits)
  moreover have "if leftmost then c i < 0 else c i \<le> 0" if "\<not> i \<le> k" "i < m" for i
    using assms(5) that unfolding search_split_def by simp
  ultimately have "\<forall>i. l \<le> i \<longrightarrow> i < m \<longrightarrow> (if leftmost then c i < 0 else c i \<le> 0)" by blast
  then show ?thesis using assms(5,6) unfolding search_split_def by simp
qed

lemma search_split_down:
  assumes "ascending c n" "k < h" "h \<le> n" "if leftmost then 0 \<le> c k else 0 < c k" "search_split c leftmost l m k"
  shows "search_split c leftmost l m h"
proof -
  have "if leftmost then 0 \<le> c i else 0 < c i" if "k \<le> i" "i < h" for i
    using ascendingD(2,3) [OF assms(1) that(1)] that assms(3,4) by (auto split: if_splits)
  moreover have "if leftmost then 0 \<le> c i else 0 < c i" if "m \<le> i" "\<not> k \<le> i" for i
    using assms(5) that unfolding search_split_def by simp
  ultimately have "\<forall>i. m \<le> i \<longrightarrow> i < h \<longrightarrow> (if leftmost then 0 \<le> c i else 0 < c i)" by blast
  then show ?thesis using assms(2,5) unfolding search_split_def by simp
qed

lemma find_loop_correct:
  assumes "ascending c n"
  shows "find_loop c leftmost l h found = (l', h', found') \<Longrightarrow> l \<le> h \<Longrightarrow> h \<le> n \<Longrightarrow>
    h' = l' \<and> search_split c leftmost l l' h \<and> (found' \<longleftrightarrow> found \<or> has_equal c l h)"
proof (induction "h - l" arbitrary: l h found rule: less_induct)
  case less
  show ?case
  proof (cases "l < h")
    case False
    then show ?thesis using less.prems unfolding find_loop.simps [of c leftmost l h] by (auto simp: search_split_def has_equal_def)
  next
    case True
    define k where "k = (l + h) div 2"
    have k: "l \<le> k" "k < h" using True by (auto simp: k_def)
    define up where "up \<longleftrightarrow> (if leftmost then c k < 0 else c k \<le> 0)"
    have step: "find_loop c leftmost l h found =
        (if up then find_loop c leftmost (k + 1) h (found \<or> c k = 0) else find_loop c leftmost l k (found \<or> c k = 0))"
      using True unfolding up_def find_loop.simps [of c leftmost l h found] Let_def k_def [symmetric] by (cases leftmost) auto
    show ?thesis
    proof (cases up)
      case True
      then have "find_loop c leftmost (k + 1) h (found \<or> c k = 0) = (l', h', found')" using less.prems(1) step by simp
      moreover have "h - (k + 1) < h - l" using k by simp
      ultimately have IH: "h' = l' \<and> search_split c leftmost (k + 1) l' h \<and> (found' \<longleftrightarrow> (found \<or> c k = 0) \<or> has_equal c (k + 1) h)"
        using less.hyps [of h "k + 1" "found \<or> c k = 0"] less.prems(3) k(2) by simp
      have "c k \<le> 0" "if leftmost then c k < 0 else c k \<le> 0" using True unfolding up_def by (auto split: if_splits)
      then show ?thesis
        using IH has_equal_up [OF assms k less.prems(3)] search_split_up [OF assms k(2) less.prems(3) _ _ k(1)] by blast
    next
      case False
      then have "find_loop c leftmost l k (found \<or> c k = 0) = (l', h', found')" using less.prems(1) step by simp
      moreover have "k - l < h - l" using k by simp
      ultimately have IH: "h' = l' \<and> search_split c leftmost l l' k \<and> (found' \<longleftrightarrow> (found \<or> c k = 0) \<or> has_equal c l k)"
        using less.hyps [of k l "found \<or> c k = 0"] less.prems(3) k by simp
      have "0 \<le> c k" "if leftmost then 0 \<le> c k else 0 < c k" using False unfolding up_def by (auto split: if_splits)
      then show ?thesis
        using IH has_equal_down [OF assms k less.prems(3)] search_split_down [OF assms k(2) less.prems(3)] by blast
    qed
  qed
qed

section \<open>Sorted lists\<close>

text \<open>Sorted lists are in order; when duplicates are refused, strictly.\<close>

definition list_order :: "compare \<Rightarrow> 'o TStringList \<Rightarrow> ustring \<times> 'o option \<Rightarrow> ustring \<times> 'o option \<Rightarrow> bool" where
  "list_order cmp sl x y \<longleftrightarrow>
     (if FDuplicates sl = dupAccept then CompareStrings cmp sl (fst x) (fst y) \<le> 0 else CompareStrings cmp sl (fst x) (fst y) < 0)"

definition list_valid :: "compare \<Rightarrow> 'o TStringList \<Rightarrow> bool" where
  "list_valid cmp sl \<longleftrightarrow> (FSorted sl \<longrightarrow> sorted_wrt (list_order cmp sl) (FItems sl))"

lemma list_order_items [simp]: "list_order cmp (sl\<lparr>FItems := items\<rparr>) = list_order cmp sl"
  by (intro ext) (simp add: list_order_def CompareStrings_def)

abbreviation (input) laws :: "compare \<Rightarrow> 'o TStringList \<Rightarrow> bool" where
  "laws cmp sl \<equiv> compare_laws (cmp (FCaseSensitive sl))"

lemma list_valid_le:
  assumes "list_valid cmp sl" "FSorted sl" "i < j" "j < length (FItems sl)"
  shows "CompareStrings cmp sl (fst (FItems sl ! i)) (fst (FItems sl ! j)) \<le> 0"
proof -
  have "list_order cmp sl (FItems sl ! i) (FItems sl ! j)"
    using sorted_wrt_nth_less [OF _ assms(3,4)] assms(1,2) unfolding list_valid_def by blast
  then show ?thesis by (auto simp: list_order_def split: if_splits)
qed

lemma compare_less:
  assumes "compare_laws c" "c x y \<le> 0"
  shows "c y z < 0 \<Longrightarrow> c x z < 0" "0 < c x z \<Longrightarrow> 0 < c y z" "c x z = 0 \<Longrightarrow> 0 \<le> c y z" "c y z = 0 \<Longrightarrow> c x z \<le> 0"
proof -
  note l = compare_lawsD [OF assms(1)]
  show "c x z < 0" if "c y z < 0"
  proof (rule ccontr)
    assume "\<not> c x z < 0"
    then have "c z x \<le> 0" using l(2) [of z x] by simp
    then have "c z y \<le> 0" using l(3) assms(2) by blast
    then show False using l(2) [of z y] that by simp
  qed
  show "0 < c y z" if "0 < c x z" using l(3) [OF assms(2), of z] that by linarith
  show "c x z \<le> 0" if "c y z = 0" using l(3) [OF assms(2), of z] that by simp
  show "0 \<le> c y z" if "c x z = 0"
  proof -
    have "c z x \<le> 0" using l(2) [of z x] that by simp
    then have "c z y \<le> 0" using l(3) assms(2) by blast
    then show ?thesis using l(2) [of z y] by simp
  qed
qed

lemma list_ascending:
  assumes "list_valid cmp sl" "FSorted sl" "laws cmp sl"
  shows "ascending (\<lambda>k. CompareStrings cmp sl (fst (FItems sl ! k)) s) (length (FItems sl))"
  unfolding ascending_def
proof (intro allI impI)
  fix i j assume "i < j" "j < length (FItems sl)"
  from list_valid_le [OF assms(1,2) this] show
    "(CompareStrings cmp sl (fst (FItems sl ! j)) s < 0 \<longrightarrow> CompareStrings cmp sl (fst (FItems sl ! i)) s < 0) \<and>
     (0 < CompareStrings cmp sl (fst (FItems sl ! i)) s \<longrightarrow> 0 < CompareStrings cmp sl (fst (FItems sl ! j)) s)"
    unfolding CompareStrings_def using compare_less(1,2) [OF assms(3)] by blast
qed

lemma linear_search_found:
  "n < length xs \<Longrightarrow> P (xs ! n) \<Longrightarrow> \<forall>m < n. \<not> P (xs ! m) \<Longrightarrow> linear_search P xs k = k + int n"
proof (induction xs arbitrary: n k)
  case (Cons x xs)
  show ?case
  proof (cases n)
    case 0
    then show ?thesis using Cons.prems by simp
  next
    case (Suc m)
    have "\<not> P x" using Cons.prems(3) Suc by force
    moreover have "\<forall>i < m. \<not> P (xs ! i)" using Cons.prems(3) Suc by force
    ultimately show ?thesis using Cons.IH [of m "k + 1"] Cons.prems Suc by simp
  qed
qed simp

lemma linear_search_none: "\<forall>x \<in> set xs. \<not> P x \<Longrightarrow> linear_search P xs k = -1"
  by (induction xs arbitrary: k) simp_all

lemma linear_search_cases:
  obtains (none) "\<forall>x \<in> set xs. \<not> P x" "linear_search P xs 0 = -1"
  | (found) n where "n < length xs" "P (xs ! n)" "\<forall>m < n. \<not> P (xs ! m)" "linear_search P xs 0 = int n"
proof (cases "\<exists>n < length xs. P (xs ! n)")
  case True
  define n where "n = (LEAST n. n < length xs \<and> P (xs ! n))"
  have "n < length xs \<and> P (xs ! n)" unfolding n_def using LeastI_ex [OF True] .
  moreover have "\<forall>m < n. \<not> P (xs ! m)"
    using not_less_Least calculation unfolding n_def by (metis (lifting) less_trans)
  ultimately show thesis using found [of n] linear_search_found [of n xs P 0] by simp
next
  case False
  then have "\<forall>x \<in> set xs. \<not> P x" by (auto simp: in_set_conv_nth)
  then show thesis using none linear_search_none by blast
qed

text \<open>What the two binary searches of a sorted list find.\<close>

lemma Find_sorted:
  assumes "list_valid cmp sl" "FSorted sl" "laws cmp sl"
  obtains h where "search_split (\<lambda>k. CompareStrings cmp sl (fst (FItems sl ! k)) s) leftmost 0 h (length (FItems sl))"
    "Find cmp sl s leftmost = (has_equal (\<lambda>k. CompareStrings cmp sl (fst (FItems sl ! k)) s) 0 (length (FItems sl)),
       if leftmost then int h else if has_equal (\<lambda>k. CompareStrings cmp sl (fst (FItems sl ! k)) s) 0 (length (FItems sl))
         then int h - 1 else int h)"
proof -
  let ?c = "\<lambda>k. CompareStrings cmp sl (fst (FItems sl ! k)) s"
  obtain l h f where loop: "find_loop ?c leftmost 0 (length (FItems sl)) False = (l, h, f)" by (meson prod_cases3)
  from find_loop_correct [OF list_ascending [OF assms] loop] show ?thesis
    using that [of h] assms(2) loop by (simp add: Find_def)
qed

text \<open>C37: In a sorted list the binary search finds what the linear search finds, the first of the equal strings, and
  nothing when there is none.\<close>

theorem IndexOf_sorted:
  assumes "list_valid cmp sl" "laws cmp sl"
  shows "List_IndexOf cmp sl s = Strings_IndexOf cmp sl s"
proof (cases "FSorted sl")
  case True
  let ?c = "\<lambda>k. CompareStrings cmp sl (fst (FItems sl ! k)) s" and ?n = "length (FItems sl)"
  obtain h where h: "search_split ?c True 0 h ?n" "Find cmp sl s True = (has_equal ?c 0 ?n, int h)"
    by (rule Find_sorted [OF assms(1) True assms(2), of s True]) simp
  show ?thesis
  proof (cases rule: linear_search_cases [of "map fst (FItems sl)" "\<lambda>k. CompareStrings cmp sl k s = 0"])
    case none
    then have "\<not> has_equal ?c 0 ?n" by (auto simp: has_equal_def)
    then show ?thesis using h(2) True none(2) by (simp add: List_IndexOf_def Strings_IndexOf_def)
  next
    case (found m)
    have m: "m < ?n" "?c m = 0" using found(1,2) by simp_all
    then have "has_equal ?c 0 ?n" by (auto simp: has_equal_def)
    moreover have hm: "h \<le> m"
    proof (rule ccontr)
      assume "\<not> h \<le> m"
      then have "?c m < 0" using h(1) unfolding search_split_def by simp
      then show False using m(2) by simp
    qed
    moreover have "h = m"
    proof -
      have "?c h \<le> 0" using ascendingD(4) [OF list_ascending [OF assms(1) True assms(2)] hm m(1)] m(2) by simp
      moreover have "0 \<le> ?c h" using h(1) hm m(1) unfolding search_split_def by simp
      ultimately have "?c h = 0" by simp
      then show ?thesis using found(1,3) hm by (cases "h < m") auto
    qed
    ultimately show ?thesis using h(2) True found(4) by (simp add: List_IndexOf_def Strings_IndexOf_def)
  qed
next
  case False
  then show ?thesis by (simp add: List_IndexOf_def)
qed

text \<open>A comparison with these laws: by the codes of the characters, without regard to the case of letters when it is ignored.\<close>

definition fold_code :: "bool \<Rightarrow> char \<Rightarrow> nat" where
  "fold_code cs c = (let n = of_char c in if \<not> cs \<and> 97 \<le> n \<and> n \<le> 122 then n - 32 else n)"

definition ordinal_compare :: compare where
  "ordinal_compare cs a b =
     (let x = map (fold_code cs) a; y = map (fold_code cs) b in if x < y then -1 else if x = y then 0 else 1)"

lemma compare_laws_ordinal: "compare_laws (ordinal_compare cs)"
  unfolding compare_laws_def ordinal_compare_def Let_def by auto

theorem IndexOf_sorted_witness:
  "List_IndexOf ordinal_compare \<lparr>FItems = [(''a'', Some 4), (''B'', Some 2), (''b'', Some 3), (''c'', None :: nat option)], FSorted = True,
     FCaseSensitive = False, FDuplicates = dupAccept\<rparr> ''b'' = 1"
proof -
  let ?sl = "\<lparr>FItems = [(''a'', Some 4), (''B'', Some 2), (''b'', Some 3), (''c'', None :: nat option)], FSorted = True,
     FCaseSensitive = False, FDuplicates = dupAccept\<rparr>"
  have "list_valid ordinal_compare ?sl" by code_simp
  moreover have "Strings_IndexOf ordinal_compare ?sl ''b'' = 1" by code_simp
  ultimately show ?thesis using IndexOf_sorted [of ordinal_compare ?sl "''b''"] compare_laws_ordinal by simp
qed

lemma sorted_wrt_insert:
  assumes "sorted_wrt P xs" "\<And>y. y \<in> set (take n xs) \<Longrightarrow> P y x" "\<And>y. y \<in> set (drop n xs) \<Longrightarrow> P x y"
  shows "sorted_wrt P (take n xs @ x # drop n xs)"
proof -
  have "sorted_wrt P (take n xs @ drop n xs)" using assms(1) by simp
  then have "sorted_wrt P (take n xs)" "sorted_wrt P (drop n xs)" "\<forall>y \<in> set (take n xs). \<forall>z \<in> set (drop n xs). P y z"
    unfolding sorted_wrt_append by blast+
  moreover have "\<forall>y \<in> set (take n xs). P y x" "\<forall>y \<in> set (drop n xs). P x y" using assms(2,3) by blast+
  ultimately show ?thesis unfolding sorted_wrt_append sorted_wrt.simps by simp
qed

lemma insert_valid:
  assumes "list_valid cmp sl" "FSorted sl" "laws cmp sl" "h \<le> length (FItems sl)"
    and "search_split (\<lambda>k. CompareStrings cmp sl (fst (FItems sl ! k)) s) False 0 h (length (FItems sl))"
    and "FDuplicates sl = dupAccept \<or> \<not> has_equal (\<lambda>k. CompareStrings cmp sl (fst (FItems sl ! k)) s) 0 (length (FItems sl))"
  shows "list_valid cmp (sl\<lparr>FItems := take h (FItems sl) @ (s, obj) # drop h (FItems sl)\<rparr>)"
proof -
  have "list_order cmp sl y (s, obj)" if y: "y \<in> set (take h (FItems sl))" for y
  proof -
    obtain k where k: "k < h" "k < length (FItems sl)" "y = FItems sl ! k" using y by (auto simp: in_set_conv_nth)
    then have "CompareStrings cmp sl (fst y) s \<le> 0" using assms(5) unfolding search_split_def by simp
    moreover have "CompareStrings cmp sl (fst y) s \<noteq> 0" if "FDuplicates sl \<noteq> dupAccept"
      using assms(6) that k unfolding has_equal_def by auto
    ultimately show ?thesis by (auto simp: list_order_def)
  qed
  moreover have "list_order cmp sl (s, obj) y" if y: "y \<in> set (drop h (FItems sl))" for y
  proof -
    obtain k where "k < length (FItems sl) - h" "y = FItems sl ! (h + k)" using y by (auto simp: in_set_conv_nth)
    then have "0 < CompareStrings cmp sl (fst y) s" using assms(5) unfolding search_split_def by simp
    then have "CompareStrings cmp sl s (fst y) < 0"
      using compare_lawsD(2) [OF assms(3), of "fst y" s] unfolding CompareStrings_def by linarith
    then show ?thesis by (simp add: list_order_def)
  qed
  ultimately have "sorted_wrt (list_order cmp sl) (take h (FItems sl) @ (s, obj) # drop h (FItems sl))"
    using assms(1,2) unfolding list_valid_def by (intro sorted_wrt_insert) blast+
  then show ?thesis unfolding list_valid_def by simp
qed

text \<open>The position behind the last equal string holds one, when there is any.\<close>

lemma last_equal:
  assumes "ascending c n" "search_split c False 0 h n" "has_equal c 0 n"
  shows "0 < h" "c (h - 1) = 0"
proof -
  obtain k where k: "k < n" "c k = 0" using assms(3) by (auto simp: has_equal_def)
  have kh: "k < h"
  proof (rule ccontr)
    assume "\<not> k < h"
    then have "0 < c k" using assms(2) k(1) unfolding search_split_def by simp
    then show False using k(2) by simp
  qed
  then show "0 < h" by simp
  have "c (h - 1) \<le> 0" using kh assms(2) unfolding search_split_def by simp
  moreover have "h - 1 < n" "k \<le> h - 1" using kh assms(2) unfolding search_split_def by auto
  then have "0 \<le> c (h - 1)" using ascendingD(3) [OF assms(1)] k(2) by simp
  ultimately show "c (h - 1) = 0" by simp
qed

lemma set_has_equal: "(\<exists>x \<in> set xs. f (fst x) = 0) \<longleftrightarrow> has_equal (\<lambda>k. f (fst (xs ! k))) 0 (length xs)"
proof
  assume "\<exists>x \<in> set xs. f (fst x) = 0"
  then obtain x where "x \<in> set xs" "f (fst x) = 0" by blast
  then obtain i where "i < length xs" "f (fst (xs ! i)) = 0" unfolding in_set_conv_nth by blast
  then show "has_equal (\<lambda>k. f (fst (xs ! k))) 0 (length xs)" unfolding has_equal_def by blast
next
  assume "has_equal (\<lambda>k. f (fst (xs ! k))) 0 (length xs)"
  then obtain i where "i < length xs" "f (fst (xs ! i)) = 0" unfolding has_equal_def by blast
  then show "\<exists>x \<in> set xs. f (fst x) = 0" using nth_mem by blast
qed

lemma AddObject_cases:
  fixes obj :: "'o option"
  assumes "FSorted sl" "Find cmp sl s False = (found, if found then int h - 1 else int h)" "h \<le> length (FItems sl)"
  defines "put \<equiv> Inr (int h, sl\<lparr>FItems := take h (FItems sl) @ (s, obj) # drop h (FItems sl)\<rparr>)"
  shows "AddObject cmp s obj sl =
    (if found then (case FDuplicates sl of dupIgnore \<Rightarrow> Inr (int h - 1, sl) | dupError \<Rightarrow> Inl EListError | dupAccept \<Rightarrow> put) else put)"
proof -
  have ins: "InsertItem (int h) s obj sl = Inr (sl\<lparr>FItems := take h (FItems sl) @ (s, obj) # drop h (FItems sl)\<rparr>)"
    using assms(3) by (simp add: InsertItem_def List_GetCount_def)
  show ?thesis
    using ins assms(1) unfolding AddObject_def assms(2) put_def Let_def by (cases found; cases "FDuplicates sl") simp_all
qed

text \<open>C38: Adding to a valid sorted list: without an equal string, or when duplicates are accepted, the item is inserted at
  the returned index and the list stays sorted; with an equal string it is refused with an error or
  ignored, as the setting says, and the list does not change.\<close>

theorem AddObject_sorted:
  assumes "list_valid cmp sl" "FSorted sl" "laws cmp sl"
  shows "let equal = (\<exists>x \<in> set (FItems sl). CompareStrings cmp sl (fst x) s = 0) in
    if equal \<and> FDuplicates sl = dupError then AddObject cmp s obj sl = Inl EListError
    else if equal \<and> FDuplicates sl = dupIgnore then
      \<exists>i < length (FItems sl). AddObject cmp s obj sl = Inr (int i, sl) \<and> CompareStrings cmp sl (fst (FItems sl ! i)) s = 0
    else \<exists>i \<le> length (FItems sl). \<exists>sl'. AddObject cmp s obj sl = Inr (int i, sl') \<and> list_valid cmp sl' \<and>
      sl' = sl\<lparr>FItems := take i (FItems sl) @ (s, obj) # drop i (FItems sl)\<rparr>"
proof -
  define c n where "c = (\<lambda>k. CompareStrings cmp sl (fst (FItems sl ! k)) s)" and "n = length (FItems sl)"
  note fold = c_def [symmetric] n_def [symmetric]
  obtain h where h: "search_split c False 0 h n" "Find cmp sl s False = (has_equal c 0 n, if has_equal c 0 n then int h - 1 else int h)"
    by (rule Find_sorted [OF assms, of s False]) (simp add: fold)
  have eq: "(\<exists>x \<in> set (FItems sl). CompareStrings cmp sl (fst x) s = 0) \<longleftrightarrow> has_equal c 0 n"
    using set_has_equal [of "FItems sl" "\<lambda>x. CompareStrings cmp sl x s"] unfolding fold .
  have hn: "h \<le> n" using h(1) by (simp add: search_split_def)
  note add = AddObject_cases [OF assms(2) h(2) hn [unfolded n_def], of obj]
  let ?sl = "sl\<lparr>FItems := take h (FItems sl) @ (s, obj) # drop h (FItems sl)\<rparr>"
  have valid: "FDuplicates sl = dupAccept \<or> \<not> has_equal c 0 n \<Longrightarrow> list_valid cmp ?sl"
    using insert_valid [OF assms, of h s obj] hn h(1) unfolding fold by blast
  consider "\<not> has_equal c 0 n \<or> FDuplicates sl = dupAccept" | "has_equal c 0 n" "FDuplicates sl = dupError"
    | "has_equal c 0 n" "FDuplicates sl = dupIgnore"
    by (cases "FDuplicates sl") auto
  then show ?thesis
  proof cases
    case 1
    then have "AddObject cmp s obj sl = Inr (int h, ?sl)" unfolding add by (cases "FDuplicates sl") auto
    moreover have no: "\<not> (has_equal c 0 n \<and> FDuplicates sl = dupError)" "\<not> (has_equal c 0 n \<and> FDuplicates sl = dupIgnore)"
      using 1 by auto
    ultimately show ?thesis unfolding eq Let_def fold if_not_P [OF no(1)] if_not_P [OF no(2)] using hn valid 1 by blast
  next
    case 2
    then show ?thesis unfolding eq Let_def add by simp
  next
    case 3
    note last = last_equal [OF list_ascending [OF assms, of s, unfolded fold] h(1) 3(1)]
    have "AddObject cmp s obj sl = Inr (int (h - 1), sl)" unfolding add using 3 last(1) by simp
    moreover have "h - 1 < n" "CompareStrings cmp sl (fst (FItems sl ! (h - 1))) s = 0" using last hn by (auto simp: c_def)
    moreover have no: "\<not> (has_equal c 0 n \<and> FDuplicates sl = dupError)" and yes: "has_equal c 0 n \<and> FDuplicates sl = dupIgnore"
      using 3 by auto
    ultimately show ?thesis unfolding eq Let_def fold if_not_P [OF no] if_P [OF yes] by blast
  qed
qed

theorem AddObject_sorted_witness:
  "\<exists>sl'. AddObject ordinal_compare ''ab'' (Some 7) \<lparr>FItems = [(''a'', Some 4), (''b'', None :: nat option)], FSorted = True,
     FCaseSensitive = True, FDuplicates = dupError\<rparr> = Inr (1, sl') \<and> list_valid ordinal_compare sl' \<and>
   AddObject ordinal_compare ''b'' (Some 7) \<lparr>FItems = [(''a'', Some 4), (''b'', None :: nat option)], FSorted = True,
     FCaseSensitive = True, FDuplicates = dupError\<rparr> = Inl EListError"
proof -
  let ?sl = "\<lparr>FItems = [(''a'', Some 4), (''b'', None :: nat option)], FSorted = True, FCaseSensitive = True, FDuplicates = dupError\<rparr>"
  have v: "list_valid ordinal_compare ?sl" "FSorted ?sl" by code_simp+
  have "\<exists>x \<in> set (FItems ?sl). CompareStrings ordinal_compare ?sl (fst x) ''b'' = 0" by code_simp
  then have err: "AddObject ordinal_compare ''b'' (Some 7) ?sl = Inl EListError"
    using AddObject_sorted [of ordinal_compare ?sl "''b''" "Some 7"] v compare_laws_ordinal by simp
  have "\<not> (\<exists>x \<in> set (FItems ?sl). CompareStrings ordinal_compare ?sl (fst x) ''ab'' = 0)" by code_simp
  then obtain i sl' where "AddObject ordinal_compare ''ab'' (Some 7) ?sl = Inr (int i, sl')" "list_valid ordinal_compare sl'"
    using AddObject_sorted [of ordinal_compare ?sl "''ab''" "Some 7"] v compare_laws_ordinal by (simp add: Let_def) blast
  moreover have "map_sum id fst (AddObject ordinal_compare ''ab'' (Some 7) ?sl) = Inr 1" by code_simp
  ultimately show ?thesis using err by auto
qed

text \<open>C36: Switching a list to sorted ends, keeps the items and brings them into the order of the comparison, so that
  binary searches are correct afterwards, unless duplicates are refused and there are some.\<close>

theorem SetSorted_sorts:
  assumes "\<not> FSorted sl" "laws cmp sl"
  shows "\<exists>sl'. SetSorted cmp True sl = Some (Inr sl') \<and> FSorted sl' \<and> mset (FItems sl') = mset (FItems sl) \<and>
    sorted_wrt (\<lambda>x y. CompareStrings cmp sl (fst x) (fst y) \<le> 0) (FItems sl') \<and>
    (FDuplicates sl = dupAccept \<longrightarrow> list_valid cmp sl')"
proof -
  let ?c = "\<lambda>x y. CompareStrings cmp sl (fst x) (fst y)"
  have laws: "compare_laws (?c :: ustring \<times> 'a option \<Rightarrow> _)"
    using assms(2) unfolding compare_laws_def CompareStrings_def by blast
  obtain items where items: "Strings_Sort cmp sl = Some (Inr (sl\<lparr>FItems := items\<rparr>))" "mset items = mset (FItems sl)"
      "sorted_wrt (\<lambda>x y. ?c x y \<le> 0) items"
  proof (cases "1 < length (FItems sl)")
    case True
    then show ?thesis using QuickSort_sorts [OF laws True] that assms(1)
      by (auto simp: Strings_Sort_def CustomSort_def List_GetCount_def)
  next
    case False
    then have "sorted_wrt (\<lambda>x y. ?c x y \<le> 0) (FItems sl)" by (cases "FItems sl") auto
    then show ?thesis using that [of "FItems sl"] False by (simp add: Strings_Sort_def CustomSort_def List_GetCount_def)
  qed
  let ?sl = "sl\<lparr>FItems := items, FSorted := True\<rparr>"
  have "SetSorted cmp True sl = Some (Inr ?sl)" using items(1) assms(1) by (simp add: SetSorted_def)
  moreover have "list_valid cmp ?sl" if "FDuplicates sl = dupAccept"
  proof -
    have "list_order cmp ?sl = (\<lambda>x y. ?c x y \<le> 0)" by (intro ext) (simp add: list_order_def CompareStrings_def that)
    then show ?thesis using items(3) by (simp add: list_valid_def)
  qed
  ultimately show ?thesis using items(2,3) by auto
qed

theorem SetSorted_sorts_witness:
  "\<exists>sl'. SetSorted ordinal_compare True \<lparr>FItems = [(''b'', Some 4), (''a'', None :: nat option)], FSorted = False,
     FCaseSensitive = True, FDuplicates = dupAccept\<rparr> = Some (Inr sl') \<and> list_valid ordinal_compare sl'"
  using SetSorted_sorts [of "\<lparr>FItems = [(''b'', Some 4), (''a'', None :: nat option)], FSorted = False,
     FCaseSensitive = True, FDuplicates = dupAccept\<rparr>" ordinal_compare] compare_laws_ordinal by auto

text \<open>Changing the regard to case of a sorted list leaves the items in the old order: a sort does nothing on a sorted list.\<close>

lemma SetCaseSensitive_unsorted:
  assumes "FSorted sl"
  shows "SetCaseSensitive cmp v sl = Some (Inr (sl\<lparr>FCaseSensitive := v\<rparr>))"
  using assms by (simp add: SetCaseSensitive_def Strings_Sort_def CustomSort_def Let_def)

section \<open>Texts are read back\<close>

lemma Strings_Add_end: "Strings_Add s obj sl = Inr (List_GetCount sl, sl\<lparr>FItems := FItems sl @ [(s, obj)]\<rparr>)"
  by (simp add: Strings_Add_def InsertItem_def List_GetCount_def)

lemma add_lines_append: "add_lines ss sl = Inr (sl\<lparr>FItems := FItems sl @ map (\<lambda>s. (s, None)) ss\<rparr>)"
  by (induction ss arbitrary: sl) (simp_all add: Strings_Add_end)

definition line :: "ustring \<Rightarrow> bool" where
  "line s \<longleftrightarrow> set s \<inter> {CHR 0x00, EolLF, EolCR} = {}"

lemma text_lines_line:
  assumes "line s"
  shows "text_lines (s @ EolCR # EolLF # r) = s # text_lines r"
proof -
  let ?P = "\<lambda>c. \<not> (c = CHR 0x00 \<or> c = EolLF \<or> c = EolCR)"
  have s: "\<forall>c \<in> set s. ?P c" using assms by (auto simp: line_def)
  then have t: "takeWhile ?P (s @ EolCR # EolLF # r) = s" by (simp add: takeWhile_append)
  have "hd (s @ EolCR # EolLF # r) \<noteq> CHR 0x00" using s by (cases s) auto
  then have "\<not> (s @ EolCR # EolLF # r = [] \<or> hd (s @ EolCR # EolLF # r) = CHR 0x00)" by simp
  then show ?thesis unfolding text_lines.simps [of "s @ EolCR # EolLF # r"] t Let_def by simp
qed

lemma text_lines_text: "\<forall>s \<in> set strs. line s \<Longrightarrow> text_lines (GetTextStr strs) = strs"
proof (induction strs)
  case Nil
  then show ?case by (simp add: GetTextStr_def text_lines.simps)
next
  case (Cons s strs)
  have "GetTextStr (s # strs) = s @ EolCR # EolLF # GetTextStr strs" by (simp add: GetTextStr_def)
  then show ?case using Cons text_lines_line [of s] by simp
qed

text \<open>C40: The text of a list of strings without line ends and zero characters is read back to exactly these strings,
  empty ones included, by any list; also by a sorted one, which does not sort them.\<close>

theorem text_round_trip:
  assumes "\<forall>s \<in> set strs. line s"
  shows "SetTextStr (GetTextStr strs) sl = Inr (sl\<lparr>FItems := map (\<lambda>s. (s, None)) strs\<rparr>)"
  using text_lines_text [OF assms] by (simp add: SetTextStr_def Strings_Clear_def add_lines_append)

theorem text_round_trip_witness:
  "SetTextStr (GetTextStr [''b'', [], ''a'']) (new_TStringList :: nat TStringList) =
   Inr (new_TStringList\<lparr>FItems := [(''b'', None), ([], None), (''a'', None)]\<rparr>)"
  using text_round_trip [of "[''b'', [], ''a'']" new_TStringList] by (simp add: line_def)

text \<open>Text with commas is not read back: the quotes stay, and an empty string becomes a letter.\<close>

lemma comma_text_not_read_back:
  "SetCommaText (GetCommaText [''a'', ''b,c'']) (new_TStringList :: nat TStringList) =
     Inr (new_TStringList\<lparr>FItems := map (\<lambda>s. (s, None)) [[CHR 0x22, CHR ''a'', CHR 0x22], [CHR 0x22, CHR ''b''], [CHR ''c'', CHR 0x22]]\<rparr>)"
  "GetCommaText [[]] = ''D''"
  by code_simp+

section \<open>Values of names\<close>

text \<open>The search for a name, by what it means for an item.\<close>

definition has_name :: "compare \<Rightarrow> 'o TStringList \<Rightarrow> ustring \<Rightarrow> ustring \<Rightarrow> bool" where
  "has_name cmp sl name s \<longleftrightarrow> (let p = Pos_char s (CHR ''='') in p > 0 \<and> CompareStrings cmp sl (SubString s 1 (p - 1)) name = 0)"

lemma IndexOfName_search: "IndexOfName cmp sl name = linear_search (has_name cmp sl name) (map fst (FItems sl)) 0"
  unfolding IndexOfName_def has_name_def ..

lemma Pos_equals: "CHR ''='' \<notin> set name \<Longrightarrow> Pos_char (name @ CHR ''='' # v) (CHR ''='') = Length name + 1"
  by (simp add: Pos_char_conv Length_def takeWhile_no_sep)

lemma has_name_entry:
  assumes "CHR ''='' \<notin> set name"
  shows "has_name cmp sl name' (name @ ''='' @ v) \<longleftrightarrow> CompareStrings cmp sl name name' = 0"
proof -
  have p: "Pos_char (name @ ''='' @ v) (CHR ''='') = Length name + 1" using Pos_equals [OF assms, of v] by simp
  show ?thesis unfolding has_name_def p Let_def by (simp add: Length_def)
qed

lemma compare_eq_trans:
  assumes "compare_laws c" "c x y = 0"
  shows "c x z = 0 \<longleftrightarrow> c y z = 0"
proof -
  have "c x y \<le> 0" "c y x \<le> 0" using assms(2) compare_lawsD(2) [OF assms(1), of y x] by auto
  then show ?thesis using compare_less [OF assms(1), of x y z] compare_less [OF assms(1), of y x z] by linarith
qed

lemma has_name_trans:
  assumes "laws cmp sl" "has_name cmp sl name s" "CompareStrings cmp sl name name' \<noteq> 0"
  shows "\<not> has_name cmp sl name' s"
  using assms(2,3) compare_eq_trans [OF assms(1)] unfolding has_name_def Let_def CompareStrings_def by metis

lemma linear_search_find: "List.find P xs = (if linear_search P xs 0 \<ge> 0 then Some (xs ! nat (linear_search P xs 0)) else None)"
proof (cases rule: linear_search_cases [of xs P])
  case none
  then show ?thesis using find_None_iff [of P xs] by simp
next
  case (found n)
  then have "List.find P xs = Some (xs ! n)" unfolding find_Some_iff by blast
  then show ?thesis using found(4) by simp
qed

lemma GetValue_find:
  "Strings_GetValue cmp sl name =
   (case List.find (has_name cmp sl name) (map fst (FItems sl)) of None \<Rightarrow> [] | Some s \<Rightarrow> drop (length name + 1) s)"
proof (cases rule: linear_search_cases [of "map fst (FItems sl)" "has_name cmp sl name"])
  case none
  then show ?thesis by (simp add: Strings_GetValue_def IndexOfName_search linear_search_find)
next
  case (found n)
  have "nat (Length name + 2 - 1) = length name + 1" by (simp add: Length_def)
  then show ?thesis using found by (simp add: Strings_GetValue_def IndexOfName_search linear_search_find SubString_from_conv)
qed

lemma find_update: "n < length xs \<Longrightarrow> \<not> P (xs ! n) \<Longrightarrow> \<not> P y \<Longrightarrow> List.find P (xs[n := y]) = List.find P xs"
proof (induction xs arbitrary: n)
  case (Cons x xs)
  then show ?case by (cases n) simp_all
qed simp

lemma find_update_first: "n < length xs \<Longrightarrow> \<forall>m < n. \<not> P (xs ! m) \<Longrightarrow> P y \<Longrightarrow> List.find P (xs[n := y]) = Some y"
  unfolding find_Some_iff by (intro exI [of _ n]) auto

lemma find_snoc: "List.find P (xs @ [y]) = (case List.find P xs of None \<Rightarrow> if P y then Some y else None | Some x \<Rightarrow> Some x)"
  by (induction xs) simp_all

text \<open>What setting a value does to the strings: the first entry of the name is replaced, or one is appended.\<close>

lemma SetValue_items:
  assumes "\<not> FSorted sl" "v \<noteq> []"
  obtains (new) items where "Strings_SetValue cmp name v sl = Inr (sl\<lparr>FItems := items\<rparr>)"
      "List.find (has_name cmp sl name) (map fst (FItems sl)) = None" "map fst items = map fst (FItems sl) @ [name @ ''='' @ v]"
  | (old) n items where "Strings_SetValue cmp name v sl = Inr (sl\<lparr>FItems := items\<rparr>)" "n < length (FItems sl)"
      "has_name cmp sl name (map fst (FItems sl) ! n)" "\<forall>m < n. \<not> has_name cmp sl name (map fst (FItems sl) ! m)"
      "map fst items = (map fst (FItems sl))[n := name @ ''='' @ v]"
proof (cases rule: linear_search_cases [of "map fst (FItems sl)" "has_name cmp sl name"])
  case none
  then have i: "IndexOfName cmp sl name = -1" by (simp add: IndexOfName_search)
  have "Strings_SetValue cmp name v sl = Inr (sl\<lparr>FItems := FItems sl @ [(name @ ''='' @ v, None)]\<rparr>)"
    using assms by (simp add: Strings_SetValue_def i Strings_Add_end SetString_def List_GetCount_def)
  then show ?thesis using new none by (simp add: find_None_iff)
next
  case (found n)
  then have i: "IndexOfName cmp sl name = int n" by (simp add: IndexOfName_search)
  let ?items = "(FItems sl)[n := (name @ ''='' @ v, snd (FItems sl ! n))]"
  have "Strings_SetValue cmp name v sl = Inr (sl\<lparr>FItems := ?items\<rparr>)"
    using assms found(1) by (simp add: Strings_SetValue_def i SetString_def List_GetCount_def)
  moreover have "map fst ?items = (map fst (FItems sl))[n := name @ ''='' @ v]" by (simp add: map_update)
  ultimately show ?thesis using old found by simp
qed

lemma has_name_items [simp]: "has_name cmp (sl\<lparr>FItems := items\<rparr>) = has_name cmp sl"
  by (intro ext) (simp add: has_name_def CompareStrings_def)



end
