(* ===== verification/Spec2Isabelle.thy ===== *)
theory Spec2Isabelle
  imports UnixPath SftpQueue FileBuffer FileMasks Security StringList
begin

text \<open>
  Verification of Far-NetBox, the plugin of Far Manager that gives access to SFTP, SCP, FTP, WebDAV and
  S3 servers. It consists of the user interface of the plugin (\<open>src/src/NetBox\<close>), the engine of
  WinSCP (\<open>src/src/core\<close>), a replacement for the Delphi runtime the engine was written for
  (\<open>src/src/base\<close>), the FTP engine of FileZilla (\<open>src/src/filezilla\<close>) and vendored libraries. The
  development models the parts through which every file name and every byte of an SFTP transfer
  passes, and the parts of the runtime they are built on. File names below are relative to \<open>src/src\<close>.

  \<^bold>\<open>How the parts interact.\<close> The connection delivers bytes in pieces to the receive buffer. The SFTP
  file system takes packets from it, and gives each to the caller that reserved the response with its
  number. A download queue keeps several read requests under way on top of this and hands the blocks
  out in the order of the file. A block is a memory stream, converted in place when the transfer is
  in text mode. Which files are transferred, and under which names, is decided by file masks, which
  are built from wildcards and from the functions for paths. Permissions, owners and the other
  attributes of files travel in attribute blocks of the packets.

  \<^bold>\<open>Theories.\<close>
  \<^item> \<open>NB_Prelude\<close>: machine integers as words, errors as values of \<open>nb_error + 'a\<close>, the division of C,
    shared facts on lists.
  \<^item> \<open>UString\<close>: the string class (\<open>include/nbstring.inl\<close>, \<open>base/UnicodeString.cpp\<close>) and the searches of
    \<open>base/Sysutils.cpp\<close>, with the collection \<open>ustring_simps\<close> that reduces them to functions on lists.
  \<^item> \<open>UnixPath\<close>: the functions for remote and local paths (\<open>base/Common.cpp\<close>). They are related to lists
    of segments: resolving a relative path (\<open>AbsolutePath\<close>), the greatest common directory of a list of
    files, the order of directories by inclusion, splitting and joining, shortening for display. The
    locale \<open>terminated_path\<close> holds what the functions for both kinds of paths share.
  \<^item> \<open>Rights\<close>: permissions, \<open>TRights\<close> of \<open>core/RemoteFiles.cpp\<close>: texts and octal numbers are read and
    written back, single rights are independent (locale \<open>right_store\<close>), two sets of rights combine.
  \<^item> \<open>RemoteToken\<close>: owners and groups, \<open>TRemoteTokenList\<close>: both indices of a list (locale
    \<open>token_index\<close>, interpreted for IDs and for names) find what a search of the list finds.
  \<^item> \<open>RemoteFile\<close>: the attributes of a remote file and the predicates on them.
  \<^item> \<open>SftpPacket\<close>: \<open>TSFTPPacket\<close> of \<open>core/SftpFileSystem.cpp\<close>, with the allocated block and 32-bit
    lengths: reads stay inside the block, fields and attribute blocks are read back as written (locale
    \<open>packet_codec\<close>, interpreted for bytes, numbers and strings).
  \<^item> \<open>SecureShellBuffer\<close>: the receive buffer of \<open>core/SecureShell.cpp\<close>: a read returns the next bytes of
    the stream however it was cut into pieces.
  \<^item> \<open>SftpFs\<close>: block sizes, reserved responses and the loop that receives packets, with a store of
    packets by address. \<open>session_step\<close> is the step relation of a session; its invariant holds in every
    reachable state. Receiving refines an abstract dispatch of responses by number.
  \<^item> \<open>SftpQueue\<close>: \<open>TSFTPQueue\<close> to \<open>TSFTPDownloadQueue\<close>: requests cover the file without gap and overlap,
    and every answer is delivered in the order of the requests.
  \<^item> \<open>MemoryStream\<close>: \<open>TStream\<close> and \<open>TMemoryStream\<close> of \<open>base/Classes.cpp\<close>. The locales \<open>byte_source\<close> and
    \<open>byte_sink\<close> are the contracts of streams, \<open>stream_copy\<close> adds copying; they are interpreted on the
    memory stream.
  \<^item> \<open>FileBuffer\<close>: \<open>TFileBuffer\<close> of \<open>base/FileBuffer.cpp\<close>: the conversion of line ends, in place and in
    blocks, against its meaning for the whole file.
  \<^item> \<open>Masks\<close>: wildcards, \<open>base/Masks.cpp\<close>, against the set of names a pattern stands for.
  \<^item> \<open>FileMasks\<close>: \<open>TFileMasks\<close> and masks for new names, \<open>core/FileMasks.cpp\<close>: setting masks is atomic,
    composed masks are read back, escaped directories match themselves, directories are included with
    the ones they are in.
  \<^item> \<open>Security\<close>: the encoding of stored passwords, \<open>core/WinSCPSecurity.cpp\<close>.
  \<^item> \<open>StringSort\<close>, \<open>StringList\<close>: \<open>TStrings\<close> and \<open>TStringList\<close> of \<open>base/Classes.cpp\<close>: quicksort in place,
    binary search, insertion into sorted lists, names with values, texts.

  \<^bold>\<open>State and effects.\<close> Classes are records, methods are functions that return the changed record.
  Exceptions are the left side of a sum. Access outside an allocated block or a vector, which is
  undefined in C++, is the error \<open>EUndefinedBehaviour\<close>, and theorems of safety exclude it. Objects that
  refer to each other by pointer, the packets and the table of reservations, live in an explicit
  store. Lengths of packets and counters of requests keep their 32 or 64 bits; string positions and
  sizes of lists are unbounded, as they stay far below \<open>2 ^ 31\<close>.

  \<^bold>\<open>Loops.\<close> No model needs fuel. Most loops are recursive functions with a termination proof. The waits
  for data consume the pieces the connection is still going to deliver, which are part of the state.
  Three loops are partial functions whose value \<open>None\<close> stands for not returning: \<open>QuickSort\<close>, which is
  proved to return for every comparison that is a total preorder; \<open>copy_all\<close> of streams and \<open>SetStr\<close>
  of file masks, for which the inputs that make them run forever are characterised and shown to exist.

  \<^bold>\<open>Parameters.\<close> Services of the operating system and of libraries are arguments: conversion and
  comparison of letters (\<open>up\<close>, \<open>eqi\<close>, \<open>cmp\<close>), code pages, the clock of relative times, random numbers,
  the contents of newly allocated memory, the block sizes a session asks for. What a theorem needs of
  them is a named predicate, such as \<open>case_mapping\<close> or \<open>compare_laws\<close>, and holds for the concrete
  instances of the witnesses.

  \<^bold>\<open>Errors found.\<close> Some theorems and lemmas state behaviour that is not intended: an announced packet
  length that passes the limit and overflows the buffer, empty lines lost between blocks, copies of
  streams that do not end, a response whose reservation is lost, permissions whose read-only flag is
  inverted, masks that can no longer be set, comma texts that are not read back.

  \<^bold>\<open>Not modelled.\<close> The user interface, the SDK of Far Manager, resources and the graphical tools are
  calls of the host and of Windows without logic of their own. Sockets, TLS, SSH, XML, compression and
  cryptography are vendored libraries. \<open>core/Terminal.cpp\<close>, the protocol adapters for SCP, FTP, WebDAV
  and S3 and the background queue orchestrate threads, dialogs and these libraries; of the SFTP file
  system the operations above requests and responses (listing, renaming, upload) are of this kind
  too. The configuration reads and writes the registry. Of \<open>core/RemoteFiles.cpp\<close> the parser of listing
  lines depends on the clock and the time zone of the session, and the caches of directories share
  their files by pointers; both are left out. Of the runtime, streams on file handles, dates,
  formatting and conversions between encodings are interfaces to Windows.
\<close>

end
